(* ===== verification/Prelude.thy ===== *)
theory Prelude
  imports Main "HOL-Library.Word" "HOL-Library.Multiset" "HOL-Library.Char_ord"
    "HOL-Library.List_Lexorder"
begin

text \<open>
  What every component shares: Go's basic types (byte strings, nil-able byte slices, 64-bit
  integers, instants and durations), error values and the errors.Is / errors.As walks over a
  wrapping chain, the few functions of the strings and fmt packages the sources call, and generic
  lemmas on lists. A Go string is a list of bytes, so \<open>string\<close> (a list of 8-bit characters)
  models it and \<open>length\<close> is Go's len.
\<close>

datatype 'a outcome = Returned 'a | Panic

named_theorems go_defs \<open>definitions of the Go standard library's part of the model\<close>

subsection \<open>Byte slices, instants, durations, 64-bit arithmetic\<close>

text \<open>
  A \<open>[]byte\<close> is \<open>None\<close> when it is nil and \<open>Some\<close> of its bytes otherwise: Go's len reads 0 on
  both, but a database driver stores the nil slice as NULL. An array \<open>[16]byte\<close> (a uuid.UUID) is
  the list of its bytes; an instant is the number of nanoseconds since 1970-01-01 UTC, and the zero
  instant of Go's time package lies in year 1.
\<close>

type_synonym byte = "8 word"
type_synonym bytes = "byte list option"
type_synonym uuid = "byte list"
type_synonym time = int
type_synonym duration = int

definition bytes_of :: "bytes \<Rightarrow> byte list" where [go_defs]:
  "bytes_of b = (case b of None \<Rightarrow> [] | Some xs \<Rightarrow> xs)"

definition go_len :: "bytes \<Rightarrow> nat" where [go_defs]:
  "go_len b = length (bytes_of b)"

definition clone_bytes :: "bytes \<Rightarrow> bytes" where
  \<comment> \<open>\<open>append([]byte(nil), b...)\<close>: appending no byte to the nil slice leaves it nil\<close>
  "clone_bytes b = (if bytes_of b = [] then None else Some (bytes_of b))"

definition zero_time :: time where
  "zero_time = - 62135596800000000000"

definition min_i64 :: int where [go_defs]: "min_i64 = - (2 ^ 63)"
definition max_i64 :: int where [go_defs]: "max_i64 = 2 ^ 63 - 1"

definition i64 :: "int \<Rightarrow> int" where
  \<comment> \<open>the value an int64 operation leaves: two's complement wrap-around\<close>
  "i64 x = (x + 2 ^ 63) mod 2 ^ 64 - 2 ^ 63"

definition in_i64 :: "int \<Rightarrow> bool" where [go_defs]:
  "in_i64 x \<longleftrightarrow> - (2 ^ 63) \<le> x \<and> x < 2 ^ 63"

definition unix_nano :: "time \<Rightarrow> int" where [go_defs]:
  "unix_nano t = i64 t"

definition time_sub :: "time \<Rightarrow> time \<Rightarrow> duration" where
  \<comment> \<open>\<open>t.Sub(u)\<close> saturates at the extreme durations\<close>
  "time_sub t u = max min_i64 (min max_i64 (t - u))"

abbreviation second :: duration where "second \<equiv> 1000000000"
abbreviation millisecond :: duration where "millisecond \<equiv> 1000000"

lemma i64_id: "in_i64 x \<Longrightarrow> i64 x = x"
  by (simp add: i64_def in_i64_def)

lemma i64_range: "in_i64 (i64 x)"
  by (simp add: i64_def in_i64_def)

lemma i64_cong: "x mod 2 ^ 64 = y mod 2 ^ 64 \<Longrightarrow> i64 x = i64 y"
  unfolding i64_def by (metis mod_add_cong)

lemma i64_mod: "i64 x mod 2 ^ 64 = x mod 2 ^ 64"
proof -
  have "i64 x = x - 2 ^ 64 * ((x + 2 ^ 63) div 2 ^ 64)"
    unfolding i64_def by (simp add: minus_div_mult_eq_mod [symmetric])
  then show ?thesis by (metis mod_diff_right_eq mod_mult_self1_is_0 diff_zero)
qed

lemma bytes_of_clone [simp]: "bytes_of (clone_bytes b) = bytes_of b"
  by (simp add: clone_bytes_def bytes_of_def)

lemma clone_bytes_nil [simp]: "clone_bytes b = None \<longleftrightarrow> bytes_of b = []"
  by (simp add: clone_bytes_def)

subsection \<open>Error values\<close>

text \<open>
  Errors as the sources build them: a sentinel or plain text, a *pgconn.PgError with its SQLSTATE
  code, buffer.ErrFull, a *subscriber.TopicParseError (class and detail), and a
  \<open>fmt.Errorf("text: %w", e)\<close>, which wraps \<open>e\<close> under a prefix. The walks of errors.As follow the
  wrapping. The text of a driver error is the driver's own.
\<close>

datatype go_error =
    ErrText string
  | PgError string string
  | ErrFull
  | TopicParseError string string
  | Wrapped string go_error

primrec as_pg_error :: "go_error \<Rightarrow> string option" where
  "as_pg_error (ErrText s) = None"
| "as_pg_error (PgError code msg) = Some code"
| "as_pg_error ErrFull = None"
| "as_pg_error (TopicParseError c d) = None"
| "as_pg_error (Wrapped p e) = as_pg_error e"

primrec as_topic_error :: "go_error \<Rightarrow> (string \<times> string) option" where
  "as_topic_error (ErrText s) = None"
| "as_topic_error (PgError code msg) = None"
| "as_topic_error ErrFull = None"
| "as_topic_error (TopicParseError c d) = Some (c, d)"
| "as_topic_error (Wrapped p e) = as_topic_error e"

primrec is_err_full :: "go_error \<Rightarrow> bool" where
  "is_err_full (ErrText s) \<longleftrightarrow> False"
| "is_err_full (PgError code msg) \<longleftrightarrow> False"
| "is_err_full ErrFull \<longleftrightarrow> True"
| "is_err_full (TopicParseError c d) \<longleftrightarrow> False"
| "is_err_full (Wrapped p e) \<longleftrightarrow> is_err_full e"

subsection \<open>strings and fmt\<close>

fun split_on :: "char \<Rightarrow> string \<Rightarrow> string list" where
  \<comment> \<open>\<open>strings.Split(s, sep)\<close> for a separator of one byte\<close>
  "split_on sep [] = [[]]"
| "split_on sep (c # cs) =
     (if c = sep then [] # split_on sep cs
      else (case split_on sep cs of [] \<Rightarrow> [[c]] | p # ps \<Rightarrow> (c # p) # ps))"

definition has_prefix :: "string \<Rightarrow> string \<Rightarrow> bool" where
  \<comment> \<open>\<open>strings.HasPrefix(s, p)\<close>\<close>
  "has_prefix s p \<longleftrightarrow> take (length p) s = p"

fun contains_sub :: "string \<Rightarrow> string \<Rightarrow> bool" where
  \<comment> \<open>\<open>strings.Contains(s, sub)\<close>\<close>
  "contains_sub [] sub \<longleftrightarrow> sub = []"
| "contains_sub (c # cs) sub \<longleftrightarrow> has_prefix (c # cs) sub \<or> contains_sub cs sub"

definition digit :: "nat \<Rightarrow> char" where [go_defs]:
  "digit d = char_of (48 + d)"

fun show_nat :: "nat \<Rightarrow> string" where
  "show_nat n = (if n < 10 then [digit n] else show_nat (n div 10) @ [digit (n mod 10)])"

declare show_nat.simps [simp del]

definition show_int :: "int \<Rightarrow> string" where
  \<comment> \<open>\<open>%d\<close>\<close>
  "show_int i = (if i < 0 then CHR ''-'' # show_nat (nat (- i)) else show_nat (nat i))"

lemma split_on_not_Nil [simp]: "split_on sep s \<noteq> []"
  by (cases s) (auto split: list.splits)

lemma split_on_no_sep: "p \<in> set (split_on sep s) \<Longrightarrow> sep \<notin> set p"
proof (induction s arbitrary: p)
  case Nil
  then show ?case by simp
next
  case (Cons c cs)
  then show ?case by (cases "split_on sep cs") (auto split: if_splits)
qed

fun join_with :: "char \<Rightarrow> string list \<Rightarrow> string" where
  "join_with sep [] = []"
| "join_with sep [p] = p"
| "join_with sep (p # q # ps) = p @ sep # join_with sep (q # ps)"

lemma join_with_Cons: "ps \<noteq> [] \<Longrightarrow> join_with sep (p # ps) = p @ sep # join_with sep ps"
  by (cases ps) auto

text \<open>Splitting and joining are inverse to each other on separator-free pieces.\<close>

lemma join_split: "join_with sep (split_on sep s) = s"
proof (induction s)
  case Nil
  show ?case by simp
next
  case (Cons c cs)
  then show ?case
    by (cases "split_on sep cs"; cases "tl (split_on sep cs)") auto
qed

lemma split_on_append:
  "sep \<notin> set p \<Longrightarrow> split_on sep (p @ sep # s) = p # split_on sep s"
  by (induction p) auto

lemma split_on_single: "sep \<notin> set p \<Longrightarrow> split_on sep p = [p]"
  by (induction p) auto

lemma split_join:
  "ps \<noteq> [] \<Longrightarrow> \<forall>p \<in> set ps. sep \<notin> set p \<Longrightarrow> split_on sep (join_with sep ps) = ps"
  by (induction sep ps rule: join_with.induct) (auto simp: split_on_append split_on_single)

subsubsection \<open>Decimal text\<close>

definition undigit :: "char \<Rightarrow> nat" where [go_defs]:
  "undigit c = of_char c - 48"

definition is_digit :: "char \<Rightarrow> bool" where [go_defs]:
  "is_digit c \<longleftrightarrow> 48 \<le> (of_char c :: nat) \<and> (of_char c :: nat) \<le> 57"

lemma of_char_digit: "d < 10 \<Longrightarrow> (of_char (digit d) :: nat) = 48 + d"
  by (simp add: digit_def)

lemma undigit_digit [simp]: "d < 10 \<Longrightarrow> undigit (digit d) = d"
  by (simp add: undigit_def of_char_digit)

lemma is_digit_digit [simp]: "d < 10 \<Longrightarrow> is_digit (digit d)"
  by (simp add: is_digit_def of_char_digit)

lemma digit_inj: "a < 10 \<Longrightarrow> b < 10 \<Longrightarrow> digit a = digit b \<longleftrightarrow> a = b"
  by (metis undigit_digit)

lemma digit_neq: "\<not> is_digit c \<Longrightarrow> d < 10 \<Longrightarrow> digit d \<noteq> c"
  using is_digit_digit by blast

definition read_nat :: "string \<Rightarrow> nat" where
  "read_nat s = foldl (\<lambda>n c. 10 * n + undigit c) 0 s"

lemma read_show_nat [simp]: "read_nat (show_nat n) = n"
proof (induction n rule: show_nat.induct)
  case (1 n)
  show ?case
  proof (cases "n < 10")
    case True
    then show ?thesis by (simp add: show_nat.simps [of n] read_nat_def)
  next
    case False
    with 1 have "read_nat (show_nat (n div 10)) = n div 10" by simp
    with False show ?thesis by (simp add: show_nat.simps [of n] read_nat_def)
  qed
qed

lemma show_nat_digits: "c \<in> set (show_nat n) \<Longrightarrow> is_digit c"
proof (induction n rule: show_nat.induct)
  case (1 n)
  then show ?case
    by (cases "n < 10") (auto simp: show_nat.simps [of n])
qed

lemma show_nat_not_Nil [simp]: "show_nat n \<noteq> []"
  by (subst show_nat.simps) simp

lemma show_nat_inj: "show_nat a = show_nat b \<longleftrightarrow> a = b"
  by (metis read_show_nat)

lemma minus_not_digit: "\<not> is_digit CHR ''-''"
  by (simp add: is_digit_def)

lemma show_nat_hd_minus: "hd (show_nat n) \<noteq> CHR ''-''"
proof -
  have "is_digit (hd (show_nat n))" by (rule show_nat_digits) (rule hd_in_set, simp)
  with minus_not_digit show ?thesis by metis
qed

lemma show_int_inj: "show_int a = show_int b \<longleftrightarrow> a = b"
proof
  assume eq: "show_int a = show_int b"
  show "a = b"
  proof (cases "(a < 0) = (b < 0)")
    case True
    with eq show ?thesis by (auto simp: show_int_def show_nat_inj split: if_splits)
  next
    case False
    then have "hd (show_int a) \<noteq> hd (show_int b)"
      using show_nat_hd_minus [of "nat a"] show_nat_hd_minus [of "nat b"]
      by (auto simp: show_int_def)
    with eq show ?thesis by simp
  qed
qed simp

lemma show_int_chars: "c \<in> set (show_int i) \<Longrightarrow> is_digit c \<or> c = CHR ''-''"
  by (auto simp: show_int_def dest: show_nat_digits split: if_splits)

subsection \<open>Generic list and multiset lemmas\<close>

lemma append_inj_sep:
  "x \<notin> set as \<Longrightarrow> x \<notin> set bs \<Longrightarrow> as @ x # cs = bs @ x # ds \<longleftrightarrow> as = bs \<and> cs = ds"
proof (induction as arbitrary: bs)
  case Nil
  then show ?case by (cases bs) auto
next
  case (Cons a as)
  then show ?case by (cases bs) auto
qed

lemma map_nth_upt: "k \<le> length xs \<Longrightarrow> map ((!) xs) [0..<k] = take k xs"
  by (rule nth_equalityI) auto

end
