(* ===== verification/GoFloat.thy ===== *)
theory GoFloat
  imports Prelude
begin

text \<open>
  The part of Go's float64 arithmetic the sources use: the conversion \<open>float64(n)\<close> of an integer,
  the product of an integer and a threshold, comparisons, and the truncating conversion back to an
  integer. A finite double is a dyadic rational \<open>m / 2 ^ k\<close>; a result is rounded to 53 significant
  bits, ties to even. No operand the sources use comes near the exponent bounds (one factor is an
  int64, the other a threshold below 1), so exponents are unbounded here. NaN and the infinities
  are values of their own: a configuration file can spell them.
\<close>

datatype f64 = NaN | Inf bool | Fin int nat

text \<open>Comparisons: every comparison with NaN is false; \<open>Inf True\<close> is plus infinity.\<close>

fun f64_less :: "f64 \<Rightarrow> f64 \<Rightarrow> bool" where
  "f64_less NaN _ \<longleftrightarrow> False"
| "f64_less _ NaN \<longleftrightarrow> False"
| "f64_less (Inf p) (Inf q) \<longleftrightarrow> \<not> p \<and> q"
| "f64_less (Inf p) (Fin _ _) \<longleftrightarrow> \<not> p"
| "f64_less (Fin _ _) (Inf q) \<longleftrightarrow> q"
| "f64_less (Fin a k) (Fin b l) \<longleftrightarrow> a * 2 ^ l < b * 2 ^ k"

fun f64_le :: "f64 \<Rightarrow> f64 \<Rightarrow> bool" where
  "f64_le NaN _ \<longleftrightarrow> False"
| "f64_le _ NaN \<longleftrightarrow> False"
| "f64_le (Inf p) (Inf q) \<longleftrightarrow> p \<longrightarrow> q"
| "f64_le (Inf p) (Fin _ _) \<longleftrightarrow> \<not> p"
| "f64_le (Fin _ _) (Inf q) \<longleftrightarrow> q"
| "f64_le (Fin a k) (Fin b l) \<longleftrightarrow> a * 2 ^ l \<le> b * 2 ^ k"

subsection \<open>Rounding to 53 significant bits\<close>

fun bit_len :: "nat \<Rightarrow> nat" where
  "bit_len n = (if n = 0 then 0 else Suc (bit_len (n div 2)))"

declare bit_len.simps [simp del]

definition round_half_even :: "nat \<Rightarrow> nat \<Rightarrow> nat" where
  \<comment> \<open>\<open>n / 2 ^ s\<close> to the nearest integer, ties to the even one\<close>
  "round_half_even n s =
     (let q = n div 2 ^ s; r = n mod 2 ^ s
      in if 2 * r < 2 ^ s then q else if 2 ^ s < 2 * r then Suc q else q + q mod 2)"

definition round53 :: "nat \<Rightarrow> nat" where
  "round53 n = (let s = bit_len n - 53 in round_half_even n s * 2 ^ s)"

definition f64_round :: "int \<Rightarrow> nat \<Rightarrow> f64" where
  "f64_round m k = Fin (sgn m * int (round53 (nat \<bar>m\<bar>))) k"

definition f64_of_int :: "int \<Rightarrow> f64" where
  "f64_of_int n = f64_round n 0"

fun f64_mul :: "f64 \<Rightarrow> f64 \<Rightarrow> f64" where
  "f64_mul (Fin a k) (Fin b l) = f64_round (a * b) (k + l)"
| "f64_mul NaN _ = NaN"
| "f64_mul _ NaN = NaN"
| "f64_mul (Inf p) (Inf q) = Inf (p = q)"
| "f64_mul (Inf p) (Fin b l) = (if b = 0 then NaN else Inf (p = (0 < b)))"
| "f64_mul (Fin a k) (Inf q) = (if a = 0 then NaN else Inf (q = (0 < a)))"

text \<open>
  \<open>int(x)\<close> truncates towards zero; Go leaves the result of a NaN, infinite or out-of-range value
  to the implementation, here the argument \<open>u\<close>.
\<close>

fun f64_to_int :: "int \<Rightarrow> f64 \<Rightarrow> int" where
  "f64_to_int u (Fin m k) = (let t = sgn m * (\<bar>m\<bar> div 2 ^ k) in if in_i64 t then t else u)"
| "f64_to_int u _ = u"

definition f64_lit_095 :: f64 where "f64_lit_095 = Fin 8556839292003942 53"
definition f64_lit_08 :: f64 where "f64_lit_08 = Fin 7205759403792794 53"

lemma f64_lit_095_nearest: "2 * \<bar>20 * 8556839292003942 - 19 * 2 ^ 53\<bar> \<le> (20 :: int)"
  by simp

lemma f64_lit_08_nearest: "2 * \<bar>5 * 7205759403792794 - 4 * 2 ^ 53\<bar> \<le> (5 :: int)"
  by simp

subsection \<open>Laws of the rounding\<close>

lemma bit_len_0 [simp]: "bit_len 0 = 0"
  by (simp add: bit_len.simps)

lemma less_two_power_bit_len: "n < 2 ^ bit_len n"
proof (induction n rule: bit_len.induct)
  case (1 n)
  then show ?case by (cases "n = 0") (auto simp: bit_len.simps [of n])
qed

lemma two_power_bit_len_le: "n \<noteq> 0 \<Longrightarrow> 2 ^ (bit_len n - 1) \<le> n"
proof (induction n rule: bit_len.induct)
  case (1 n)
  show ?case
  proof (cases "n div 2 = 0")
    case True
    with 1(2) show ?thesis by (simp add: bit_len.simps [of n])
  next
    case False
    with 1 have "2 ^ (bit_len (n div 2) - 1) \<le> n div 2" by simp
    moreover obtain b where b: "bit_len (n div 2) = Suc b"
      using False by (simp add: bit_len.simps [of "n div 2"])
    ultimately have "2 ^ Suc b \<le> n" by simp
    moreover have "bit_len n = Suc (Suc b)" using 1(2) b by (simp add: bit_len.simps [of n])
    ultimately show ?thesis by simp
  qed
qed

lemma bit_len_le_iff: "bit_len n \<le> b \<longleftrightarrow> n < 2 ^ b"
proof
  assume "bit_len n \<le> b"
  then have "(2::nat) ^ bit_len n \<le> 2 ^ b" by simp
  with less_two_power_bit_len [of n] show "n < 2 ^ b" by linarith
next
  assume lt: "n < 2 ^ b"
  show "bit_len n \<le> b"
  proof (cases "n = 0")
    case False
    then have "2 ^ (bit_len n - 1) < (2::nat) ^ b"
      using two_power_bit_len_le lt by (metis le_less_trans)
    then show ?thesis by simp
  qed simp
qed

lemma bit_len_mono: "m \<le> n \<Longrightarrow> bit_len m \<le> bit_len n"
  using bit_len_le_iff less_two_power_bit_len le_less_trans by metis

lemma bit_len_shift: "n \<noteq> 0 \<Longrightarrow> bit_len (n * 2 ^ j) = bit_len n + j"
proof (induction j)
  case (Suc j)
  have "bit_len (n * 2 ^ Suc j) = Suc (bit_len (n * 2 ^ Suc j div 2))"
    by (subst bit_len.simps) (use Suc.prems in simp)
  also have "n * 2 ^ Suc j div 2 = n * 2 ^ j" by simp
  finally show ?case using Suc by simp
qed simp

lemma round_half_even_0 [simp]: "round_half_even n 0 = n"
  by (simp add: round_half_even_def)

lemma round_half_even_exact: "round_half_even (q * 2 ^ s) s = q"
  by (simp add: round_half_even_def)

lemma round_half_even_bounds:
  "n div 2 ^ s \<le> round_half_even n s" "round_half_even n s \<le> Suc (n div 2 ^ s)"
  by (auto simp: round_half_even_def Let_def)

lemma round_half_even_mono:
  assumes "m \<le> n"
  shows "round_half_even m s \<le> round_half_even n s"
proof (cases "m div 2 ^ s = n div 2 ^ s")
  case True
  then have "m mod 2 ^ s \<le> n mod 2 ^ s"
    using assms by (metis add_le_cancel_left div_mult_mod_eq)
  with True show ?thesis by (auto simp: round_half_even_def Let_def)
next
  case False
  then have "Suc (m div 2 ^ s) \<le> n div 2 ^ s" using assms div_le_mono [of m n "2 ^ s"] by simp
  with round_half_even_bounds [of m s] round_half_even_bounds [of n s] show ?thesis by linarith
qed

lemma round53_small: "n < 2 ^ 53 \<Longrightarrow> round53 n = n"
  using bit_len_le_iff [of n 53] by (simp add: round53_def)

lemma round_half_even_shift: "round_half_even (n * 2 ^ j) (s + j) = round_half_even n s"
proof -
  have "n * 2 ^ j div 2 ^ (s + j) = n div 2 ^ s" by (simp add: power_add)
  moreover have "n * 2 ^ j mod 2 ^ (s + j) = (n mod 2 ^ s) * 2 ^ j"
    by (simp add: power_add mult_mod_left)
  moreover have "(2::nat) ^ (s + j) = 2 ^ s * 2 ^ j" by (simp add: power_add)
  ultimately show ?thesis
    by (simp add: round_half_even_def Let_def flip: mult.assoc)
qed

lemma round53_shift: "round53 (n * 2 ^ j) = round53 n * 2 ^ j"
proof (cases "n = 0")
  case False
  let ?b = "bit_len n"
  show ?thesis
  proof (cases "53 \<le> ?b")
    case True
    then have "?b + j - 53 = (?b - 53) + j" by simp
    with False show ?thesis
      by (simp add: round53_def Let_def bit_len_shift round_half_even_shift power_add)
  next
    case small: False
    then have n: "round53 n = n" using bit_len_le_iff [of n 53] by (simp add: round53_small)
    define s where "s = ?b + j - 53"
    have "s \<le> j" using small by (simp add: s_def)
    then have e: "n * 2 ^ j = (n * 2 ^ (j - s)) * 2 ^ s" by (simp flip: power_add)
    have "round_half_even (n * 2 ^ j) s * 2 ^ s = n * 2 ^ j"
      by (simp only: e round_half_even_exact)
    with False n show ?thesis by (simp add: round53_def Let_def bit_len_shift s_def)
  qed
qed (simp add: round53_def)

lemma round53_le_power: "n < 2 ^ b \<Longrightarrow> round53 n \<le> 2 ^ b"
proof (cases "53 \<le> b")
  case True
  assume n: "n < 2 ^ b"
  define s where "s = bit_len n - 53"
  have s: "s \<le> b" using n by (simp add: s_def bit_len_le_iff [symmetric] flip: bit_len_le_iff)
  have "round_half_even n s \<le> round_half_even (2 ^ (b - s) * 2 ^ s) s"
    by (rule round_half_even_mono) (use n s in \<open>simp flip: power_add\<close>)
  then have "round_half_even n s \<le> 2 ^ (b - s)" by (simp only: round_half_even_exact)
  then have "round_half_even n s * 2 ^ s \<le> 2 ^ (b - s) * 2 ^ s" by simp
  then show ?thesis using s by (simp add: round53_def Let_def s_def flip: power_add)
next
  case False
  assume n: "n < 2 ^ b"
  moreover have "(2::nat) ^ b \<le> 2 ^ 53" using False by (intro power_increasing) simp_all
  ultimately show ?thesis by (simp add: round53_small)
qed

lemma round53_ge_power: "n \<noteq> 0 \<Longrightarrow> 2 ^ (bit_len n - 1) \<le> round53 n"
proof (cases "53 \<le> bit_len n")
  case True
  assume n: "n \<noteq> 0"
  define s where "s = bit_len n - 53"
  have e: "bit_len n - 1 = (bit_len n - 1 - s) + s" using True by (simp add: s_def)
  have "round_half_even (2 ^ (bit_len n - 1 - s) * 2 ^ s) s \<le> round_half_even n s"
  proof (rule round_half_even_mono)
    have "2 ^ (bit_len n - 1 - s) * 2 ^ s = (2::nat) ^ (bit_len n - 1)"
      by (subst (2) e) (simp add: power_add)
    then show "2 ^ (bit_len n - 1 - s) * 2 ^ s \<le> n" using two_power_bit_len_le [OF n] by simp
  qed
  then have "2 ^ (bit_len n - 1 - s) \<le> round_half_even n s" by (simp only: round_half_even_exact)
  then have "2 ^ (bit_len n - 1 - s) * 2 ^ s \<le> round_half_even n s * 2 ^ s"
    by (rule mult_le_mono1)
  moreover have "2 ^ (bit_len n - 1 - s) * 2 ^ s = (2::nat) ^ (bit_len n - 1)"
    by (subst (2) e) (simp add: power_add)
  ultimately have "2 ^ (bit_len n - 1) \<le> round_half_even n s * 2 ^ s" by (simp only:)
  then show ?thesis by (simp only: round53_def Let_def s_def)
next
  case False
  assume n: "n \<noteq> 0"
  from False have "round53 n = n" using bit_len_le_iff [of n 53] by (simp add: round53_small)
  with two_power_bit_len_le [OF n] show ?thesis by simp
qed

lemma round53_mono:
  assumes "m \<le> n"
  shows "round53 m \<le> round53 n"
proof (cases "bit_len m = bit_len n")
  case True
  then show ?thesis by (simp add: round53_def Let_def round_half_even_mono assms)
next
  case False
  with bit_len_mono [OF assms] have lt: "bit_len m < bit_len n" by simp
  then have n: "n \<noteq> 0" by (metis bit_len_0 not_less_zero)
  have "round53 m \<le> 2 ^ bit_len m" by (rule round53_le_power) (rule less_two_power_bit_len)
  also have "\<dots> \<le> 2 ^ (bit_len n - 1)" using lt by simp
  also have "\<dots> \<le> round53 n" by (rule round53_ge_power [OF n])
  finally show ?thesis .
qed

subsection \<open>Scaling an integer by a threshold\<close>

definition f64_scale :: "int \<Rightarrow> int \<Rightarrow> f64 \<Rightarrow> int" where
  \<comment> \<open>\<open>int(float64(n) * t)\<close>\<close>
  "f64_scale u n t = f64_to_int u (f64_mul (f64_of_int n) t)"

abbreviation f64_zero :: f64 where "f64_zero \<equiv> Fin 0 0"
abbreviation f64_one :: f64 where "f64_one \<equiv> Fin 1 0"

lemma round53_0 [simp]: "round53 0 = 0"
  by (simp add: round53_def)

lemma round53_pos: "0 < n \<Longrightarrow> 0 < round53 n"
proof -
  assume "0 < n"
  then have "2 ^ (bit_len n - 1) \<le> round53 n" by (intro round53_ge_power) simp
  moreover have "(0::nat) < 2 ^ (bit_len n - 1)" by simp
  ultimately show ?thesis by (rule less_le_trans [rotated])
qed

lemma round53_idem_mult: "n < 2 ^ 53 \<Longrightarrow> round53 (n * 2 ^ k) = n * 2 ^ k"
  by (simp add: round53_shift round53_small)

lemma round53_idem: "round53 (round53 n) = round53 n"
proof -
  let ?s = "bit_len n - 53"
  have r: "round53 n = round_half_even n ?s * 2 ^ ?s" by (simp add: round53_def Let_def)
  have "round_half_even n ?s \<le> 2 ^ 53"
  proof (cases "53 \<le> bit_len n")
    case True
    have "round_half_even n ?s \<le> round_half_even (2 ^ 53 * 2 ^ ?s) ?s"
    proof (rule round_half_even_mono)
      have "n < 2 ^ bit_len n" by (rule less_two_power_bit_len)
      also have "\<dots> = 2 ^ 53 * 2 ^ ?s" by (metis True le_add_diff_inverse power_add)
      finally show "n \<le> 2 ^ 53 * 2 ^ ?s" by simp
    qed
    then show ?thesis by (simp only: round_half_even_exact)
  next
    case False
    then show ?thesis using bit_len_le_iff [of n 53] by simp
  qed
  then have "round53 (round_half_even n ?s) = round_half_even n ?s"
  proof (cases "round_half_even n ?s = 2 ^ 53")
    case True
    have "round53 (1 * 2 ^ 53) = 1 * 2 ^ 53" by (rule round53_idem_mult) simp
    with True show ?thesis by simp
  next
    case False
    with \<open>round_half_even n ?s \<le> 2 ^ 53\<close> show ?thesis by (intro round53_small) simp
  qed
  then show ?thesis by (simp add: r round53_shift)
qed

lemma sgn_mult_int_nat: "0 \<le> x \<Longrightarrow> sgn x * int (round53 (nat x)) = int (round53 (nat x))"
  by (cases "x = 0") simp_all

lemma f64_mul_of_int:
  assumes "0 \<le> n" "0 \<le> a"
  shows "f64_mul (f64_of_int n) (Fin a k) = Fin (int (round53 (round53 (nat n) * nat a))) k"
proof -
  have "f64_of_int n = Fin (int (round53 (nat n))) 0"
    using assms by (simp add: f64_of_int_def f64_round_def sgn_mult_int_nat)
  moreover have "0 \<le> int (round53 (nat n)) * a" using assms by simp
  moreover have "nat (int (round53 (nat n)) * a) = round53 (nat n) * nat a"
    using assms by (simp add: nat_mult_distrib)
  ultimately show ?thesis
    using sgn_mult_int_nat [of "int (round53 (nat n)) * a"] by (simp only: f64_mul.simps
      f64_round_def abs_of_nonneg add_0)
qed

lemma f64_scale_nat:
  assumes "0 \<le> n" "round53 (nat n) < 2 ^ 63" "0 \<le> a" "a < 2 ^ k"
  shows "f64_scale u n (Fin a k) = int (round53 (round53 (nat n) * nat a) div 2 ^ k)"
proof -
  let ?N = "round53 (nat n)"
  have "nat a \<le> 2 ^ k" using assms by (simp add: nat_le_iff)
  then have "round53 (?N * nat a) \<le> round53 (?N * 2 ^ k)" by (intro round53_mono) simp
  also have "\<dots> = ?N * 2 ^ k" by (simp add: round53_shift round53_idem)
  finally have "round53 (?N * nat a) div 2 ^ k \<le> ?N" by (simp add: div_le_mono [THEN order_trans])
  then have "round53 (?N * nat a) div 2 ^ k < 2 ^ 63" using assms(2) by (rule le_less_trans)
  then have "int (round53 (?N * nat a) div 2 ^ k) < 2 ^ 63"
    by (metis of_nat_less_iff of_nat_power of_nat_numeral)
  then have "in_i64 (int (round53 (?N * nat a) div 2 ^ k))"
    unfolding in_i64_def by linarith
  moreover have "sgn x * (\<bar>x\<bar> div 2 ^ k) = x div 2 ^ k" if "0 \<le> x" for x :: int
    using that by (cases "x = 0") simp_all
  moreover have "in_i64 0" by (simp add: in_i64_def)
  ultimately show ?thesis
    using assms by (simp add: f64_scale_def f64_mul_of_int zdiv_int Let_def)
qed

lemma div_two_power_mono:
  assumes "x * 2 ^ l \<le> y * 2 ^ k"
  shows "x div 2 ^ k \<le> y div (2::nat) ^ l"
proof -
  have "x div 2 ^ k = (x * 2 ^ l) div (2 ^ k * 2 ^ l)" by simp
  also have "\<dots> \<le> (y * 2 ^ k) div (2 ^ k * 2 ^ l)" using assms by (rule div_le_mono)
  also have "\<dots> = y div 2 ^ l" by (simp add: mult.commute)
  finally show ?thesis .
qed

lemma round53_lt_63: "n < 2 ^ 62 \<Longrightarrow> round53 n < 2 ^ 63"
  using round53_le_power [of n 62] by simp

text \<open>The facts the thresholds need: scaling is monotone in the threshold and stays in range.\<close>

lemma f64_unit_cases:
  assumes "f64_less f64_zero t" "f64_less t f64_one"
  obtains a k where "t = Fin a k" "0 < a" "a < 2 ^ k"
  using assms by (cases t) auto

lemma f64_scale_bounds:
  assumes "0 \<le> n" "n < 2 ^ 62" "f64_less f64_zero t" "f64_less t f64_one"
  shows "0 \<le> f64_scale u n t" "f64_scale u n t \<le> int (round53 (nat n))"
proof -
  from assms(3,4) obtain a k where t: "t = Fin a k" "0 < a" "a < 2 ^ k" by (rule f64_unit_cases)
  let ?N = "round53 (nat n)"
  have N: "?N < 2 ^ 63" using assms by (intro round53_lt_63) (simp add: nat_less_iff)
  have "f64_scale u n t = int (round53 (?N * nat a) div 2 ^ k)"
    using f64_scale_nat [of n a k u] assms t N by simp
  moreover have "round53 (?N * nat a) \<le> round53 (?N * 2 ^ k)"
    using t by (intro round53_mono mult_le_mono2) (simp add: nat_le_iff)
  then have "round53 (?N * nat a) div 2 ^ k \<le> ?N"
    using div_le_mono [of "round53 (?N * nat a)" "?N * 2 ^ k" "2 ^ k"]
    by (simp add: round53_shift round53_idem)
  ultimately show "0 \<le> f64_scale u n t" "f64_scale u n t \<le> int ?N" by simp_all
qed

lemma f64_scale_mono:
  assumes "0 \<le> n" "n < 2 ^ 62"
    and "f64_less f64_zero s" "f64_less s t" "f64_less t f64_one"
  shows "f64_scale u n s \<le> f64_scale u n t"
proof -
  from assms obtain a k b l where t: "t = Fin b l" "b < 2 ^ l"
    and s: "s = Fin a k" "0 < a" "a * 2 ^ l < b * 2 ^ k" by (cases s; cases t) auto
  have "a * 2 ^ l < 2 ^ l * 2 ^ k" using s(3) t(2) by (smt (verit) mult_le_cancel_right zero_less_power)
  then have a: "a < 2 ^ k" by (metis mult.commute mult_less_cancel_left_pos zero_less_numeral zero_less_power)
  have b: "0 < b" using s by (smt (verit) mult_nonneg_nonneg mult_nonpos_nonneg zero_le_power)
  let ?N = "round53 (nat n)"
  have N: "?N < 2 ^ 63" using assms by (intro round53_lt_63) (simp add: nat_less_iff)
  have "int (nat a * 2 ^ l) \<le> int (nat b * 2 ^ k)" using s b by simp
  then have ab: "nat a * 2 ^ l \<le> nat b * 2 ^ k" by (simp only: of_nat_le_iff)
  have "round53 (?N * nat a) * 2 ^ l = round53 (?N * (nat a * 2 ^ l))"
    by (simp add: round53_shift mult.assoc [symmetric])
  also have "\<dots> \<le> round53 (?N * (nat b * 2 ^ k))" using ab by (intro round53_mono mult_le_mono2)
  also have "\<dots> = round53 (?N * nat b) * 2 ^ k" by (simp add: round53_shift mult.assoc [symmetric])
  finally have "round53 (?N * nat a) div 2 ^ k \<le> round53 (?N * nat b) div 2 ^ l"
    by (rule div_two_power_mono)
  then show ?thesis
    using f64_scale_nat [of n a k u] f64_scale_nat [of n b l u] assms s t a b N by simp
qed

end
