(* ===== verification/Config.thy ===== *)
theory Config
  imports GoFloat
begin

text \<open>
  internal/config (config.go, duration.go) and internal/logging: the configuration document, its
  defaults, the resolution order of Load, Validate, and the two functions of logging that read it.
  Reading the file, decoding YAML, overlaying the environment, \<open>url.Parse\<close> and
  \<open>time.ParseDuration\<close> are arguments of the definitions that call them. A problem Validate reports
  is modelled by the format string of its message, without the values formatted into it.
\<close>

subsection \<open>Case folding\<close>

text \<open>
  \<open>strings.ToLower\<close> as far as a comparison with ASCII text can see it: ASCII capitals, and the two
  characters outside ASCII whose lower case is an ASCII letter, U+0130 (to i) and U+212A (to k), in
  their UTF-8 encoding. Other bytes outside ASCII stay outside ASCII.
\<close>

definition lower_char :: "char \<Rightarrow> char" where
  "lower_char c =
     (if 65 \<le> (of_char c :: nat) \<and> (of_char c :: nat) \<le> 90 then char_of ((of_char c :: nat) + 32) else c)"

fun to_lower :: "string \<Rightarrow> string" where
  "to_lower [] = []"
| "to_lower (c # cs) =
     (case cs of
        d # ds \<Rightarrow>
          if c = CHR 0xC4 \<and> d = CHR 0xB0 then CHR ''i'' # to_lower ds
          else (case ds of
              e # es \<Rightarrow>
                if c = CHR 0xE2 \<and> d = CHR 0x84 \<and> e = CHR 0xAA then CHR ''k'' # to_lower es
                else lower_char c # to_lower cs
            | [] \<Rightarrow> lower_char c # to_lower cs)
      | [] \<Rightarrow> lower_char c # to_lower cs)"

subsection \<open>The configuration document\<close>

record mqtt_config =
  brokers :: "string list"
  client_id_prefix :: string
  shared_subscription :: string
  mqtt_username :: string
  mqtt_password :: string
  keepalive :: duration
  connect_timeout :: duration
  max_reconnect_backoff :: duration
  clean_session :: bool
  protocol_version :: int

record buffer_config =
  max_messages :: int
  max_bytes :: int
  spill_threshold :: f64
  pause_threshold :: f64

record badger_config =
  badger_path :: string
  badger_ttl :: duration
  sync_writes :: bool
  value_log_file_size :: int

record postgres_config =
  dsn :: string
  max_conns :: int
  min_conns :: int
  conn_max_lifetime :: duration
  pg_schema :: string
  pg_table :: string
  pg_columns :: "string list"

record flusher_config =
  batch_size :: int
  flush_interval :: duration
  elevated_latency_threshold :: duration
  elevated_batch_size :: int
  elevated_flush_interval :: duration
  critical_latency_threshold :: duration
  recovery_window :: duration
  max_retries :: int
  workers :: int

record s3_config =
  s3_bucket :: string
  s3_region :: string
  s3_endpoint :: string
  use_path_style :: bool
  use_ssl :: bool
  access_key :: string
  secret_key :: string

record metrics_config =
  metrics_listen :: string
  metrics_path :: string

record health_config =
  health_listen :: string
  liveness_path :: string
  readiness_path :: string

record logging_config =
  log_level :: string
  log_format :: string
  log_payloads :: bool

record config =
  c_mqtt :: mqtt_config
  c_buffer :: buffer_config
  c_badger :: badger_config
  c_postgres :: postgres_config
  c_flusher :: flusher_config
  c_dead_letter :: s3_config
  c_metrics :: metrics_config
  c_health :: health_config
  c_logging :: logging_config

subsection \<open>Defaults\<close>

definition new_default :: config where
  "new_default =
     \<lparr>c_mqtt = \<lparr>brokers = [], client_id_prefix = ''mqtt2db-go'', shared_subscription = '''',
        mqtt_username = '''', mqtt_password = '''', keepalive = 30 * second,
        connect_timeout = 10 * second, max_reconnect_backoff = 30 * second,
        clean_session = False, protocol_version = 5\<rparr>,
      c_buffer = \<lparr>max_messages = 100000, max_bytes = 100 * 1024 * 1024,
        spill_threshold = f64_lit_08, pause_threshold = f64_lit_095\<rparr>,
      c_badger = \<lparr>badger_path = ''/var/lib/mqtt2db-go/wal'', badger_ttl = 7 * 24 * (3600 * second),
        sync_writes = True, value_log_file_size = 1073741824\<rparr>,
      c_postgres = \<lparr>dsn = '''', max_conns = 10, min_conns = 2, conn_max_lifetime = 3600 * second,
        pg_schema = ''public'', pg_table = ''telemetry'',
        pg_columns = [''tenant_id'', ''device_uuid'', ''topic'', ''payload'', ''received_at'',
          ''dedup_key'']\<rparr>,
      c_flusher = \<lparr>batch_size = 1000, flush_interval = 100 * millisecond,
        elevated_latency_threshold = 500 * millisecond, elevated_batch_size = 5000,
        elevated_flush_interval = 500 * millisecond, critical_latency_threshold = 2 * second,
        recovery_window = 60 * second, max_retries = 5, workers = 1\<rparr>,
      c_dead_letter = \<lparr>s3_bucket = '''', s3_region = ''us-east-1'', s3_endpoint = '''',
        use_path_style = False, use_ssl = True, access_key = '''', secret_key = ''''\<rparr>,
      c_metrics = \<lparr>metrics_listen = '':9090'', metrics_path = ''/metrics''\<rparr>,
      c_health = \<lparr>health_listen = '':8080'', liveness_path = ''/healthz'',
        readiness_path = ''/readyz''\<rparr>,
      c_logging = \<lparr>log_level = ''info'', log_format = ''json'', log_payloads = False\<rparr>\<rparr>"

subsection \<open>Validate\<close>

text \<open>
  \<open>errs = append(errs, e)\<close> under a condition is \<open>add_if c e\<close>. Two loops range over a map literal, in
  an order Go leaves open: \<open>iter\<close> is the order, applied to the entries as the literal lists them.
  The result is the list errors.Join receives; the error is nil exactly when it is empty.
\<close>

type_synonym config_error = string

definition add_if :: "bool \<Rightarrow> config_error \<Rightarrow> config_error list" where
  "add_if c e = (if c then [e] else [])"

type_synonym dur_iter = "(string \<times> duration) list \<Rightarrow> (string \<times> duration) list"

definition positive_durations :: "dur_iter \<Rightarrow> (string \<times> duration) list \<Rightarrow> config_error list" where
  "positive_durations iter ds =
     concat (map (\<lambda>(n, d). add_if (d \<le> 0) (n @ '': must be > 0'')) (iter ds))"

definition validate_mqtt :: "(string \<Rightarrow> bool) \<Rightarrow> dur_iter \<Rightarrow> mqtt_config \<Rightarrow> config_error list" where
  "validate_mqtt url_ok iter m =
     add_if (brokers m = []) ''mqtt.brokers: at least one broker URL required''
     @ concat (map (\<lambda>b. add_if (\<not> url_ok b \<or> b = '''') ''mqtt.brokers[%d]: invalid URL %q'') (brokers m))
     @ (if shared_subscription m = '''' then [''mqtt.shared_subscription: required'']
        else add_if (\<not> has_prefix (shared_subscription m) ''$share/'')
          ''mqtt.shared_subscription: must start with $share/, got %q'')
     @ add_if (client_id_prefix m = '''') ''mqtt.client_id_prefix: required''
     @ add_if (protocol_version m \<noteq> 3 \<and> protocol_version m \<noteq> 5)
         ''mqtt.protocol_version: must be 3 or 5, got %d''
     @ positive_durations iter
         [(''mqtt.keepalive'', keepalive m), (''mqtt.connect_timeout'', connect_timeout m),
          (''mqtt.max_reconnect_backoff'', max_reconnect_backoff m)]"

definition validate_buffer :: "buffer_config \<Rightarrow> config_error list" where
  "validate_buffer b =
     add_if (max_messages b \<le> 0) ''buffer.max_messages: must be > 0''
     @ add_if (max_bytes b \<le> 0) ''buffer.max_bytes: must be > 0''
     @ add_if (f64_le (spill_threshold b) f64_zero \<or> f64_le f64_one (spill_threshold b))
         ''buffer.spill_threshold: must be in (0, 1), got %v''
     @ add_if (f64_le (pause_threshold b) f64_zero \<or> f64_le f64_one (pause_threshold b))
         ''buffer.pause_threshold: must be in (0, 1), got %v''
     @ add_if (f64_le (pause_threshold b) (spill_threshold b))
         ''buffer.spill_threshold (%v) must be < buffer.pause_threshold (%v)''"

definition validate_badger :: "badger_config \<Rightarrow> config_error list" where
  "validate_badger b =
     add_if (badger_path b = '''') ''badger.path: required''
     @ add_if (badger_ttl b \<le> 0) ''badger.ttl: must be > 0''
     @ add_if (value_log_file_size b \<le> 0) ''badger.value_log_file_size: must be > 0''"

definition validate_postgres :: "postgres_config \<Rightarrow> config_error list" where
  "validate_postgres p =
     add_if (dsn p = '''') ''postgres.dsn: required''
     @ add_if (max_conns p \<le> 0) ''postgres.max_conns: must be > 0''
     @ add_if (min_conns p < 0 \<or> max_conns p < min_conns p)
         ''postgres.min_conns: must be in [0, max_conns], got %d''
     @ add_if (pg_schema p = '''') ''postgres.schema: required''
     @ add_if (pg_table p = '''') ''postgres.table: required''
     @ add_if (pg_columns p = []) ''postgres.columns: at least one column required''"

definition validate_flusher :: "dur_iter \<Rightarrow> flusher_config \<Rightarrow> config_error list" where
  "validate_flusher iter f =
     add_if (batch_size f \<le> 0) ''flusher.batch_size: must be > 0''
     @ add_if (elevated_batch_size f < batch_size f)
         ''flusher.elevated_batch_size (%d) must be >= batch_size (%d)''
     @ add_if (max_retries f < 0) ''flusher.max_retries: must be >= 0''
     @ positive_durations iter
         [(''flusher.flush_interval'', flush_interval f),
          (''flusher.elevated_flush_interval'', elevated_flush_interval f),
          (''flusher.elevated_latency_threshold'', elevated_latency_threshold f),
          (''flusher.critical_latency_threshold'', critical_latency_threshold f),
          (''flusher.recovery_window'', recovery_window f)]
     @ add_if (critical_latency_threshold f \<le> elevated_latency_threshold f)
         ''flusher.elevated_latency_threshold (%v) must be < critical_latency_threshold (%v)''"

definition validate_dead_letter :: "(string \<Rightarrow> bool) \<Rightarrow> s3_config \<Rightarrow> config_error list" where
  "validate_dead_letter url_ok s =
     add_if (s3_bucket s = '''') ''dead_letter.s3.bucket: required''
     @ add_if (s3_region s = '''') ''dead_letter.s3.region: required''
     @ add_if (s3_endpoint s \<noteq> '''' \<and> \<not> url_ok (s3_endpoint s)) ''dead_letter.s3.endpoint: %w''"

definition validate_logging :: "logging_config \<Rightarrow> config_error list" where
  "validate_logging l =
     add_if (to_lower (log_level l) \<notin> {''debug'', ''info'', ''warn'', ''error''})
       ''logging.level: must be debug|info|warn|error, got %q''
     @ add_if (to_lower (log_format l) \<notin> {''json'', ''text''})
         ''logging.format: must be json|text, got %q''"

definition validate :: "(string \<Rightarrow> bool) \<Rightarrow> dur_iter \<Rightarrow> config \<Rightarrow> config_error list" where
  "validate url_ok iter c =
     validate_mqtt url_ok iter (c_mqtt c)
     @ validate_buffer (c_buffer c)
     @ validate_badger (c_badger c)
     @ validate_postgres (c_postgres c)
     @ validate_flusher iter (c_flusher c)
     @ validate_dead_letter url_ok (c_dead_letter c)
     @ validate_logging (c_logging c)"

subsection \<open>Load and Duration\<close>

text \<open>
  Later sources win: the defaults, then the file (if the path is not empty), then the environment.
  \<open>read_file\<close>, \<open>decode_yaml\<close> (strict, over the current document) and \<open>parse_env\<close> are the calls into
  os, yaml.v3 and caarlos0/env.
\<close>

definition load ::
  "(string \<Rightarrow> go_error + string) \<Rightarrow> (string \<Rightarrow> config \<Rightarrow> go_error + config)
   \<Rightarrow> (config \<Rightarrow> go_error + config) \<Rightarrow> (string \<Rightarrow> bool) \<Rightarrow> dur_iter
   \<Rightarrow> string \<Rightarrow> go_error + config" where
  "load read_file decode_yaml parse_env url_ok iter path =
     (case (if path = '''' then Inr new_default
            else (case read_file path of
                Inl e \<Rightarrow> Inl (Wrapped ''read config'' e)
              | Inr raw \<Rightarrow>
                  (case decode_yaml raw new_default of
                     Inl e \<Rightarrow> Inl (Wrapped ''parse config'' e)
                   | Inr c \<Rightarrow> Inr c))) of
        Inl e \<Rightarrow> Inl e
      | Inr c \<Rightarrow>
          (case parse_env c of
             Inl e \<Rightarrow> Inl (Wrapped ''apply env overrides'' e)
           | Inr c' \<Rightarrow>
               (if validate url_ok iter c' = [] then Inr c'
                else Inl (Wrapped ''invalid config''
                  (ErrText (join_with (CHR 0x0A) (validate url_ok iter c')))))))"

datatype yaml_node = ScalarNode string | OtherNode

definition unmarshal_duration :: "(string \<Rightarrow> go_error + duration) \<Rightarrow> yaml_node \<Rightarrow> go_error + duration" where
  "unmarshal_duration parse_duration node =
     (case node of
        OtherNode \<Rightarrow> Inl (ErrText ''duration must be a scalar'')
      | ScalarNode v \<Rightarrow> if v = '''' then Inr 0 else parse_duration v)"

definition marshal_duration :: "(duration \<Rightarrow> string) \<Rightarrow> duration \<Rightarrow> string" where
  "marshal_duration duration_string d = duration_string d"

subsection \<open>internal/logging\<close>

datatype log_level = LevelDebug | LevelInfo | LevelWarn | LevelError
datatype log_handler = JSONHandler log_level | TextHandler log_level

definition parse_level :: "string \<Rightarrow> go_error + log_level" where
  "parse_level s =
     (let l = to_lower s
      in if l = ''debug'' then Inr LevelDebug
         else if l = ''info'' \<or> l = '''' then Inr LevelInfo
         else if l = ''warn'' \<or> l = ''warning'' then Inr LevelWarn
         else if l = ''error'' then Inr LevelError
         else Inl (ErrText ''unknown log level %q''))"

definition new_with_writer :: "logging_config \<Rightarrow> go_error + log_handler" where
  "new_with_writer cfg =
     (case parse_level (log_level cfg) of
        Inl e \<Rightarrow> Inl e
      | Inr level \<Rightarrow>
          (if to_lower (log_format cfg) = ''json'' then Inr (JSONHandler level)
           else if to_lower (log_format cfg) = ''text'' then Inr (TextHandler level)
           else Inl (ErrText ''unknown log format %q (want json|text)'')))"

subsection \<open>What Validate promises\<close>

text \<open>An order of iteration visits each entry of the literal once.\<close>

definition iter_ok :: "dur_iter \<Rightarrow> bool" where
  "iter_ok iter \<longleftrightarrow> (\<forall>ds. mset (iter ds) = mset ds)"

lemma iter_ok_set: "iter_ok iter \<Longrightarrow> set (iter ds) = set ds"
  unfolding iter_ok_def by (metis set_mset_mset)

lemma iter_ok_id: "iter_ok (\<lambda>ds. ds)"
  by (simp add: iter_ok_def)

lemma iter_ok_rev: "iter_ok rev"
  by (simp add: iter_ok_def)

lemma add_if_Nil [simp]: "add_if c e = [] \<longleftrightarrow> \<not> c"
  by (simp add: add_if_def)

lemma positive_durations_Nil:
  "iter_ok iter \<Longrightarrow> positive_durations iter ds = [] \<longleftrightarrow> (\<forall>(n, d) \<in> set ds. 0 < d)"
  by (auto simp: positive_durations_def iter_ok_set not_le)

lemma positive_durations_mset:
  assumes "iter_ok iter" "iter_ok iter'"
  shows "mset (positive_durations iter ds) = mset (positive_durations iter' ds)"
proof -
  have c: "mset (concat (map f xs)) = (\<Sum>x \<in># mset xs. mset (f x))" for f xs
    by (induction xs) auto
  show ?thesis using assms unfolding positive_durations_def c iter_ok_def by simp
qed

text \<open>The thresholds Validate lets through: both in (0, 1) and in order, unless one is NaN.\<close>

definition thresholds_ok :: "f64 \<Rightarrow> f64 \<Rightarrow> bool" where
  "thresholds_ok s p \<longleftrightarrow>
     \<not> (f64_le s f64_zero \<or> f64_le f64_one s) \<and> \<not> (f64_le p f64_zero \<or> f64_le f64_one p)
     \<and> \<not> f64_le p s"

lemma not_f64_le:
  assumes "x \<noteq> NaN" "y \<noteq> NaN"
  shows "\<not> f64_le x y \<longleftrightarrow> f64_less y x"
  using assms by (cases x; cases y) auto

lemma thresholds_ok_numbers:
  assumes "s \<noteq> NaN" "p \<noteq> NaN"
  shows "thresholds_ok s p \<longleftrightarrow> f64_less f64_zero s \<and> f64_less s p \<and> f64_less p f64_one"
proof -
  have "f64_less f64_zero p" if "f64_less f64_zero s" "f64_less s p"
    using that
  proof (cases s; cases p)
    fix a k b l
    assume e: "s = Fin a k" "p = Fin b l"
    with that have "0 < a * 2 ^ l" "a * 2 ^ l < b * 2 ^ k" by auto
    then have "0 < b * 2 ^ k" by (rule less_trans)
    then have "0 < b" by (simp add: zero_less_mult_iff)
    with e show ?thesis by simp
  qed auto
  moreover have "f64_less s f64_one" if "f64_less s p" "f64_less p f64_one"
    using that assms
  proof (cases s; cases p)
    fix a k b l
    assume e: "s = Fin a k" "p = Fin b l"
    with that have "a * 2 ^ l < b * 2 ^ k" "b < 2 ^ l" by auto
    then have "a * 2 ^ l < 2 ^ k * 2 ^ l" by (smt (verit) mult.commute mult_less_cancel_right zero_less_power)
    then have "a < 2 ^ k" by (simp add: mult_less_cancel_right)
    with e show ?thesis by simp
  qed auto
  ultimately show ?thesis
    using assms unfolding thresholds_ok_def by (auto simp: not_f64_le)
qed

lemma validate_buffer_Nil:
  "validate_buffer b = [] \<longleftrightarrow>
     0 < max_messages b \<and> 0 < max_bytes b \<and> thresholds_ok (spill_threshold b) (pause_threshold b)"
  by (auto simp: validate_buffer_def thresholds_ok_def not_le)

lemma validate_flusher_Nil:
  "iter_ok iter \<Longrightarrow> validate_flusher iter f = [] \<longleftrightarrow>
     0 < batch_size f \<and> batch_size f \<le> elevated_batch_size f \<and> 0 \<le> max_retries f
     \<and> 0 < flush_interval f \<and> 0 < elevated_flush_interval f \<and> 0 < recovery_window f
     \<and> 0 < elevated_latency_threshold f
     \<and> elevated_latency_threshold f < critical_latency_threshold f"
  by (auto simp: validate_flusher_def positive_durations_Nil not_le not_less)

lemma validate_Nil:
  "validate url_ok iter c = [] \<longleftrightarrow>
     validate_mqtt url_ok iter (c_mqtt c) = [] \<and> validate_buffer (c_buffer c) = []
     \<and> validate_badger (c_badger c) = [] \<and> validate_postgres (c_postgres c) = []
     \<and> validate_flusher iter (c_flusher c) = [] \<and> validate_dead_letter url_ok (c_dead_letter c) = []
     \<and> validate_logging (c_logging c) = []"
  by (simp add: validate_def)

lemma load_cases:
  assumes "load read_file decode_yaml parse_env url_ok iter path = Inr c"
  shows "validate url_ok iter c = []"
  using assms by (auto simp: load_def split: sum.splits if_splits)

lemma validate_logging_handler:
  assumes "validate_logging l = []"
  shows "\<exists>h. new_with_writer l = Inr h"
  using assms by (auto simp: validate_logging_def new_with_writer_def parse_level_def)


subsection \<open>Properties\<close>

definition demo_config :: config where
  "demo_config = new_default
     \<lparr>c_mqtt := (c_mqtt new_default)\<lparr>brokers := [''tcp://mq:1883''], shared_subscription := ''$share/g/t''\<rparr>,
      c_postgres := (c_postgres new_default)\<lparr>dsn := ''postgres://db''\<rparr>,
      c_dead_letter := (c_dead_letter new_default)\<lparr>s3_bucket := ''dlq''\<rparr>\<rparr>"

definition demo_read_file :: "string \<Rightarrow> go_error + string" where
  "demo_read_file path = (if path = ''/etc/c.yaml'' then Inr ''doc'' else Inl (ErrText ''no such file''))"

definition demo_decode :: "string \<Rightarrow> config \<Rightarrow> go_error + config" where
  "demo_decode raw c = (if raw = ''doc'' then Inr demo_config else Inl (ErrText ''bad document''))"

lemma demo_load: "load demo_read_file demo_decode Inr (\<lambda>u. True) rev ''/etc/c.yaml'' = Inr demo_config"
proof -
  have "validate (\<lambda>u. True) rev demo_config = []" by code_simp
  then show ?thesis by (simp add: load_def demo_read_file_def demo_decode_def)
qed

text \<open>The documented constraints, section by section. A threshold that is NaN satisfies every comparison
  Validate makes, so its clauses speak of numbers only.\<close>

definition mqtt_documented :: "(string \<Rightarrow> bool) \<Rightarrow> mqtt_config \<Rightarrow> bool" where
  "mqtt_documented url_ok m \<longleftrightarrow>
     brokers m \<noteq> [] \<and> list_all (\<lambda>b. b \<noteq> '''' \<and> url_ok b) (brokers m)
     \<and> has_prefix (shared_subscription m) ''$share/'' \<and> client_id_prefix m \<noteq> ''''
     \<and> protocol_version m \<in> {3, 5}
     \<and> 0 < keepalive m \<and> 0 < connect_timeout m \<and> 0 < max_reconnect_backoff m"

definition buffer_documented :: "buffer_config \<Rightarrow> bool" where
  "buffer_documented b \<longleftrightarrow>
     0 < max_messages b \<and> 0 < max_bytes b
     \<and> (spill_threshold b \<noteq> NaN \<longrightarrow> f64_less f64_zero (spill_threshold b) \<and> f64_less (spill_threshold b) f64_one)
     \<and> (pause_threshold b \<noteq> NaN \<longrightarrow> f64_less f64_zero (pause_threshold b) \<and> f64_less (pause_threshold b) f64_one)
     \<and> (spill_threshold b \<noteq> NaN \<and> pause_threshold b \<noteq> NaN \<longrightarrow> f64_less (spill_threshold b) (pause_threshold b))"

definition stores_documented :: "(string \<Rightarrow> bool) \<Rightarrow> badger_config \<Rightarrow> postgres_config \<Rightarrow> s3_config \<Rightarrow> bool" where
  "stores_documented url_ok w p d \<longleftrightarrow>
     badger_path w \<noteq> '''' \<and> 0 < badger_ttl w \<and> 0 < value_log_file_size w
     \<and> dsn p \<noteq> '''' \<and> 0 < max_conns p \<and> 0 \<le> min_conns p \<and> min_conns p \<le> max_conns p
     \<and> pg_schema p \<noteq> '''' \<and> pg_table p \<noteq> '''' \<and> pg_columns p \<noteq> []
     \<and> s3_bucket d \<noteq> '''' \<and> s3_region d \<noteq> '''' \<and> (s3_endpoint d = '''' \<or> url_ok (s3_endpoint d))"

definition flusher_documented :: "flusher_config \<Rightarrow> bool" where
  "flusher_documented f \<longleftrightarrow>
     0 < batch_size f \<and> batch_size f \<le> elevated_batch_size f \<and> 0 \<le> max_retries f
     \<and> 0 < flush_interval f \<and> 0 < elevated_flush_interval f \<and> 0 < recovery_window f
     \<and> 0 < elevated_latency_threshold f \<and> elevated_latency_threshold f < critical_latency_threshold f"

definition documented :: "(string \<Rightarrow> bool) \<Rightarrow> config \<Rightarrow> bool" where
  "documented url_ok c \<longleftrightarrow>
     mqtt_documented url_ok (c_mqtt c) \<and> buffer_documented (c_buffer c)
     \<and> stores_documented url_ok (c_badger c) (c_postgres c) (c_dead_letter c)
     \<and> flusher_documented (c_flusher c)
     \<and> to_lower (log_level (c_logging c)) \<in> {''debug'', ''info'', ''warn'', ''error''}
     \<and> to_lower (log_format (c_logging c)) \<in> {''json'', ''text''}"

lemma thresholds_documented:
  "thresholds_ok s p \<longleftrightarrow> (s \<noteq> NaN \<longrightarrow> f64_less f64_zero s \<and> f64_less s f64_one)
     \<and> (p \<noteq> NaN \<longrightarrow> f64_less f64_zero p \<and> f64_less p f64_one) \<and> (s \<noteq> NaN \<and> p \<noteq> NaN \<longrightarrow> f64_less s p)"
proof -
  have n: "f64_zero \<noteq> NaN" "f64_one \<noteq> NaN" by simp_all
  have nan: "\<not> f64_le NaN x" "\<not> f64_le x NaN" for x by (cases x; simp)+
  show ?thesis
    unfolding thresholds_ok_def
    using not_f64_le [of s f64_zero] not_f64_le [of f64_one s] not_f64_le [of p f64_zero] not_f64_le [of f64_one p]
      not_f64_le [of p s] n nan by metis
qed

lemma validate_mqtt_Nil:
  assumes "iter_ok iter"
  shows "validate_mqtt url_ok iter m = [] \<longleftrightarrow> mqtt_documented url_ok m"
  using assms by (auto simp: validate_mqtt_def mqtt_documented_def positive_durations_Nil list_all_iff has_prefix_def)

lemma validate_documented:
  assumes "iter_ok iter"
  shows "validate url_ok iter c = [] \<longleftrightarrow> documented url_ok c"
proof -
  have stores: "validate_badger w = [] \<and> validate_postgres p = [] \<and> validate_dead_letter url_ok d = []
      \<longleftrightarrow> stores_documented url_ok w p d" for w p d
    by (auto simp: validate_badger_def validate_postgres_def validate_dead_letter_def stores_documented_def not_le)
  have "validate_logging l = [] \<longleftrightarrow> to_lower (log_level l) \<in> {''debug'', ''info'', ''warn'', ''error''}
      \<and> to_lower (log_format l) \<in> {''json'', ''text''}" for l
    by (simp add: validate_logging_def)
  moreover have "validate_buffer b = [] \<longleftrightarrow> buffer_documented b" for b
    by (simp add: validate_buffer_Nil thresholds_documented buffer_documented_def)
  moreover have "validate_flusher iter f = [] \<longleftrightarrow> flusher_documented f" for f
    using assms by (simp add: validate_flusher_Nil flusher_documented_def)
  ultimately show ?thesis
    unfolding validate_Nil documented_def stores [symmetric] validate_mqtt_Nil [OF assms] by blast
qed

text \<open>C29: what a loaded configuration is good for. In whatever order Validate ranges over its maps, it passes
  exactly the configurations that satisfy every documented constraint (\<open>documented\<close>: brokers, shared
  subscription, client id prefix, protocol version, keepalive and timeouts; the caps and 0 < spill < pause < 1,
  each where the threshold is not NaN; WAL path, TTL and value log size; DSN, connection counts, schema, table and
  columns; batch sizes, retries, intervals and latency thresholds; bucket, region and endpoint; level and format).
  So whatever the file and the environment hold, a configuration Load returns satisfies them all, and the
  logger can be built from it.\<close>
theorem load_validated:
  assumes "iter_ok iter" "load read_file decode_yaml parse_env url_ok iter path = Inr c"
  shows "documented url_ok c \<and> (\<exists>h. new_with_writer (c_logging c) = Inr h)
    \<and> (\<forall>d. validate url_ok iter d = [] \<longleftrightarrow> documented url_ok d)"
proof -
  have v: "validate url_ok iter c = []" by (rule load_cases [OF assms(2)])
  then have "validate_logging (c_logging c) = []" by (simp add: validate_Nil)
  from validate_logging_handler [OF this] v show ?thesis by (simp add: validate_documented [OF assms(1)])
qed

lemma load_validated_witness:
  "documented (\<lambda>u. True) demo_config \<and> max_retries (c_flusher demo_config) = 5
     \<and> f64_less (spill_threshold (c_buffer demo_config)) (pause_threshold (c_buffer demo_config))"
proof -
  have "spill_threshold (c_buffer demo_config) \<noteq> NaN" "pause_threshold (c_buffer demo_config) \<noteq> NaN"
    "max_retries (c_flusher demo_config) = 5"
    by code_simp+
  then show ?thesis using load_validated [OF iter_ok_rev demo_load] by (simp add: documented_def buffer_documented_def)
qed

text \<open>What the defaults leave to the operator. On the default configuration Validate reports exactly
  four problems, the missing brokers, shared subscription, DSN and bucket, in every iteration order.\<close>
lemma default_problems:
  assumes "iter_ok iter"
  shows "validate url_ok iter new_default =
    [''mqtt.brokers: at least one broker URL required'', ''mqtt.shared_subscription: required'',
     ''postgres.dsn: required'', ''dead_letter.s3.bucket: required'']"
proof -
  have "validate_mqtt url_ok iter (c_mqtt new_default)
      = [''mqtt.brokers: at least one broker URL required'', ''mqtt.shared_subscription: required'']"
    using assms by (simp add: validate_mqtt_def new_default_def add_if_def positive_durations_Nil)
  moreover have "validate_flusher iter (c_flusher new_default) = []"
    using assms by (simp add: validate_flusher_Nil) (simp add: new_default_def)
  moreover have "validate_dead_letter url_ok (c_dead_letter new_default) = [''dead_letter.s3.bucket: required'']"
    by (simp add: validate_dead_letter_def new_default_def add_if_def)
  moreover have "validate_buffer (c_buffer new_default) = []" "validate_badger (c_badger new_default) = []"
    "validate_postgres (c_postgres new_default) = [''postgres.dsn: required'']"
    "validate_logging (c_logging new_default) = []"
    by code_simp+
  ultimately show ?thesis by (simp only: validate_def) simp
qed

lemma default_problems_witness: "length (validate (\<lambda>u. False) rev new_default) = 4"
  using default_problems [OF iter_ok_rev, of "\<lambda>u. False"] by simp

end
