(* ===== verification/Postgres.thy ===== *)
theory Postgres
  imports Config
begin

text \<open>
  internal/postgres: the Message row, identifier quoting, the pool configuration, CopyMessages and
  InsertUnparseable with the SQL text they send, and the migration wrappers. The pgx pool and its
  transactions are the record \<open>pg_pool\<close> of operations on an outside world \<open>'w\<close>; golang-migrate is
  the record \<open>migrator\<close>. A deferred Rollback is run on every path after BeginTx.
\<close>

subsection \<open>Messages and rows\<close>

record message =
  tenant_id :: string
  device_uuid :: uuid
  topic :: string
  payload :: bytes
  received_at :: time
  dedup_key :: string

definition zero_message :: message where
  "zero_message = \<lparr>tenant_id = '''', device_uuid = replicate 16 0, topic = '''', payload = None,
     received_at = zero_time, dedup_key = ''''\<rparr>"

datatype sql_value = SqlText string | SqlUuid uuid | SqlBytes bytes | SqlTime time | SqlNil

type_synonym sql_row = "sql_value list"

definition copy_row :: "message \<Rightarrow> sql_row" where
  "copy_row m = [SqlText (tenant_id m), SqlUuid (device_uuid m), SqlText (topic m),
     SqlBytes (payload m), SqlTime (received_at m), SqlText (dedup_key m)]"

lemma copy_row_inj: "copy_row m = copy_row n \<longleftrightarrow> m = n"
  by (cases m; cases n) (simp add: copy_row_def)

definition canonical_columns :: "string list" where
  "canonical_columns =
     [''tenant_id'', ''device_uuid'', ''topic'', ''payload'', ''received_at'', ''dedup_key'']"

fun columns_loop :: "string list \<Rightarrow> string list \<Rightarrow> bool" where
  "columns_loop (c # cols) (k # ks) = (if c \<noteq> k then False else columns_loop cols ks)"
| "columns_loop _ _ = True"

definition columns_match_message :: "string list \<Rightarrow> bool" where
  "columns_match_message cols =
     (if length cols \<noteq> length canonical_columns then False
      else columns_loop cols canonical_columns)"

lemma columns_loop_eq: "length cs = length ks \<Longrightarrow> columns_loop cs ks \<longleftrightarrow> cs = ks"
  by (induction cs ks rule: columns_loop.induct) auto

lemma columns_match_message_iff: "columns_match_message cols \<longleftrightarrow> cols = canonical_columns"
  by (auto simp: columns_match_message_def columns_loop_eq)

subsection \<open>Identifier quoting\<close>

fun quote_chars :: "string \<Rightarrow> string" where
  "quote_chars [] = []"
| "quote_chars (c # cs) =
     (if c = CHR 0x22 then CHR 0x22 # CHR 0x22 # quote_chars cs else c # quote_chars cs)"

definition quote_ident :: "string \<Rightarrow> string" where
  "quote_ident s = CHR 0x22 # quote_chars s @ [CHR 0x22]"

definition join_idents :: "string list \<Rightarrow> string" where
  "join_idents cols =
     (case cols of [] \<Rightarrow> ''''
      | c # cs \<Rightarrow> foldl (\<lambda>out d. out @ '', '' @ quote_ident d) (quote_ident c) cs)"

text \<open>
  How a SQL lexer reads a delimited identifier: up to the first quote that is not doubled.
\<close>

fun scan_body :: "string \<Rightarrow> (string \<times> string) option" where
  "scan_body [] = None"
| "scan_body (c # cs) =
     (if c = CHR 0x22 then
        (case cs of
           d # ds \<Rightarrow> if d = CHR 0x22 then map_option (\<lambda>(s, r). (CHR 0x22 # s, r)) (scan_body ds)
                     else Some ([], cs)
         | [] \<Rightarrow> Some ([], []))
      else map_option (\<lambda>(s, r). (c # s, r)) (scan_body cs))"

definition scan_ident :: "string \<Rightarrow> (string \<times> string) option" where
  "scan_ident s = (case s of [] \<Rightarrow> None | c # cs \<Rightarrow> if c = CHR 0x22 then scan_body cs else None)"

definition no_quote_hd :: "string \<Rightarrow> bool" where
  "no_quote_hd s \<longleftrightarrow> (case s of [] \<Rightarrow> True | c # _ \<Rightarrow> c \<noteq> CHR 0x22)"

lemma scan_body_quote_chars:
  "no_quote_hd r \<Longrightarrow> scan_body (quote_chars s @ CHR 0x22 # r) = Some (s, r)"
  by (induction s) (auto simp: no_quote_hd_def split: list.splits)

lemma scan_quote_ident: "no_quote_hd r \<Longrightarrow> scan_ident (quote_ident s @ r) = Some (s, r)"
  by (simp add: scan_ident_def quote_ident_def scan_body_quote_chars)

fun scan_idents :: "nat \<Rightarrow> string \<Rightarrow> (string list \<times> string) option" where
  \<comment> \<open>\<open>n\<close> identifiers separated by a comma and a space\<close>
  "scan_idents 0 s = Some ([], s)"
| "scan_idents (Suc 0) s = map_option (\<lambda>(i, r). ([i], r)) (scan_ident s)"
| "scan_idents (Suc n) s =
     (case scan_ident s of
        Some (i, CHR '','' # CHR '' '' # r) \<Rightarrow> map_option (\<lambda>(is, r'). (i # is, r')) (scan_idents n r)
      | _ \<Rightarrow> None)"

lemma join_idents_foldl:
  "foldl (\<lambda>out d. out @ '', '' @ quote_ident d) acc cs = acc @ concat (map (\<lambda>d. '', '' @ quote_ident d) cs)"
  by (induction cs arbitrary: acc) auto

lemma join_idents_Cons:
  "join_idents (c # cs) = quote_ident c @ concat (map (\<lambda>d. '', '' @ quote_ident d) cs)"
  by (simp only: join_idents_def list.case join_idents_foldl)

lemma scan_join_idents:
  "cols \<noteq> [] \<Longrightarrow> no_quote_hd r \<Longrightarrow> scan_idents (length cols) (join_idents cols @ r) = Some (cols, r)"
proof (induction cols)
  case (Cons c cs)
  show ?case
  proof (cases cs)
    case Nil
    then show ?thesis using Cons.prems by (simp add: join_idents_Cons scan_quote_ident)
  next
    case (Cons d ds)
    have "scan_ident (quote_ident c @ '', '' @ join_idents (d # ds) @ r)
        = Some (c, '', '' @ join_idents (d # ds) @ r)"
      by (rule scan_quote_ident) (simp add: no_quote_hd_def)
    moreover have "join_idents (c # cs) @ r = quote_ident c @ '', '' @ join_idents (d # ds) @ r"
      by (simp add: Cons join_idents_Cons)
    ultimately show ?thesis using Cons.IH Cons.prems Cons by simp
  qed
qed simp

subsection \<open>The pool\<close>

definition staging_table_name :: string where "staging_table_name = ''mqtt2db_staging''"

record pool_settings =
  ps_max_conns :: int
  ps_min_conns :: int
  ps_max_lifetime :: duration

definition nl :: string where "nl = [CHR 0x0A]"
definition tab2 :: string where "tab2 = [CHR 0x09, CHR 0x09]"

definition staging_ddl :: string where
  \<comment> \<open>what AfterConnect runs on each new connection, up to the white space inside the lines\<close>
  "staging_ddl =
     nl @ ''CREATE TEMP TABLE IF NOT EXISTS '' @ staging_table_name @ '' (''
     @ nl @ ''tenant_id TEXT NOT NULL,'' @ nl @ ''device_uuid UUID NOT NULL,''
     @ nl @ ''topic TEXT NOT NULL,'' @ nl @ ''payload BYTEA NOT NULL,''
     @ nl @ ''received_at TIMESTAMPTZ NOT NULL,'' @ nl @ ''dedup_key TEXT NOT NULL''
     @ nl @ '') ON COMMIT DELETE ROWS''"

definition new_pool ::
  "(string \<Rightarrow> go_error + pool_settings) \<Rightarrow> (pool_settings \<Rightarrow> string \<Rightarrow> go_error + 'p)
   \<Rightarrow> postgres_config \<Rightarrow> go_error + 'p" where
  "new_pool parse_config connect cfg =
     (if dsn cfg = '''' then Inl (ErrText ''postgres: dsn required'')
      else (case parse_config (dsn cfg) of
          Inl e \<Rightarrow> Inl (Wrapped ''parse dsn'' e)
        | Inr p0 \<Rightarrow>
            let p1 = (if max_conns cfg > 0 then p0\<lparr>ps_max_conns := max_conns cfg\<rparr> else p0);
                p2 = (if min_conns cfg \<ge> 0 then p1\<lparr>ps_min_conns := min_conns cfg\<rparr> else p1);
                p3 = (if conn_max_lifetime cfg > 0
                      then p2\<lparr>ps_max_lifetime := conn_max_lifetime cfg\<rparr> else p2)
            in (case connect p3 staging_ddl of
                  Inl e \<Rightarrow> Inl (Wrapped ''create pool'' e)
                | Inr pool \<Rightarrow> Inr pool)))"

record ('w, 'tx) pg_pool =
  begin_tx :: "'w \<Rightarrow> (go_error + 'tx) \<times> 'w"
  tx_rollback :: "'tx \<Rightarrow> 'w \<Rightarrow> 'w"
  tx_copy_from :: "'tx \<Rightarrow> string \<Rightarrow> string list \<Rightarrow> sql_row list \<Rightarrow> 'w \<Rightarrow> (go_error + int) \<times> 'w"
  tx_exec :: "'tx \<Rightarrow> string \<Rightarrow> 'w \<Rightarrow> (go_error + int) \<times> 'w"
  tx_commit :: "'tx \<Rightarrow> 'w \<Rightarrow> go_error option \<times> 'w"
  pool_exec :: "string \<Rightarrow> sql_row \<Rightarrow> 'w \<Rightarrow> go_error option \<times> 'w"

subsection \<open>CopyMessages\<close>

record copier =
  cp_schema :: string
  cp_table :: string
  cp_columns :: "string list"

definition new_copier :: "'p option \<Rightarrow> postgres_config \<Rightarrow> go_error + copier" where
  "new_copier pool cfg =
     (if pool = None then Inl (ErrText ''postgres: nil pool'')
      else if pg_schema cfg = '''' \<or> pg_table cfg = ''''
        then Inl (ErrText ''postgres: schema and table required'')
      else if \<not> columns_match_message (pg_columns cfg)
        then Inl (ErrText ''postgres: columns %v do not match Message field order %v'')
      else Inr \<lparr>cp_schema = pg_schema cfg, cp_table = pg_table cfg, cp_columns = pg_columns cfg\<rparr>)"

definition insert_sql :: "copier \<Rightarrow> string" where
  "insert_sql c =
     nl @ tab2 @ ''INSERT INTO '' @ quote_ident (cp_schema c) @ ''.'' @ quote_ident (cp_table c)
     @ '' ('' @ join_idents (cp_columns c) @ '')''
     @ nl @ tab2 @ ''SELECT '' @ join_idents (cp_columns c) @ '' FROM '' @ staging_table_name
     @ nl @ tab2 @ ''ON CONFLICT (dedup_key) DO NOTHING''"

definition copy_in_tx ::
  "copier \<Rightarrow> ('w, 'tx) pg_pool \<Rightarrow> 'tx \<Rightarrow> message list \<Rightarrow> 'w \<Rightarrow> (go_error + int) \<times> 'w" where
  \<comment> \<open>the body of CopyMessages after BeginTx, before the deferred Rollback\<close>
  "copy_in_tx c p tx msgs w =
     (case tx_copy_from p tx staging_table_name (cp_columns c) (map copy_row msgs) w of
        (Inl e, w1) \<Rightarrow> (Inl (Wrapped ''copy to staging'' e), w1)
      | (Inr copied, w1) \<Rightarrow>
          if copied \<noteq> int (length msgs)
          then (Inl (ErrText ''copy row count mismatch: copied=%d wanted=%d''), w1)
          else (case tx_exec p tx (insert_sql c) w1 of
              (Inl e, w2) \<Rightarrow> (Inl (Wrapped ''insert from staging'' e), w2)
            | (Inr affected, w2) \<Rightarrow>
                (case tx_commit p tx w2 of
                   (Some e, w3) \<Rightarrow> (Inl (Wrapped ''commit'' e), w3)
                 | (None, w3) \<Rightarrow> (Inr affected, w3))))"

definition copy_messages ::
  "copier \<Rightarrow> ('w, 'tx) pg_pool \<Rightarrow> message list \<Rightarrow> 'w \<Rightarrow> (go_error + int) \<times> 'w" where
  "copy_messages c p msgs w =
     (if msgs = [] then (Inr 0, w)
      else (case begin_tx p w of
          (Inl e, w1) \<Rightarrow> (Inl (Wrapped ''begin tx'' e), w1)
        | (Inr tx, w1) \<Rightarrow>
            (case copy_in_tx c p tx msgs w1 of (r, w2) \<Rightarrow> (r, tx_rollback p tx w2))))"

subsection \<open>InsertUnparseable\<close>

record unparseable =
  u_topic :: string
  u_payload :: bytes
  u_error_class :: string
  u_error_detail :: string
  u_received_at :: time

definition max_error_detail_len :: nat where "max_error_detail_len = 256"
definition unparseable_table_name :: string where
  "unparseable_table_name = ''telemetry_unparseable''"

record unparseable_writer =
  uw_schema :: string
  uw_table :: string

definition new_unparseable_writer :: "'p option \<Rightarrow> postgres_config \<Rightarrow> go_error + unparseable_writer" where
  "new_unparseable_writer pool cfg =
     (if pool = None then Inl (ErrText ''postgres: nil pool'')
      else if pg_schema cfg = '''' then Inl (ErrText ''postgres: schema required'')
      else Inr \<lparr>uw_schema = pg_schema cfg, uw_table = unparseable_table_name\<rparr>)"

definition unparseable_sql :: "unparseable_writer \<Rightarrow> string" where
  "unparseable_sql u =
     nl @ tab2 @ ''INSERT INTO '' @ quote_ident (uw_schema u) @ ''.'' @ quote_ident (uw_table u)
     @ '' (topic, payload, error_class, error_detail, received_at)''
     @ nl @ tab2 @ ''VALUES ($1, $2, $3, $4, $5)''"

definition insert_unparseable ::
  "unparseable_writer \<Rightarrow> ('w, 'tx) pg_pool \<Rightarrow> unparseable \<Rightarrow> 'w \<Rightarrow> go_error option \<times> 'w" where
  "insert_unparseable u p row w =
     (if u_topic row = '''' then (Some (ErrText ''unparseable: topic required''), w)
      else if u_error_class row = '''' then (Some (ErrText ''unparseable: error_class required''), w)
      else if u_received_at row = zero_time
        then (Some (ErrText ''unparseable: received_at required''), w)
      else
        let detail = (if length (u_error_detail row) > max_error_detail_len
                      then take max_error_detail_len (u_error_detail row) else u_error_detail row);
            detail_arg = (if detail = '''' then SqlNil else SqlText detail)
        in (case pool_exec p (unparseable_sql u)
               [SqlText (u_topic row), SqlBytes (u_payload row), SqlText (u_error_class row),
                detail_arg, SqlTime (u_received_at row)] w of
              (Some e, w') \<Rightarrow> (Some (Wrapped ''insert unparseable'' e), w')
            | (None, w') \<Rightarrow> (None, w')))"

subsection \<open>Migrations\<close>

record ('w, 'm) migrator =
  mig_new :: "string \<Rightarrow> string \<Rightarrow> 'w \<Rightarrow> (go_error + 'm) \<times> 'w"
  mig_close :: "'m \<Rightarrow> 'w \<Rightarrow> 'w"
  mig_up :: "'m \<Rightarrow> 'w \<Rightarrow> go_error option \<times> 'w"
  mig_down :: "'m \<Rightarrow> 'w \<Rightarrow> go_error option \<times> 'w"
  mig_steps :: "'m \<Rightarrow> int \<Rightarrow> 'w \<Rightarrow> go_error option \<times> 'w"
  mig_version :: "'m \<Rightarrow> 'w \<Rightarrow> (go_error + nat \<times> bool) \<times> 'w"
  is_no_change :: "go_error \<Rightarrow> bool"
  is_nil_version :: "go_error \<Rightarrow> bool"

definition fenced :: "('w, 'm) migrator \<Rightarrow> string \<Rightarrow> go_error option \<Rightarrow> go_error option" where
  \<comment> \<open>\<open>err != nil && !errors.Is(err, ErrNoChange)\<close>, wrapped under a prefix\<close>
  "fenced g prefix r = (case r of None \<Rightarrow> None
     | Some e \<Rightarrow> if is_no_change g e then None else Some (Wrapped prefix e))"

definition migrate_up :: "('w, 'm) migrator \<Rightarrow> string \<Rightarrow> string \<Rightarrow> 'w \<Rightarrow> go_error option \<times> 'w" where
  "migrate_up g source url w =
     (case mig_new g source url w of
        (Inl e, w1) \<Rightarrow> (Some (Wrapped ''open migrator'' e), w1)
      | (Inr m, w1) \<Rightarrow>
          (case mig_up g m w1 of (r, w2) \<Rightarrow> (fenced g ''migrate up'' r, mig_close g m w2)))"

definition migrate_down ::
  "('w, 'm) migrator \<Rightarrow> string \<Rightarrow> string \<Rightarrow> int \<Rightarrow> 'w \<Rightarrow> go_error option \<times> 'w" where
  "migrate_down g source url steps w =
     (case mig_new g source url w of
        (Inl e, w1) \<Rightarrow> (Some (Wrapped ''open migrator'' e), w1)
      | (Inr m, w1) \<Rightarrow>
          if steps = 0
          then (case mig_down g m w1 of (r, w2) \<Rightarrow> (fenced g ''migrate down'' r, mig_close g m w2))
          else (case mig_steps g m (- steps) w1 of
              (r, w2) \<Rightarrow> (fenced g ''migrate steps -%d'' r, mig_close g m w2)))"

definition schema_version ::
  "('w, 'm) migrator \<Rightarrow> string \<Rightarrow> string \<Rightarrow> 'w \<Rightarrow> (go_error + nat \<times> bool) \<times> 'w" where
  "schema_version g source url w =
     (case mig_new g source url w of
        (Inl e, w1) \<Rightarrow> (Inl (Wrapped ''open migrator'' e), w1)
      | (Inr m, w1) \<Rightarrow>
          (case mig_version g m w1 of
             (Inl e, w2) \<Rightarrow>
               (if is_nil_version g e then Inr (0, False) else Inl (Wrapped ''read version'' e),
                mig_close g m w2)
           | (Inr v, w2) \<Rightarrow> (Inr v, mig_close g m w2)))"


subsection \<open>What the database promises\<close>

text \<open>
  The documented behaviour of PostgreSQL and pgx that CopyMessages relies on, for calls that do not
  overlap. \<open>pv_rows\<close> reads the committed rows of the target table off the world, \<open>pv_staged\<close> and
  \<open>pv_pending\<close> what the open transaction has staged and inserted. COPY appends its rows to the staging
  table and reports their number, or fails with some error; what it has staged satisfies the constraint of
  the staging table's payload column, which is NOT NULL (\<open>staging_ddl\<close>). INSERT ... ON CONFLICT (dedup_key) DO NOTHING inserts the staged rows whose key is
  in neither the table nor an earlier staged row. A commit that reports no error makes the inserted rows
  visible; one that reports an error may or may not have been carried out.
\<close>

definition row_key :: "sql_row \<Rightarrow> sql_value" where "row_key r = r ! 5"

fun new_rows :: "sql_row list \<Rightarrow> sql_row list \<Rightarrow> sql_row list" where
  "new_rows table [] = []"
| "new_rows table (r # rs) =
     (if row_key r \<in> row_key ` set table then new_rows table rs
      else r # new_rows (table @ [r]) rs)"

record ('w, 'tx) pg_view =
  pv_rows :: "'w \<Rightarrow> sql_row list"
  pv_staged :: "'tx \<Rightarrow> 'w \<Rightarrow> sql_row list"
  pv_pending :: "'tx \<Rightarrow> 'w \<Rightarrow> sql_row list"

definition null_payload :: "sql_row \<Rightarrow> bool" where "null_payload r \<longleftrightarrow> r ! 3 = SqlBytes None"

definition begin_law :: "('w, 'tx) pg_pool \<Rightarrow> ('w, 'tx) pg_view \<Rightarrow> bool" where
  "begin_law p v \<longleftrightarrow>
     (\<forall>w r w'. begin_tx p w = (r, w') \<longrightarrow> pv_rows v w' = pv_rows v w
        \<and> (\<forall>tx. r = Inr tx \<longrightarrow> pv_staged v tx w' = [] \<and> pv_pending v tx w' = []))"

definition copy_law :: "('w, 'tx) pg_pool \<Rightarrow> ('w, 'tx) pg_view \<Rightarrow> bool" where
  "copy_law p v \<longleftrightarrow>
     (\<forall>tx rs w r w'. tx_copy_from p tx staging_table_name canonical_columns rs w = (r, w') \<longrightarrow>
        pv_rows v w' = pv_rows v w
        \<and> (\<forall>n. r = Inr n \<longrightarrow> n = int (length rs) \<and> pv_staged v tx w' = pv_staged v tx w @ rs
             \<and> pv_pending v tx w' = pv_pending v tx w \<and> \<not> list_ex null_payload rs))"

definition insert_law :: "copier \<Rightarrow> ('w, 'tx) pg_pool \<Rightarrow> ('w, 'tx) pg_view \<Rightarrow> bool" where
  "insert_law c p v \<longleftrightarrow>
     (\<forall>tx w r w'. tx_exec p tx (insert_sql c) w = (r, w') \<longrightarrow> pv_rows v w' = pv_rows v w
        \<and> (\<forall>n. r = Inr n \<longrightarrow>
             pv_pending v tx w' = pv_pending v tx w
               @ new_rows (pv_rows v w @ pv_pending v tx w) (pv_staged v tx w)
             \<and> n = int (length (new_rows (pv_rows v w @ pv_pending v tx w) (pv_staged v tx w)))))"

definition commit_law :: "('w, 'tx) pg_pool \<Rightarrow> ('w, 'tx) pg_view \<Rightarrow> bool" where
  "commit_law p v \<longleftrightarrow>
     (\<forall>tx w r w'. tx_commit p tx w = (r, w') \<longrightarrow>
        (r = None \<longrightarrow> pv_rows v w' = pv_rows v w @ pv_pending v tx w)
        \<and> (r \<noteq> None \<longrightarrow> pv_rows v w' = pv_rows v w
             \<or> pv_rows v w' = pv_rows v w @ pv_pending v tx w))
     \<and> (\<forall>tx w. pv_rows v (tx_rollback p tx w) = pv_rows v w)"

definition pg_contract :: "copier \<Rightarrow> ('w, 'tx) pg_pool \<Rightarrow> ('w, 'tx) pg_view \<Rightarrow> bool" where
  "pg_contract c p v \<longleftrightarrow>
     cp_columns c = canonical_columns \<and> begin_law p v \<and> copy_law p v \<and> insert_law c p v \<and> commit_law p v"

lemma new_rows_sub: "set (new_rows table rs) \<subseteq> set rs"
  by (induction table rs rule: new_rows.induct) auto

lemma new_rows_keys:
  "row_key ` set (table @ new_rows table rs) = row_key ` set table \<union> row_key ` set rs"
  by (induction table rs rule: new_rows.induct) auto

lemma new_rows_covered: "row_key ` set rs \<subseteq> row_key ` set table \<Longrightarrow> new_rows table rs = []"
  by (induction rs) auto

lemma new_rows_again: "new_rows (table @ new_rows table rs) rs = []"
  by (rule new_rows_covered) (use new_rows_keys [of table rs] in auto)

lemma new_rows_distinct:
  "distinct (map row_key table) \<Longrightarrow> distinct (map row_key (table @ new_rows table rs))"
proof (induction table rs rule: new_rows.induct)
  case (2 table r rs)
  then show ?case by (cases "row_key r \<in> row_key ` set table") auto
qed simp

lemma new_rows_append: "new_rows table (rs @ ss) = new_rows table rs @ new_rows (table @ new_rows table rs) ss"
  by (induction table rs rule: new_rows.induct) auto

subsection \<open>CopyMessages against these promises\<close>

lemma copy_in_tx_rows:
  assumes "pg_contract c p v" "pv_staged v tx w = []" "pv_pending v tx w = []"
    and "copy_in_tx c p tx msgs w = (r, w')"
  shows "(case r of
      Inr n \<Rightarrow> pv_rows v w' = pv_rows v w @ new_rows (pv_rows v w) (map copy_row msgs)
        \<and> n = int (length (new_rows (pv_rows v w) (map copy_row msgs)))
    | Inl e \<Rightarrow> pv_rows v w' = pv_rows v w
        \<or> (\<exists>e'. e = Wrapped ''commit'' e')
          \<and> pv_rows v w' = pv_rows v w @ new_rows (pv_rows v w) (map copy_row msgs))"
proof -
  from assms(1) have cols: "cp_columns c = canonical_columns" and copy: "copy_law p v"
    and ins: "insert_law c p v" and com: "commit_law p v" by (auto simp: pg_contract_def)
  let ?rs = "map copy_row msgs"
  obtain r1 w1 where c1: "tx_copy_from p tx staging_table_name canonical_columns ?rs w = (r1, w1)"
    by (metis surj_pair)
  note l1 = copy [unfolded copy_law_def, rule_format, OF c1]
  obtain r2 w2 where c2: "tx_exec p tx (insert_sql c) w1 = (r2, w2)" by (metis surj_pair)
  note l2 = ins [unfolded insert_law_def, rule_format, OF c2]
  obtain r3 w3 where c3: "tx_commit p tx w2 = (r3, w3)" by (metis surj_pair)
  note l3 = com [unfolded commit_law_def, THEN conjunct1, rule_format, OF c3]
  show ?thesis
  proof (cases r1)
    case (Inl e)
    with assms(4) c1 cols l1 show ?thesis by (auto simp: copy_in_tx_def)
  next
    case 1: (Inr n)
    show ?thesis
    proof (cases r2)
      case (Inl e)
      with assms(4) c1 c2 cols l1 l2 1 show ?thesis
        by (auto simp: copy_in_tx_def split: if_splits)
    next
      case (Inr n2)
      then show ?thesis
        using assms c1 c2 c3 cols l1 l2 l3 1 by (cases r3) (auto simp: copy_in_tx_def)
    qed
  qed
qed

lemma copy_messages_rows:
  assumes "pg_contract c p v" "copy_messages c p msgs w = (r, w')"
  shows "(case r of
      Inr n \<Rightarrow> pv_rows v w' = pv_rows v w @ new_rows (pv_rows v w) (map copy_row msgs)
        \<and> n = int (length (new_rows (pv_rows v w) (map copy_row msgs)))
    | Inl e \<Rightarrow> pv_rows v w' = pv_rows v w
        \<or> (\<exists>e'. e = Wrapped ''commit'' e')
          \<and> pv_rows v w' = pv_rows v w @ new_rows (pv_rows v w) (map copy_row msgs))"
proof (cases "msgs = []")
  case True
  with assms(2) show ?thesis by (auto simp: copy_messages_def)
next
  case False
  from assms(1) have beg: "begin_law p v" and roll: "pv_rows v (tx_rollback p tx x) = pv_rows v x" for tx x
    by (auto simp: pg_contract_def commit_law_def)
  obtain r1 w1 where b: "begin_tx p w = (r1, w1)" by (metis surj_pair)
  note l1 = beg [unfolded begin_law_def, rule_format, OF b]
  show ?thesis
  proof (cases r1)
    case (Inl e)
    with assms(2) False b l1 show ?thesis by (auto simp: copy_messages_def)
  next
    case (Inr tx)
    obtain r2 w2 where c: "copy_in_tx c p tx msgs w1 = (r2, w2)" by (metis surj_pair)
    have "r = r2" "w' = tx_rollback p tx w2"
      using assms(2) False b Inr c by (auto simp: copy_messages_def)
    with copy_in_tx_rows [OF assms(1) _ _ c] l1 Inr roll show ?thesis by (auto split: sum.splits)
  qed
qed


subsection \<open>The inserter interface of the flusher\<close>

text \<open>
  What a client of \<open>postgres.Inserter\<close> may rely on. \<open>stored\<close> is the guarantee that survives failed
  attempts: the table is as it was, or holds exactly the batch's new rows besides.
\<close>

locale inserter =
  fixes copy :: "message list \<Rightarrow> 'w \<Rightarrow> (go_error + int) \<times> 'w"
    and rows :: "'w \<Rightarrow> sql_row list"
    and inv :: "'w \<Rightarrow> bool"
  assumes copy_ok: "inv w \<Longrightarrow> copy ms w = (Inr n, w') \<Longrightarrow>
      inv w' \<and> rows w' = rows w @ new_rows (rows w) (map copy_row ms)
      \<and> n = int (length (new_rows (rows w) (map copy_row ms)))"
    and copy_err: "inv w \<Longrightarrow> copy ms w = (Inl e, w') \<Longrightarrow>
      inv w' \<and> (rows w' = rows w \<or> rows w' = rows w @ new_rows (rows w) (map copy_row ms))"
begin

definition stored :: "message list \<Rightarrow> sql_row list \<Rightarrow> sql_row list \<Rightarrow> bool" where
  "stored ms before now \<longleftrightarrow> now = before \<or> now = before @ new_rows before (map copy_row ms)"

lemma stored_refl: "stored ms x x"
  by (simp add: stored_def)

lemma stored_err:
  assumes "inv w" "stored ms before (rows w)" "copy ms w = (Inl e, w')"
  shows "inv w'" "stored ms before (rows w')"
  using assms copy_err [OF assms(1,3)] by (auto simp: stored_def new_rows_again)

lemma stored_ok:
  assumes "inv w" "stored ms before (rows w)" "copy ms w = (Inr n, w')"
  shows "inv w'" "rows w' = before @ new_rows before (map copy_row ms)"
  using assms copy_ok [OF assms(1,3)] by (auto simp: stored_def new_rows_again)

lemma replay:
  assumes "inv w" "copy ms w = (r1, w1)" "copy ms w1 = (Inr n, w2)"
  shows "rows w2 = rows w @ new_rows (rows w) (map copy_row ms)"
    and "r1 = Inr k \<Longrightarrow> n = 0"
proof -
  show "rows w2 = rows w @ new_rows (rows w) (map copy_row ms)"
  proof (cases r1)
    case (Inl e)
    with assms(2) have a: "copy ms w = (Inl e, w1)" by simp
    show ?thesis using stored_ok(2) [OF stored_err [OF assms(1) stored_refl a] assms(3)] .
  next
    case (Inr k)
    with assms(2) copy_ok [OF assms(1), of ms k w1] copy_ok [OF _ assms(3)]
    show ?thesis by (simp add: new_rows_again)
  qed
  show "n = 0" if "r1 = Inr k"
    using that assms(2) copy_ok [OF assms(1), of ms k w1] copy_ok [OF _ assms(3)]
    by (simp add: new_rows_again)
qed

end

interpretation ci: inserter "copy_messages c p" "pv_rows v" "\<lambda>w. pg_contract c p v"
  for c p v
  by unfold_locales (use copy_messages_rows in \<open>fastforce split: sum.splits\<close>)+

subsection \<open>A database in memory, for the witnesses\<close>

text \<open>
  One table and one transaction at a time: the world is the committed rows, the staged rows, the pending
  rows and what the next commit does (succeed, or report an error after having been carried out).
\<close>

record mem_db =
  md_rows :: "sql_row list"
  md_staged :: "sql_row list"
  md_pending :: "sql_row list"
  md_lost_ack :: bool

definition mem_view :: "(mem_db, unit) pg_view" where
  "mem_view = \<lparr>pv_rows = md_rows, pv_staged = (\<lambda>tx. md_staged), pv_pending = (\<lambda>tx. md_pending)\<rparr>"

definition mem_insert :: "mem_db \<Rightarrow> (go_error + int) \<times> mem_db" where
  "mem_insert w = (let new = new_rows (md_rows w @ md_pending w) (md_staged w)
     in (Inr (int (length new)), w\<lparr>md_pending := md_pending w @ new\<rparr>))"

definition mem_commit :: "mem_db \<Rightarrow> go_error option \<times> mem_db" where
  "mem_commit w = (if md_lost_ack w then Some (ErrText ''conn closed'') else None,
     w\<lparr>md_rows := md_rows w @ md_pending w, md_staged := [], md_pending := [], md_lost_ack := False\<rparr>)"

definition mem_pool :: "(mem_db, unit) pg_pool" where
  "mem_pool =
     \<lparr>begin_tx = (\<lambda>w. (Inr (), w\<lparr>md_staged := [], md_pending := []\<rparr>)),
      tx_rollback = (\<lambda>tx w. w\<lparr>md_staged := [], md_pending := []\<rparr>),
      tx_copy_from = (\<lambda>tx table cols rs w.
        if list_ex null_payload rs then (Inl (PgError ''23502'' ''null value in column payload''), w)
        else (Inr (int (length rs)), w\<lparr>md_staged := md_staged w @ rs\<rparr>)),
      tx_exec = (\<lambda>tx sql. mem_insert), tx_commit = (\<lambda>tx. mem_commit),
      pool_exec = (\<lambda>sql args w. (None, w\<lparr>md_rows := md_rows w @ [args]\<rparr>))\<rparr>"

definition demo_copier :: copier where
  "demo_copier = \<lparr>cp_schema = ''public'', cp_table = ''telemetry'', cp_columns = canonical_columns\<rparr>"

definition demo_row_message :: "string \<Rightarrow> bytes \<Rightarrow> message" where
  "demo_row_message k b = zero_message\<lparr>payload := b, dedup_key := k\<rparr>"

definition empty_db :: mem_db where
  "empty_db = \<lparr>md_rows = [], md_staged = [], md_pending = [], md_lost_ack = False\<rparr>"

lemma mem_pool_contract: "pg_contract demo_copier mem_pool mem_view"
  by (auto simp: pg_contract_def begin_law_def copy_law_def insert_law_def commit_law_def mem_pool_def
      mem_view_def demo_copier_def mem_insert_def mem_commit_def Let_def)


subsection \<open>Properties\<close>

text \<open>C13: exactly-once rows. On a database that keeps its promises, a CopyMessages that succeeds appends
  to the table exactly the batch's rows whose dedup key is new and reports their number, every key of the
  batch is then present and distinct keys stay distinct; one that fails leaves the table untouched, unless
  the error is that of the commit, where the whole batch may have been stored.\<close>
theorem copy_messages_effect:
  assumes "pg_contract c p v" "copy_messages c p msgs w = (r, w')"
  shows "(\<forall>n. r = Inr n \<longrightarrow>
        pv_rows v w' = pv_rows v w @ new_rows (pv_rows v w) (map copy_row msgs)
        \<and> n = int (length (pv_rows v w')) - int (length (pv_rows v w))
        \<and> (\<forall>m \<in> set msgs. SqlText (dedup_key m) \<in> row_key ` set (pv_rows v w')))
    \<and> (\<forall>e. r = Inl e \<longrightarrow> pv_rows v w' = pv_rows v w
        \<or> (\<exists>e'. e = Wrapped ''commit'' e')
          \<and> pv_rows v w' = pv_rows v w @ new_rows (pv_rows v w) (map copy_row msgs))
    \<and> (distinct (map row_key (pv_rows v w)) \<longrightarrow> distinct (map row_key (pv_rows v w')))"
proof -
  let ?new = "new_rows (pv_rows v w) (map copy_row msgs)"
  note eff = copy_messages_rows [OF assms]
  have key: "row_key (copy_row m) = SqlText (dedup_key m)" for m
    by (simp add: row_key_def copy_row_def)
  have in_new: "SqlText (dedup_key m) \<in> row_key ` set (pv_rows v w @ ?new)" if "m \<in> set msgs" for m
  proof -
    have "row_key (copy_row m) \<in> row_key ` set (map copy_row msgs)" using that by (intro imageI) simp
    then show ?thesis unfolding new_rows_keys key by (rule UnI2)
  qed
  have dist: "distinct (map row_key (pv_rows v w)) \<Longrightarrow> distinct (map row_key (pv_rows v w @ ?new))"
    by (rule new_rows_distinct)
  show ?thesis
  proof (cases r)
    case (Inl e)
    with eff have o: "pv_rows v w' = pv_rows v w
        \<or> (\<exists>e'. e = Wrapped ''commit'' e') \<and> pv_rows v w' = pv_rows v w @ ?new" by simp
    then have "distinct (map row_key (pv_rows v w)) \<longrightarrow> distinct (map row_key (pv_rows v w'))"
      using dist by metis
    with Inl o show ?thesis by simp
  next
    case (Inr n)
    then have rows: "pv_rows v w' = pv_rows v w @ ?new" and n: "n = int (length ?new)" using eff by auto
    have "\<forall>m \<in> set msgs. SqlText (dedup_key m) \<in> row_key ` set (pv_rows v w')"
      unfolding rows using in_new by blast
    moreover have "distinct (map row_key (pv_rows v w)) \<longrightarrow> distinct (map row_key (pv_rows v w'))"
      unfolding rows using dist by blast
    moreover have "n = int (length (pv_rows v w')) - int (length (pv_rows v w))"
      unfolding rows n by simp
    ultimately show ?thesis using rows Inr by simp
  qed
qed

lemma copy_messages_effect_witness:
  "case copy_messages demo_copier mem_pool
      [demo_row_message ''a'' (Some [1]), demo_row_message ''b'' (Some [2]), demo_row_message ''a'' (Some [3])]
      empty_db of (r, w') \<Rightarrow> r = Inr 2 \<and> length (md_rows w') = 2"
proof -
  let ?ms = "[demo_row_message ''a'' (Some [1]), demo_row_message ''b'' (Some [2]),
    demo_row_message ''a'' (Some [3])]"
  have r: "fst (copy_messages demo_copier mem_pool ?ms empty_db) = Inr 2" by code_simp
  obtain r' w' where c: "copy_messages demo_copier mem_pool ?ms empty_db = (r', w')" by (metis surj_pair)
  with r have r': "r' = Inr 2" by simp
  have "2 = int (length (md_rows w')) - int (length (md_rows empty_db))"
    using copy_messages_effect [OF mem_pool_contract c, THEN conjunct1, rule_format, OF r',
        THEN conjunct2, THEN conjunct1]
    by (simp add: mem_view_def)
  with c r' show ?thesis by (simp add: empty_db_def)
qed

text \<open>C14: replaying a batch is harmless. After any first attempt, a commit whose acknowledgement was lost
  included, a second attempt that succeeds leaves the table with the batch stored exactly once; if the
  first had succeeded the second inserts nothing.\<close>
theorem copy_messages_replay:
  assumes "pg_contract c p v" "copy_messages c p msgs w = (r1, w1)"
    and "copy_messages c p msgs w1 = (Inr n, w2)"
  shows "pv_rows v w2 = pv_rows v w @ new_rows (pv_rows v w) (map copy_row msgs)
    \<and> (\<forall>k. r1 = Inr k \<longrightarrow> n = 0)"
  using ci.replay [OF assms] by blast

lemma copy_messages_replay_witness:
  "let w = empty_db\<lparr>md_lost_ack := True\<rparr>; ms = [demo_row_message ''a'' (Some [1])];
       w1 = snd (copy_messages demo_copier mem_pool ms w)
   in isl (fst (copy_messages demo_copier mem_pool ms w))
      \<and> md_rows (snd (copy_messages demo_copier mem_pool ms w1)) = map copy_row ms"
proof -
  let ?w = "empty_db\<lparr>md_lost_ack := True\<rparr>" and ?ms = "[demo_row_message ''a'' (Some [1])]"
  let ?w1 = "snd (copy_messages demo_copier mem_pool ?ms ?w)"
  have f: "isl (fst (copy_messages demo_copier mem_pool ?ms ?w))"
    "fst (copy_messages demo_copier mem_pool ?ms ?w1) = Inr 0"
    by code_simp+
  have "copy_messages demo_copier mem_pool ?ms ?w1
      = (Inr 0, snd (copy_messages demo_copier mem_pool ?ms ?w1))"
    using f(2) by (metis prod.collapse)
  from copy_messages_replay [OF mem_pool_contract _ this]
  have "md_rows (snd (copy_messages demo_copier mem_pool ?ms ?w1)) = map copy_row ?ms"
    by (simp add: mem_view_def empty_db_def prod_eq_iff)
  with f(1) show ?thesis unfolding Let_def by blast
qed

text \<open>One message with a nil payload fails the whole batch: whatever error the database reports, CopyMessages
  returns one, and no row of the batch is stored.\<close>
lemma nil_payload_fails:
  assumes "pg_contract c p v" "m \<in> set msgs" "payload m = None"
    and "copy_messages c p msgs w = (r, w')"
  shows "pv_rows v w' = pv_rows v w \<and> isl r"
proof -
  have ne: "msgs \<noteq> []" using assms(2) by auto
  have cols: "cp_columns c = canonical_columns" and beg: "begin_law p v" and copy: "copy_law p v"
    and roll: "\<And>tx x. pv_rows v (tx_rollback p tx x) = pv_rows v x"
    using assms(1) by (auto simp: pg_contract_def commit_law_def)
  have null: "list_ex null_payload (map copy_row msgs)"
    using assms(2,3) by (auto simp: list_ex_iff null_payload_def copy_row_def)
  obtain r1 w1 where b: "begin_tx p w = (r1, w1)" by (metis surj_pair)
  note l1 = beg [unfolded begin_law_def, rule_format, OF b]
  show ?thesis
  proof (cases r1)
    case (Inl e)
    with assms(4) ne b l1 show ?thesis by (auto simp: copy_messages_def)
  next
    case (Inr tx)
    obtain r2 w2 where c2: "tx_copy_from p tx staging_table_name canonical_columns (map copy_row msgs) w1
        = (r2, w2)" by (metis surj_pair)
    note l2 = copy [unfolded copy_law_def, rule_format, OF c2]
    from l2 null obtain e where "r2 = Inl e" by (cases r2) auto
    with assms(4) ne b Inr c2 cols l1 l2 roll show ?thesis
      by (auto simp: copy_messages_def copy_in_tx_def)
  qed
qed

lemma nil_payload_fails_example:
  "md_rows (snd (copy_messages demo_copier mem_pool
     [demo_row_message ''a'' (Some [1]), demo_row_message ''b'' None] empty_db)) = []"
proof -
  let ?ms = "[demo_row_message ''a'' (Some [1]), demo_row_message ''b'' None]"
  have "demo_row_message ''b'' None \<in> set ?ms" "payload (demo_row_message ''b'' None) = None"
    by (simp_all add: demo_row_message_def)
  from nil_payload_fails [OF mem_pool_contract this prod.collapse [symmetric]]
  show ?thesis by (simp add: mem_view_def empty_db_def)
qed


text \<open>C34: quoting. Whatever bytes the configured schema and table hold, quotes included, a SQL lexer that
  reads delimited identifiers finds in the text CopyMessages sends exactly this schema, a dot, this table
  and then the canonical column list: no configured name can break out of its identifier.\<close>
theorem insert_sql_identifiers:
  assumes "cp_columns c = canonical_columns"
  shows "\<exists>pre s1 s2. insert_sql c = pre @ s1 \<and> pre = nl @ tab2 @ ''INSERT INTO ''
    \<and> scan_ident s1 = Some (cp_schema c, CHR ''.'' # s2)
    \<and> (\<exists>s3 s4. scan_ident s2 = Some (cp_table c, '' ('' @ s3)
        \<and> scan_idents 6 s3 = Some (canonical_columns, CHR '')'' # s4))"
proof -
  let ?rest = "nl @ tab2 @ ''SELECT '' @ join_idents canonical_columns @ '' FROM '' @ staging_table_name
     @ nl @ tab2 @ ''ON CONFLICT (dedup_key) DO NOTHING''"
  let ?s3 = "join_idents canonical_columns @ '')'' @ ?rest"
  let ?s2 = "quote_ident (cp_table c) @ '' ('' @ ?s3"
  let ?s1 = "quote_ident (cp_schema c) @ ''.'' @ ?s2"
  have "scan_ident ?s1 = Some (cp_schema c, ''.'' @ ?s2)"
    by (rule scan_quote_ident) (simp add: no_quote_hd_def)
  moreover have "scan_ident ?s2 = Some (cp_table c, '' ('' @ ?s3)"
    by (rule scan_quote_ident) (simp add: no_quote_hd_def)
  moreover have "scan_idents (length canonical_columns) ?s3 = Some (canonical_columns, '')'' @ ?rest)"
    by (rule scan_join_idents) (simp_all add: no_quote_hd_def canonical_columns_def)
  moreover have "length canonical_columns = 6" by (simp add: canonical_columns_def)
  moreover have "insert_sql c = (nl @ tab2 @ ''INSERT INTO '') @ ?s1"
    by (simp only: insert_sql_def assms append_assoc)
  ultimately show ?thesis by fastforce
qed

lemma insert_sql_identifiers_witness:
  "\<exists>s1 s2. insert_sql (demo_copier\<lparr>cp_schema := [CHR 0x22, CHR '';'']\<rparr>) = nl @ tab2 @ ''INSERT INTO '' @ s1
     \<and> scan_ident s1 = Some ([CHR 0x22, CHR '';''], CHR ''.'' # s2)"
proof -
  let ?c = "demo_copier\<lparr>cp_schema := [CHR 0x22, CHR '';'']\<rparr>"
  have "cp_columns ?c = canonical_columns" by (simp add: demo_copier_def)
  from insert_sql_identifiers [OF this] obtain s1 s2 where
    "insert_sql ?c = (nl @ tab2 @ ''INSERT INTO '') @ s1"
    "scan_ident s1 = Some (cp_schema ?c, CHR ''.'' # s2)"
    by blast
  then show ?thesis by (intro exI [of _ s1] exI [of _ s2]) simp
qed

text \<open>The side table: InsertUnparseable reaches the database only with a topic, an error class and a
  receive time, once, and then reports the database's own verdict; what it sends is the topic, payload
  and class unchanged, and the detail cut to its first 256 bytes, or NULL when there is none. In every
  other case it fails and the world is unchanged.\<close>
lemma insert_unparseable_effect:
  "insert_unparseable u p row w =
     (if u_topic row = '''' \<or> u_error_class row = '''' \<or> u_received_at row = zero_time
      then (Some (ErrText (''unparseable: '' @ (if u_topic row = '''' then ''topic''
              else if u_error_class row = '''' then ''error_class'' else ''received_at'') @ '' required'')), w)
      else (let (r, w') = pool_exec p (unparseable_sql u)
                [SqlText (u_topic row), SqlBytes (u_payload row), SqlText (u_error_class row),
                 (if u_error_detail row = '''' then SqlNil else SqlText (take 256 (u_error_detail row))),
                 SqlTime (u_received_at row)] w
            in (map_option (Wrapped ''insert unparseable'') r, w')))"
proof -
  have "(if length d > max_error_detail_len then take max_error_detail_len d else d) = take 256 d" for d :: string
    by (simp add: max_error_detail_len_def)
  moreover have "take 256 d = '''' \<longleftrightarrow> d = ''''" for d :: string by simp
  ultimately show ?thesis
    by (auto simp: insert_unparseable_def Let_def split: prod.splits option.splits)
qed

text \<open>Migrations. Each of the three commands closes the migrator it opened as its last step, whatever
  happened; Up and Down report no error exactly when the migrator reported none or that nothing changed,
  Down with zero steps runs the full Down and otherwise exactly that many steps backwards; a version of an
  unmigrated schema reads as 0, not dirty.\<close>
lemma migrations_close_and_fence:
  assumes "mig_new g source url w = (Inr m, w1)"
  shows "migrate_up g source url w =
        (fenced g ''migrate up'' (fst (mig_up g m w1)), mig_close g m (snd (mig_up g m w1)))
    \<and> (let (r, w2) = (if steps = 0 then mig_down g m w1 else mig_steps g m (- steps) w1)
       in snd (migrate_down g source url steps w) = mig_close g m w2
          \<and> (fst (migrate_down g source url steps w) = None
             \<longleftrightarrow> r = None \<or> (\<exists>e. r = Some e \<and> is_no_change g e)))
    \<and> snd (schema_version g source url w) = mig_close g m (snd (mig_version g m w1))
    \<and> (\<forall>e. fst (mig_version g m w1) = Inl e \<and> is_nil_version g e \<longrightarrow>
         fst (schema_version g source url w) = Inr (0, False))"
  using assms
  by (auto simp: migrate_up_def migrate_down_def schema_version_def fenced_def Let_def
      split: prod.splits sum.splits option.splits)

definition demo_migrator :: "(int, unit) migrator" where
  \<comment> \<open>the world is the schema version; stepping below zero reports that nothing changed\<close>
  "demo_migrator = \<lparr>mig_new = (\<lambda>s u w. (Inr (), w)), mig_close = (\<lambda>m w. w),
     mig_up = (\<lambda>m w. (if w = 2 then Some (ErrText ''no change'') else None, 2)),
     mig_down = (\<lambda>m w. (if w = 0 then Some (ErrText ''no change'') else None, 0)),
     mig_steps = (\<lambda>m k w. (None, w + k)),
     mig_version = (\<lambda>m w. (if w = 0 then Inl (ErrText ''no migration'') else Inr (nat w, False), w)),
     is_no_change = (\<lambda>e. e = ErrText ''no change''), is_nil_version = (\<lambda>e. e = ErrText ''no migration'')\<rparr>"

lemma migrations_close_and_fence_witness:
  "migrate_up demo_migrator ''file://m'' ''db'' 2 = (None, 2)
   \<and> snd (migrate_down demo_migrator ''file://m'' ''db'' 1 2) = 1"
proof -
  have "mig_new demo_migrator ''file://m'' ''db'' 2 = (Inr (), 2)" by (simp add: demo_migrator_def)
  from migrations_close_and_fence [OF this, of 1] show ?thesis
    by (simp add: demo_migrator_def fenced_def)
qed

end
