(* ===== verification/Metrics.thy ===== *)
theory Metrics
  imports Prelude
begin

text \<open>
  internal/metrics/metrics.go: the metric sets of the components. A set is modelled twice: as the
  record of the current values the components update (a counter or gauge is an integer, a
  histogram the list of what it observed, a labelled counter one integer per label value), and as
  the list of descriptors its constructor builds and hands to MustRegister. The registry is
  Prometheus code: an argument, whose documented behaviour is \<open>registry_law\<close>.
\<close>

record buffer_metrics =
  bm_depth :: int
  bm_bytes :: int
  bm_capacity :: int
  bm_enqueued :: int
  bm_dequeued :: int
  bm_spilled :: int
  bm_rejected :: int

record wal_metrics =
  wm_entries :: int
  wm_bytes_on_disk :: int
  wm_oldest_age :: duration
  wm_appended :: int
  wm_drained :: int
  wm_expired :: int

record subscriber_metrics =
  sm_connected :: int
  sm_paused :: int
  sm_pauses :: int
  sm_reconnects :: int
  sm_received :: int
  sm_acked :: int
  sm_handler_errors :: int
  sm_unparseable_inserted :: "string \<Rightarrow> int"
  sm_unparseable_insert_errors :: int

record flusher_metrics =
  fm_batch_size :: int
  fm_mode :: int
  fm_flush_latency :: "duration list"
  fm_flushed :: int
  fm_inserted :: int
  fm_flush_errors :: int
  fm_retries_total :: int
  fm_dead_lettered :: int
  fm_requeued :: int

record deadletter_metrics =
  dm_written :: int
  dm_errors :: int
  dm_latency :: "duration list"

subsection \<open>Descriptors\<close>

datatype buckets = ExponentialBuckets "int \<times> int" int nat \<comment> \<open>first bound, a fraction; factor; how many\<close>

datatype metric_kind = Gauge | Counter | Histogram buckets | CounterVec "string list"

record metric_desc =
  md_namespace :: string
  md_subsystem :: string
  md_name :: string
  md_help :: string
  md_kind :: metric_kind

definition namespace :: string where "namespace = ''mqtt2db''"

definition desc :: "string \<Rightarrow> string \<Rightarrow> string \<Rightarrow> metric_kind \<Rightarrow> metric_desc" where
  "desc sub n help k =
     \<lparr>md_namespace = namespace, md_subsystem = sub, md_name = n, md_help = help, md_kind = k\<rparr>"

definition buffer_descs :: "metric_desc list" where
  "buffer_descs = [
     desc ''buffer'' ''depth_messages''
       ''Current number of messages held in the in-memory ring buffer.'' Gauge,
     desc ''buffer'' ''depth_bytes''
       ''Current bytes held in the in-memory ring buffer.'' Gauge,
     desc ''buffer'' ''capacity_messages''
       ''Configured max_messages for the ring buffer.'' Gauge,
     desc ''buffer'' ''enqueued_total''
       ''Messages accepted into the ring buffer.'' Counter,
     desc ''buffer'' ''dequeued_total''
       ''Messages drained from the ring buffer.'' Counter,
     desc ''buffer'' ''spilled_total''
       ''Messages routed past the ring directly to WAL (spill threshold reached).'' Counter,
     desc ''buffer'' ''rejected_total''
       ''Messages refused by the ring (full or pause threshold reached).'' Counter]"

definition wal_descs :: "metric_desc list" where
  "wal_descs = [
     desc ''wal'' ''entries''
       ''Approximate number of live entries in the WAL.'' Gauge,
     desc ''wal'' ''bytes_on_disk''
       ''Approximate WAL on-disk size in bytes (LSM + value log).'' Gauge,
     desc ''wal'' ''oldest_age_seconds''
       ''Age of the oldest live WAL entry in seconds; 0 when empty.'' Gauge,
     desc ''wal'' ''appended_total''
       ''WAL entries written.'' Counter,
     desc ''wal'' ''drained_total''
       ''WAL entries successfully read and deleted by the flusher.'' Counter,
     desc ''wal'' ''expired_total''
       ''WAL entries dropped because they exceeded the configured TTL.'' Counter]"

definition subscriber_descs :: "metric_desc list" where
  "subscriber_descs = [
     desc ''subscriber'' ''connected''
       ''1 when connected to the MQTT broker, 0 otherwise.'' Gauge,
     desc ''subscriber'' ''paused''
       ''1 when the subscriber is dropping unacked messages so the broker redelivers (ring full + no WAL headroom).'' Gauge,
     desc ''subscriber'' ''pauses_total''
       ''Pause events (transitions from acking to not acking).'' Counter,
     desc ''subscriber'' ''reconnects_total''
       ''MQTT reconnection attempts.'' Counter,
     desc ''subscriber'' ''received_total''
       (''Messages delivered to the subscriber'' @ [CHR 0x27] @ ''s handler.'') Counter,
     desc ''subscriber'' ''acked_total''
       ''Messages manually acknowledged after persistence.'' Counter,
     desc ''subscriber'' ''handler_errors_total''
       ''Handler-level errors (topic parse failures, encode errors).'' Counter,
     desc ''subscriber'' ''unparseable_inserted_total''
       ''Parse failures successfully preserved in telemetry_unparseable, by error_class.'' (CounterVec [''error_class'']),
     desc ''subscriber'' ''unparseable_insert_errors_total''
       ''Parse failures whose preservation insert into telemetry_unparseable failed (the message is then acked-and-lost to keep the queue moving).'' Counter]"

definition flusher_descs :: "metric_desc list" where
  "flusher_descs = [
     desc ''flusher'' ''batch_size_current''
       ''Current effective batch size.'' Gauge,
     desc ''flusher'' ''mode''
       ''Adaptive mode: 0=normal, 1=elevated, 2=critical.'' Gauge,
     desc ''flusher'' ''flush_latency_seconds''
       ''Latency of a single Postgres flush call.'' (Histogram (ExponentialBuckets (5, 1000) 2 12)),
     desc ''flusher'' ''flushed_total''
       ''Batches flushed without error.'' Counter,
     desc ''flusher'' ''inserted_total''
       ''Rows actually inserted (post ON CONFLICT DO NOTHING).'' Counter,
     desc ''flusher'' ''flush_errors_total''
       ''Batch flushes that errored.'' Counter,
     desc ''flusher'' ''retries_total''
       ''Total batch retry attempts (across messages).'' Counter,
     desc ''flusher'' ''dead_lettered_total''
       ''Messages handed off to the dead-letter sink.'' Counter,
     desc ''flusher'' ''requeued_total''
       ''Messages re-enqueued to the WAL after a transient terminal flush failure.'' Counter]"

definition deadletter_descs :: "metric_desc list" where
  "deadletter_descs = [
     desc ''deadletter'' ''written_total''
       ''Messages written to the dead-letter sink.'' Counter,
     desc ''deadletter'' ''errors_total''
       ''Dead-letter write attempts that failed.'' Counter,
     desc ''deadletter'' ''write_latency_seconds''
       ''Latency of a single dead-letter write.'' (Histogram (ExponentialBuckets (1, 100) 2 10))]"

subsection \<open>The sets, fresh\<close>

definition zero_buffer_metrics :: buffer_metrics where
  "zero_buffer_metrics = \<lparr>bm_depth = 0, bm_bytes = 0, bm_capacity = 0, bm_enqueued = 0,
     bm_dequeued = 0, bm_spilled = 0, bm_rejected = 0\<rparr>"

definition zero_wal_metrics :: wal_metrics where
  "zero_wal_metrics = \<lparr>wm_entries = 0, wm_bytes_on_disk = 0, wm_oldest_age = 0, wm_appended = 0,
     wm_drained = 0, wm_expired = 0\<rparr>"

definition zero_subscriber_metrics :: subscriber_metrics where
  "zero_subscriber_metrics = \<lparr>sm_connected = 0, sm_paused = 0, sm_pauses = 0, sm_reconnects = 0, sm_received = 0,
     sm_acked = 0, sm_handler_errors = 0, sm_unparseable_inserted = (\<lambda>c. 0), sm_unparseable_insert_errors = 0\<rparr>"

definition zero_flusher_metrics :: flusher_metrics where
  "zero_flusher_metrics = \<lparr>fm_batch_size = 0, fm_mode = 0, fm_flush_latency = [], fm_flushed = 0,
     fm_inserted = 0, fm_flush_errors = 0, fm_retries_total = 0, fm_dead_lettered = 0, fm_requeued = 0\<rparr>"

definition zero_deadletter_metrics :: deadletter_metrics where
  "zero_deadletter_metrics = \<lparr>dm_written = 0, dm_errors = 0, dm_latency = []\<rparr>"

subsection \<open>Registration\<close>

text \<open>
  \<open>reg_must\<close> is MustRegister on a list of collectors; it returns the registry with them or panics.
\<close>

record 'g registry =
  reg_new :: 'g
  reg_must :: "metric_desc list \<Rightarrow> 'g \<Rightarrow> 'g outcome"

definition fq_name :: "metric_desc \<Rightarrow> string" where
  "fq_name d = md_namespace d @ ''_'' @ md_subsystem d @ ''_'' @ md_name d"

definition is_name_char :: "char \<Rightarrow> bool" where
  "is_name_char c \<longleftrightarrow> c = CHR ''_'' \<or> c = CHR '':'' \<or> is_digit c
     \<or> (c \<ge> CHR ''A'' \<and> \<not> c > CHR ''Z'') \<or> (c \<ge> CHR ''a'' \<and> \<not> c > CHR ''z'')"

fun valid_metric_name :: "string \<Rightarrow> bool" where
  "valid_metric_name [] = False"
| "valid_metric_name (c # cs) = (\<not> is_digit c \<and> list_all is_name_char (c # cs))"

definition registry_law :: "'g registry \<Rightarrow> ('g \<Rightarrow> metric_desc list) \<Rightarrow> bool" where
  \<comment> \<open>collectors without constant labels: valid new names are added, a name that is taken makes MustRegister panic\<close>
  "registry_law rg taken \<longleftrightarrow> taken (reg_new rg) = []
     \<and> (\<forall>ds g. distinct (map fq_name (taken g @ ds)) \<and> list_all (\<lambda>d. valid_metric_name (fq_name d)) ds \<longrightarrow>
          (\<exists>g1. reg_must rg ds g = Returned g1 \<and> taken g1 = taken g @ ds))
     \<and> (\<forall>ds g. (\<exists>d \<in> set ds. fq_name d \<in> fq_name ` set (taken g)) \<longrightarrow> reg_must rg ds g = Panic)"

definition registered :: "'g registry \<Rightarrow> 'm \<Rightarrow> metric_desc list \<Rightarrow> 'g \<Rightarrow> ('m \<times> 'g) outcome" where
  "registered rg m ds g = (case reg_must rg ds g of Panic \<Rightarrow> Panic | Returned g1 \<Rightarrow> Returned (m, g1))"

definition new_buffer_metrics :: "'g registry \<Rightarrow> 'g \<Rightarrow> (buffer_metrics \<times> 'g) outcome" where
  "new_buffer_metrics rg g = registered rg zero_buffer_metrics buffer_descs g"

definition new_wal_metrics :: "'g registry \<Rightarrow> 'g \<Rightarrow> (wal_metrics \<times> 'g) outcome" where
  "new_wal_metrics rg g = registered rg zero_wal_metrics wal_descs g"

definition new_subscriber_metrics :: "'g registry \<Rightarrow> 'g \<Rightarrow> (subscriber_metrics \<times> 'g) outcome" where
  "new_subscriber_metrics rg g = registered rg zero_subscriber_metrics subscriber_descs g"

definition new_flusher_metrics :: "'g registry \<Rightarrow> 'g \<Rightarrow> (flusher_metrics \<times> 'g) outcome" where
  "new_flusher_metrics rg g = registered rg zero_flusher_metrics flusher_descs g"

definition new_deadletter_metrics :: "'g registry \<Rightarrow> 'g \<Rightarrow> (deadletter_metrics \<times> 'g) outcome" where
  "new_deadletter_metrics rg g = registered rg zero_deadletter_metrics deadletter_descs g"

definition new_registry :: "'g registry \<Rightarrow> 'g" where
  "new_registry rg = reg_new rg"

end
