(* ===== verification/Buffer.thy ===== *)
theory Buffer
  imports Postgres Metrics
begin

text \<open>
  internal/buffer/buffer.go: the bounded in-memory ring between subscriber and flusher. The model
  keeps the ring's slots, head and size as the code does; \<open>ring_list\<close> reads the queue off them, and
  \<open>ring_inv\<close> is the invariant every operation preserves. An operation runs under the ring's mutex,
  so it is one step here; the gauges it sets after unlocking are set in the same step.
\<close>

subsection \<open>State and configuration\<close>

datatype ring_state = StateNormal | StateSpill | StatePause

fun ring_state_string :: "ring_state \<Rightarrow> string" where
  "ring_state_string StateNormal = ''normal''"
| "ring_state_string StateSpill = ''spill''"
| "ring_state_string StatePause = ''pause''"

fun ring_state_int :: "ring_state \<Rightarrow> nat" where
  \<comment> \<open>the iota values of the constants\<close>
  "ring_state_int StateNormal = 0"
| "ring_state_int StateSpill = 1"
| "ring_state_int StatePause = 2"

instantiation ring_state :: linorder
begin

definition less_eq_ring_state :: "ring_state \<Rightarrow> ring_state \<Rightarrow> bool" where
  "less_eq_ring_state a b \<longleftrightarrow> ring_state_int a \<le> ring_state_int b"

definition less_ring_state :: "ring_state \<Rightarrow> ring_state \<Rightarrow> bool" where
  "less_ring_state a b \<longleftrightarrow> ring_state_int a < ring_state_int b"

instance
proof
  fix a b c :: ring_state
  show "a < b \<longleftrightarrow> a \<le> b \<and> \<not> b \<le> a"
    by (auto simp: less_ring_state_def less_eq_ring_state_def)
  show "a \<le> a" by (simp add: less_eq_ring_state_def)
  show "a \<le> b \<Longrightarrow> b \<le> c \<Longrightarrow> a \<le> c" by (simp add: less_eq_ring_state_def)
  show "a \<le> b \<Longrightarrow> b \<le> a \<Longrightarrow> a = b"
    by (cases a; cases b) (simp_all add: less_eq_ring_state_def)
  show "a \<le> b \<or> b \<le> a" by (auto simp: less_eq_ring_state_def)
qed

end

record ring =
  r_cfg :: buffer_config
  r_head :: nat
  r_size :: nat
  r_bytes :: int
  r_slots :: "message list"
  r_m :: buffer_metrics
  spill_count :: int
  pause_count :: int
  spill_bytes :: int
  pause_bytes :: int

definition message_size :: "message \<Rightarrow> int" where
  "message_size m =
     int (go_len (payload m) + length (topic m) + length (tenant_id m) + length (dedup_key m))"

definition new_ring :: "(int \<Rightarrow> bool) \<Rightarrow> int \<Rightarrow> buffer_config \<Rightarrow> buffer_metrics option \<Rightarrow> (go_error + ring) outcome" where
  \<comment> \<open>\<open>mk\<close> is the lengths of which the implementation can make a slice of messages: make panics on any
     other; \<open>u\<close> is what the implementation makes of converting NaN to an integer\<close>
  "new_ring mk u cfg m =
     (if max_messages cfg \<le> 0 then Returned (Inl (ErrText ''buffer: MaxMessages must be > 0''))
      else if max_bytes cfg \<le> 0 then Returned (Inl (ErrText ''buffer: MaxBytes must be > 0''))
      else if f64_le (spill_threshold cfg) f64_zero \<or> f64_le f64_one (spill_threshold cfg)
        then Returned (Inl (ErrText ''buffer: SpillThreshold must be in (0, 1)''))
      else if f64_le (pause_threshold cfg) f64_zero \<or> f64_le f64_one (pause_threshold cfg)
        then Returned (Inl (ErrText ''buffer: PauseThreshold must be in (0, 1)''))
      else if f64_le (pause_threshold cfg) (spill_threshold cfg)
        then Returned (Inl (ErrText ''buffer: SpillThreshold must be < PauseThreshold''))
      else (case m of
          None \<Rightarrow> Returned (Inl (ErrText ''buffer: metrics required''))
        | Some bm \<Rightarrow>
            if \<not> mk (max_messages cfg) then Panic
            else Returned (Inr
              \<lparr>r_cfg = cfg, r_head = 0, r_size = 0, r_bytes = 0,
               r_slots = replicate (nat (max_messages cfg)) zero_message,
               r_m = bm\<lparr>bm_capacity := max_messages cfg\<rparr>,
               spill_count = f64_scale u (max_messages cfg) (spill_threshold cfg),
               pause_count = f64_scale u (max_messages cfg) (pause_threshold cfg),
               spill_bytes = f64_scale u (max_bytes cfg) (spill_threshold cfg),
               pause_bytes = f64_scale u (max_bytes cfg) (pause_threshold cfg)\<rparr>)))"

subsection \<open>Operations\<close>

definition state_locked :: "ring \<Rightarrow> ring_state" where
  "state_locked r =
     (if int (r_size r) \<ge> pause_count r \<or> r_bytes r \<ge> pause_bytes r then StatePause
      else if int (r_size r) \<ge> spill_count r \<or> r_bytes r \<ge> spill_bytes r then StateSpill
      else StateNormal)"

definition ring_len :: "ring \<Rightarrow> nat" where "ring_len r = r_size r"

definition enqueue :: "message \<Rightarrow> ring \<Rightarrow> (ring_state \<times> go_error option) \<times> ring" where
  "enqueue m r =
     (let sz = message_size m
      in if int (r_size r) \<ge> max_messages (r_cfg r) \<or> i64 (r_bytes r + sz) > max_bytes (r_cfg r)
         then ((StatePause, Some ErrFull),
               r\<lparr>r_m := (r_m r)\<lparr>bm_rejected := bm_rejected (r_m r) + 1\<rparr>\<rparr>)
         else
           let tail = (r_head r + r_size r) mod nat (max_messages (r_cfg r));
               r' = r\<lparr>r_slots := (r_slots r)[tail := m], r_size := r_size r + 1,
                      r_bytes := i64 (r_bytes r + sz)\<rparr>;
               state = state_locked r'
           in ((state, None),
               r'\<lparr>r_m := (r_m r')\<lparr>bm_enqueued := bm_enqueued (r_m r') + 1,
                    bm_depth := int (r_size r'), bm_bytes := r_bytes r'\<rparr>\<rparr>))"

definition mark_spilled :: "ring \<Rightarrow> ring" where
  "mark_spilled r = r\<lparr>r_m := (r_m r)\<lparr>bm_spilled := bm_spilled (r_m r) + 1\<rparr>\<rparr>"

text \<open>
  The loop of Dequeue: from offset \<open>i\<close>, \<open>k\<close> more slots are copied out, charged and zeroed.
\<close>

fun dequeue_loop ::
  "nat \<Rightarrow> nat \<Rightarrow> nat \<Rightarrow> nat \<Rightarrow> message list \<Rightarrow> message list \<Rightarrow> int
   \<Rightarrow> message list \<times> message list \<times> int" where
  "dequeue_loop cap head i 0 slots out freed = (out, slots, freed)"
| "dequeue_loop cap head i (Suc k) slots out freed =
     (let idx = (head + i) mod cap
      in dequeue_loop cap head (Suc i) k (slots[idx := zero_message]) (out @ [slots ! idx])
           (i64 (freed + message_size (slots ! idx))))"

definition dequeue :: "int \<Rightarrow> ring \<Rightarrow> message list \<times> ring" where
  "dequeue n r =
     (if n \<le> 0 then ([], r)
      else if r_size r = 0 then ([], r)
      else
        let k = (if n > int (r_size r) then r_size r else nat n);
            cap = nat (max_messages (r_cfg r))
        in (case dequeue_loop cap (r_head r) 0 k (r_slots r) [] 0 of
              (out, slots, freed) \<Rightarrow>
                let r' = r\<lparr>r_slots := slots, r_head := (r_head r + k) mod cap,
                           r_size := r_size r - k, r_bytes := i64 (r_bytes r - freed)\<rparr>
                in (out, r'\<lparr>r_m := (r_m r')\<lparr>bm_dequeued := bm_dequeued (r_m r') + int k,
                          bm_depth := int (r_size r'), bm_bytes := r_bytes r'\<rparr>\<rparr>)))"

subsection \<open>The queue a ring holds, and the invariant\<close>

definition ring_cap :: "ring \<Rightarrow> nat" where "ring_cap r = nat (max_messages (r_cfg r))"

definition slot_at :: "ring \<Rightarrow> nat \<Rightarrow> message" where
  "slot_at r i = r_slots r ! ((r_head r + i) mod ring_cap r)"

definition ring_list :: "ring \<Rightarrow> message list" where
  "ring_list r = map (slot_at r) [0..<r_size r]"

definition total_size :: "message list \<Rightarrow> int" where
  "total_size ms = sum_list (map message_size ms)"

text \<open>
  A message is small when its size is below \<open>2 ^ 62\<close> bytes, and the byte limit lies below \<open>2 ^ 62\<close> as
  well: then no sum the ring forms leaves int64.
\<close>

definition small_message :: "message \<Rightarrow> bool" where
  "small_message m \<longleftrightarrow> message_size m < 2 ^ 62"

definition ring_inv :: "ring \<Rightarrow> bool" where
  "ring_inv r \<longleftrightarrow>
     0 < max_messages (r_cfg r) \<and> 0 < max_bytes (r_cfg r) \<and> max_bytes (r_cfg r) < 2 ^ 62
     \<and> length (r_slots r) = ring_cap r \<and> r_head r < ring_cap r \<and> r_size r \<le> ring_cap r
     \<and> r_bytes r = total_size (ring_list r) \<and> r_bytes r \<le> max_bytes (r_cfg r)
     \<and> (\<forall>i. r_size r \<le> i \<and> i < ring_cap r \<longrightarrow> slot_at r i = zero_message)"

subsection \<open>Index arithmetic\<close>

lemma ring_index_inj:
  assumes "i < c" "j < (c::nat)"
  shows "(h + i) mod c = (h + j) mod c \<longleftrightarrow> i = j"
proof
  assume eq: "(h + i) mod c = (h + j) mod c"
  have "a = b" if "(h + a) mod c = (h + b) mod c" "a \<le> b" "b < c" for a b
  proof -
    from that have "c dvd b - a" by (metis add_diff_cancel_left mod_eq_dvd_iff_nat nat_add_left_cancel_le)
    with that show "a = b" by (metis diff_less_Suc dvd_imp_le le_antisym less_imp_diff_less not_less
      diff_is_0_eq zero_less_diff not_le)
  qed
  from this [of i j] this [of j i] eq assms show "i = j" by (cases "i \<le> j") auto
qed simp

lemma ring_cap_pos: "ring_inv r \<Longrightarrow> 0 < ring_cap r"
  by (simp add: ring_inv_def)

lemma message_size_nonneg [simp]: "0 \<le> message_size m"
  by (simp add: message_size_def)

lemma message_size_zero [simp]: "message_size zero_message = 0"
  by (simp add: message_size_def zero_message_def go_len_def bytes_of_def)

lemma total_size_simps [simp]:
  "total_size [] = 0" "total_size (m # ms) = message_size m + total_size ms"
  "total_size (ms @ ns) = total_size ms + total_size ns"
  by (simp_all add: total_size_def)

lemma total_size_nonneg [simp]: "0 \<le> total_size ms"
  by (induction ms) auto

lemma length_ring_list [simp]: "length (ring_list r) = r_size r"
  by (simp add: ring_list_def)

lemma ring_list_nth: "i < r_size r \<Longrightarrow> ring_list r ! i = slot_at r i"
  by (simp add: ring_list_def)

lemma i64_nonneg: "0 \<le> x \<Longrightarrow> x < 2 ^ 63 \<Longrightarrow> i64 x = x"
  by (rule i64_id) (simp add: in_i64_def)

subsection \<open>Enqueue\<close>

lemma enqueue_room:
  assumes inv: "ring_inv r" and small: "small_message m"
  shows "i64 (r_bytes r + message_size m) = r_bytes r + message_size m"
proof (rule i64_nonneg)
  show "0 \<le> r_bytes r + message_size m" using inv by (simp add: ring_inv_def)
qed (use inv small in \<open>simp_all add: ring_inv_def small_message_def\<close>)

definition ring_accepts :: "message \<Rightarrow> ring \<Rightarrow> bool" where
  "ring_accepts m r \<longleftrightarrow>
     int (r_size r) < max_messages (r_cfg r) \<and> r_bytes r + message_size m \<le> max_bytes (r_cfg r)"

lemma enqueue_reject:
  assumes "ring_inv r" "small_message m" "\<not> ring_accepts m r"
  shows "enqueue m r = ((StatePause, Some ErrFull),
    r\<lparr>r_m := (r_m r)\<lparr>bm_rejected := bm_rejected (r_m r) + 1\<rparr>\<rparr>)"
  using assms by (auto simp: enqueue_def ring_accepts_def enqueue_room Let_def)

lemma enqueue_err: "enqueue m r = ((s, Some e), r') \<Longrightarrow>
    s = StatePause \<and> e = ErrFull \<and> r' = r\<lparr>r_m := (r_m r)\<lparr>bm_rejected := bm_rejected (r_m r) + 1\<rparr>\<rparr>"
  by (auto simp: enqueue_def Let_def split: if_splits)

lemma ring_inv_metrics [simp]: "ring_inv (r\<lparr>r_m := x\<rparr>) = ring_inv r"
  and ring_list_metrics [simp]: "ring_list (r\<lparr>r_m := x\<rparr>) = ring_list r"
proof -
  have s: "slot_at (r\<lparr>r_m := x\<rparr>) = slot_at r" by (simp add: slot_at_def ring_cap_def fun_eq_iff)
  then show "ring_list (r\<lparr>r_m := x\<rparr>) = ring_list r" by (simp add: ring_list_def)
  with s show "ring_inv (r\<lparr>r_m := x\<rparr>) = ring_inv r" by (simp add: ring_inv_def ring_cap_def)
qed

lemma slot_at_append:
  assumes "length (r_slots r) = ring_cap r" "r_size r < ring_cap r" "i < ring_cap r"
    "r' = r\<lparr>r_slots := (r_slots r)[(r_head r + r_size r) mod ring_cap r := m],
      r_size := Suc (r_size r), r_bytes := b\<rparr>"
  shows "slot_at r' i = (if i = r_size r then m else slot_at r i)"
  using assms ring_index_inj [of i "ring_cap r" "r_size r" "r_head r"]
  by (auto simp: slot_at_def ring_cap_def nth_list_update)

lemma enqueue_accept:
  assumes inv: "ring_inv r" and small: "small_message m" and acc: "ring_accepts m r"
    and e: "enqueue m r = ((s, err), r')"
  shows "err = None" "s = state_locked r'" "ring_inv r'" "ring_list r' = ring_list r @ [m]"
    "r_cfg r' = r_cfg r"
proof -
  let ?t = "(r_head r + r_size r) mod ring_cap r"
  define r1 where "r1 = r\<lparr>r_slots := (r_slots r)[?t := m], r_size := Suc (r_size r),
    r_bytes := r_bytes r + message_size m\<rparr>"
  have e': "err = None" "s = state_locked r1" "\<exists>x. r' = r1\<lparr>r_m := x\<rparr>"
    using e acc enqueue_room [OF inv small]
    by (auto simp: enqueue_def Let_def r1_def ring_cap_def ring_accepts_def)
  then show "err = None" "s = state_locked r'" by (auto simp: state_locked_def)
  have size: "r_size r < ring_cap r" and len: "length (r_slots r) = ring_cap r"
    using inv acc by (auto simp: ring_inv_def ring_accepts_def ring_cap_def)
  have slot: "slot_at r1 i = (if i = r_size r then m else slot_at r i)" if "i < ring_cap r" for i
    by (rule slot_at_append [OF len size that r1_def])
  have list: "ring_list r1 = ring_list r @ [m]"
    unfolding ring_list_def using size slot by (auto simp: r1_def)
  have "ring_inv r1"
    using inv acc size len slot list by (auto simp: ring_inv_def ring_accepts_def r1_def ring_cap_def)
  with list e' show "ring_inv r'" "ring_list r' = ring_list r @ [m]" "r_cfg r' = r_cfg r"
    by (auto simp: r1_def)
qed

subsection \<open>Dequeue\<close>

lemma dequeue_loop_spec:
  assumes "length slots = cap" "i + k \<le> cap" "0 \<le> freed"
    and "freed + total_size (map (\<lambda>j. slots ! ((h + j) mod cap)) [i..<i + k]) < 2 ^ 62"
    and "dequeue_loop cap h i k slots out freed = (out', slots', freed')"
  shows "out' = out @ map (\<lambda>j. slots ! ((h + j) mod cap)) [i..<i + k]
    \<and> freed' = freed + total_size (map (\<lambda>j. slots ! ((h + j) mod cap)) [i..<i + k])
    \<and> length slots' = cap
    \<and> (\<forall>j < cap. slots' ! ((h + j) mod cap)
         = (if i \<le> j \<and> j < i + k then zero_message else slots ! ((h + j) mod cap)))"
  using assms
proof (induction k arbitrary: i slots out freed)
  case 0
  then show ?case by auto
next
  case (Suc k)
  let ?idx = "(h + i) mod cap"
  let ?get = "\<lambda>ss j. ss ! ((h + j) mod cap)"
  let ?slots = "slots[?idx := zero_message]"
  let ?f = "freed + message_size (slots ! ?idx)"
  from Suc.prems have cap: "i < cap" "0 < cap" by auto
  have upt: "[i..<i + Suc k] = i # [Suc i..<Suc i + k]" by (simp add: upt_rec)
  have get: "?get ?slots j = (if j = i then zero_message else ?get slots j)" if "j < cap" for j
    using that cap Suc.prems(1) ring_index_inj [of j cap i h] by (auto simp: nth_list_update)
  have same: "map (?get ?slots) [Suc i..<Suc i + k] = map (?get slots) [Suc i..<Suc i + k]"
    using Suc.prems(2) by (intro map_cong) (auto simp: get)
  have bound: "?f + total_size (map (?get slots) [Suc i..<Suc i + k]) < 2 ^ 62"
    using Suc.prems(4) unfolding upt by (simp add: add.assoc)
  have f0: "0 \<le> ?f" using Suc.prems(3) by simp
  have f: "i64 ?f = ?f"
  proof (rule i64_nonneg [OF f0])
    have "?f < 2 ^ 62"
      using bound total_size_nonneg [of "map (?get slots) [Suc i..<Suc i + k]"] by linarith
    then show "?f < 2 ^ 63" by simp
  qed
  have "dequeue_loop cap h (Suc i) k ?slots (out @ [slots ! ?idx]) ?f = (out', slots', freed')"
    using Suc.prems(5) f by (simp add: Let_def)
  from Suc.IH [OF _ _ f0 _ this, unfolded same, OF _ _ bound] Suc.prems(1,2)
  have IH: "out' = (out @ [slots ! ?idx]) @ map (?get slots) [Suc i..<Suc i + k]"
    "freed' = ?f + total_size (map (?get slots) [Suc i..<Suc i + k])" "length slots' = cap"
    "\<forall>j < cap. ?get slots' j
        = (if Suc i \<le> j \<and> j < Suc i + k then zero_message else ?get ?slots j)"
    by (simp_all del: upt_Suc)
  have "\<forall>j < cap. ?get slots' j
      = (if i \<le> j \<and> j < i + Suc k then zero_message else ?get slots j)"
    using IH(4) get by auto
  with IH(1-3) show ?case unfolding upt by (simp add: add.assoc del: upt_Suc)
qed

lemma dequeue_spec:
  assumes inv: "ring_inv r" and d: "dequeue n r = (out, r')"
  shows "ring_inv r'" "out = take (nat n) (ring_list r)" "ring_list r' = drop (nat n) (ring_list r)"
    "r_cfg r' = r_cfg r"
proof -
  have "ring_inv r' \<and> out = take (nat n) (ring_list r) \<and> ring_list r' = drop (nat n) (ring_list r)
    \<and> r_cfg r' = r_cfg r"
  proof (cases "n \<le> 0 \<or> r_size r = 0")
    case True
    with inv d show ?thesis by (cases "n \<le> 0") (auto simp: dequeue_def ring_list_def)
  next
    case False
    define k where "k = (if n > int (r_size r) then r_size r else nat n)"
    let ?c = "ring_cap r"
    from inv have len: "length (r_slots r) = ?c" and size: "r_size r \<le> ?c" and c: "0 < ?c"
      and bytes: "r_bytes r = total_size (ring_list r)" "total_size (ring_list r) < 2 ^ 62"
      and free: "\<And>i. r_size r \<le> i \<Longrightarrow> i < ?c \<Longrightarrow> slot_at r i = zero_message"
      using ring_cap_pos [OF inv] by (auto simp: ring_inv_def)
    have k: "k \<le> r_size r" "0 < k" using False by (auto simp: k_def)
    have take_k: "take (nat n) (ring_list r) = take k (ring_list r)"
      "drop (nat n) (ring_list r) = drop k (ring_list r)"
      by (auto simp: k_def)
    have tk: "map (slot_at r) [0..<k] = take k (ring_list r)"
      using k by (simp add: ring_list_def take_map)
    have total: "total_size (ring_list r)
        = total_size (take k (ring_list r)) + total_size (drop k (ring_list r))"
      by (metis append_take_drop_id total_size_simps(3))
    obtain o1 s1 f1 where loop: "dequeue_loop ?c (r_head r) 0 k (r_slots r) [] 0 = (o1, s1, f1)"
      by (metis prod_cases3)
    have eq: "(\<lambda>j. r_slots r ! ((r_head r + j) mod ?c)) = slot_at r"
      by (simp add: fun_eq_iff slot_at_def)
    have "total_size (map (slot_at r) [0..<k]) < 2 ^ 62"
      unfolding tk using bytes(2) total total_size_nonneg [of "drop k (ring_list r)"] by linarith
    then have "o1 = map (slot_at r) [0..<k] \<and> f1 = total_size (map (slot_at r) [0..<k])
      \<and> length s1 = ?c \<and> (\<forall>j < ?c. s1 ! ((r_head r + j) mod ?c)
           = (if j < k then zero_message else slot_at r j))"
      using dequeue_loop_spec [OF len _ _ _ loop, unfolded eq] k size by (simp add: slot_at_def)
    then have o1: "o1 = take k (ring_list r)" and f1: "f1 = total_size (take k (ring_list r))"
      and s1: "length s1 = ?c" "\<And>j. j < ?c \<Longrightarrow> s1 ! ((r_head r + j) mod ?c)
           = (if j < k then zero_message else slot_at r j)"
      by (auto simp: tk)
    have left: "r_bytes r - f1 = total_size (drop k (ring_list r))"
      using bytes(1) total f1 by simp
    have i64: "i64 (r_bytes r - f1) = total_size (drop k (ring_list r))"
      unfolding left
    proof (rule i64_nonneg)
      have "total_size (drop k (ring_list r)) < 2 ^ 62"
        using total bytes(2) total_size_nonneg [of "take k (ring_list r)"] by linarith
      then show "total_size (drop k (ring_list r)) < 2 ^ 63" by simp
    qed simp
    define r1 where "r1 = r\<lparr>r_slots := s1, r_head := (r_head r + k) mod ?c,
      r_size := r_size r - k, r_bytes := total_size (drop k (ring_list r))\<rparr>"
    have out: "out = o1" and r': "\<exists>x. r' = r1\<lparr>r_m := x\<rparr>"
      using d False loop i64 unfolding dequeue_def by (auto simp: Let_def k_def r1_def ring_cap_def)
    have slot: "slot_at r1 i = s1 ! ((r_head r + (k + i)) mod ?c)" for i
      by (simp add: r1_def slot_at_def ring_cap_def mod_add_left_eq add.assoc)
    have kept: "slot_at r1 i = slot_at r (k + i)" if "i < r_size r - k" for i
      using that size by (simp add: slot s1(2))
    have list: "ring_list r1 = drop k (ring_list r)"
      using k kept by (intro nth_equalityI) (simp_all add: r1_def ring_list_nth)
    have zero: "slot_at r1 i = zero_message" if "r_size r1 \<le> i" "i < ?c" for i
    proof (cases "k + i < ?c")
      case True
      moreover have "r_size r - k \<le> i" using that(1) by (simp add: r1_def)
      ultimately show ?thesis using free [of "k + i"] by (simp add: slot s1(2))
    next
      case False
      then obtain j where j: "k + i = ?c + j" by (metis le_Suc_ex not_less)
      have "(r_head r + (?c + j)) mod ?c = (r_head r + j) mod ?c"
        by (metis add.commute add.left_commute mod_add_self1)
      moreover have "j < k" "j < ?c" using j that(2) k size by simp_all
      ultimately show ?thesis using s1(2) [of j] j by (simp add: slot)
    qed
    have "total_size (ring_list r) \<le> max_bytes (r_cfg r)" using inv by (simp add: ring_inv_def)
    then have fits: "total_size (drop k (ring_list r)) \<le> max_bytes (r_cfg r)"
      using total total_size_nonneg [of "take k (ring_list r)"] by linarith
    have "ring_inv r1"
      using inv list zero s1(1) size c fits by (auto simp: ring_inv_def r1_def ring_cap_def)
    with list r' out o1 take_k show ?thesis by (auto simp: r1_def)
  qed
  then show "ring_inv r'" "out = take (nat n) (ring_list r)"
    "ring_list r' = drop (nat n) (ring_list r)" "r_cfg r' = r_cfg r" by auto
qed


subsection \<open>Construction, thresholds and gauges\<close>

lemma new_ring_cases:
  assumes "new_ring mk u cfg m = Returned (Inr r)"
  obtains bm where "m = Some bm" "validate_buffer cfg = []" "r_cfg r = cfg" "r_head r = 0"
    "r_size r = 0" "r_bytes r = 0" "r_slots r = replicate (nat (max_messages cfg)) zero_message"
    "r_m r = bm\<lparr>bm_capacity := max_messages cfg\<rparr>"
    "spill_count r = f64_scale u (max_messages cfg) (spill_threshold cfg)"
    "pause_count r = f64_scale u (max_messages cfg) (pause_threshold cfg)"
    "spill_bytes r = f64_scale u (max_bytes cfg) (spill_threshold cfg)"
    "pause_bytes r = f64_scale u (max_bytes cfg) (pause_threshold cfg)"
  using assms by (auto simp: new_ring_def validate_buffer_Nil thresholds_ok_def
      split: if_splits option.splits)

lemma new_ring_total:
  assumes "validate_buffer cfg = []"
  shows "if mk (max_messages cfg) then \<exists>r. new_ring mk u cfg (Some bm) = Returned (Inr r)
    else new_ring mk u cfg (Some bm) = Panic"
  using assms by (auto simp: new_ring_def validate_buffer_Nil thresholds_ok_def)

lemma new_ring_inv:
  assumes "new_ring mk u cfg m = Returned (Inr r)" "max_bytes cfg < 2 ^ 62"
  shows "ring_inv r" "ring_list r = []"
proof -
  have r: "validate_buffer cfg = []" "r_cfg r = cfg" "r_head r = 0"
    "r_size r = 0" "r_bytes r = 0" "r_slots r = replicate (nat (max_messages cfg)) zero_message"
    by (rule new_ring_cases [OF assms(1)]; simp)+
  then show list: "ring_list r = []" by (simp add: ring_list_def)
  from r assms(2) show "ring_inv r"
    by (simp add: ring_inv_def list validate_buffer_Nil ring_cap_def slot_at_def)
qed

definition pressure_ok :: "ring \<Rightarrow> bool" where
  "pressure_ok r \<longleftrightarrow>
     0 \<le> spill_count r \<and> spill_count r \<le> pause_count r
     \<and> pause_count r \<le> int (round53 (nat (max_messages (r_cfg r))))
     \<and> 0 \<le> spill_bytes r \<and> spill_bytes r \<le> pause_bytes r
     \<and> pause_bytes r \<le> int (round53 (nat (max_bytes (r_cfg r))))"

lemma new_ring_pressure_ok:
  assumes "new_ring mk u cfg m = Returned (Inr r)" "max_messages cfg < 2 ^ 62" "max_bytes cfg < 2 ^ 62"
    and "spill_threshold cfg \<noteq> NaN" "pause_threshold cfg \<noteq> NaN"
  shows "pressure_ok r"
  using assms(1)
proof (rule new_ring_cases)
  assume r: "validate_buffer cfg = []" "r_cfg r = cfg"
    "spill_count r = f64_scale u (max_messages cfg) (spill_threshold cfg)"
    "pause_count r = f64_scale u (max_messages cfg) (pause_threshold cfg)"
    "spill_bytes r = f64_scale u (max_bytes cfg) (spill_threshold cfg)"
    "pause_bytes r = f64_scale u (max_bytes cfg) (pause_threshold cfg)"
  let ?s = "spill_threshold cfg" and ?p = "pause_threshold cfg"
  from r(1) have t: "thresholds_ok ?s ?p" and pos: "0 \<le> max_messages cfg" "0 \<le> max_bytes cfg"
    by (auto simp: validate_buffer_Nil)
  from t thresholds_ok_numbers [OF assms(4,5)]
  have sp: "f64_less f64_zero ?s" "f64_less ?s ?p" "f64_less ?p f64_one" by auto
  from t not_f64_le [of ?s f64_one] not_f64_le [of ?p f64_zero] assms(4,5)
  have sp': "f64_less ?s f64_one" "f64_less f64_zero ?p"
    using not_f64_le [of f64_one ?s] not_f64_le [of ?p f64_zero] by (auto simp: thresholds_ok_def)
  show ?thesis
    unfolding pressure_ok_def r(2-)
    using f64_scale_bounds [OF pos(1) assms(2) sp(1) sp'(1)]
      f64_scale_bounds [OF pos(1) assms(2) sp'(2) sp(3)]
      f64_scale_bounds [OF pos(2) assms(3) sp(1) sp'(1)]
      f64_scale_bounds [OF pos(2) assms(3) sp'(2) sp(3)]
      f64_scale_mono [OF pos(1) assms(2) sp] f64_scale_mono [OF pos(2) assms(3) sp]
    by simp
qed

text \<open>The fields the operations never touch, and how the pressure level moves.\<close>

definition same_limits :: "ring \<Rightarrow> ring \<Rightarrow> bool" where
  "same_limits r r' \<longleftrightarrow>
     r_cfg r' = r_cfg r \<and> spill_count r' = spill_count r \<and> pause_count r' = pause_count r
     \<and> spill_bytes r' = spill_bytes r \<and> pause_bytes r' = pause_bytes r"

lemma enqueue_limits: "enqueue m r = (x, r') \<Longrightarrow> same_limits r r'"
  by (auto simp: enqueue_def Let_def same_limits_def split: if_splits)

lemma dequeue_limits: "dequeue n r = (out, r') \<Longrightarrow> same_limits r r'"
  by (auto simp: dequeue_def Let_def same_limits_def split: if_splits prod.splits)

lemma pressure_ok_limits: "same_limits r r' \<Longrightarrow> pressure_ok r' = pressure_ok r"
  by (simp add: same_limits_def pressure_ok_def)

lemma state_locked_mono:
  assumes "same_limits r r'" "r_size r \<le> r_size r'" "r_bytes r \<le> r_bytes r'" "pressure_ok r"
  shows "state_locked r \<le> state_locked r'"
  using assms by (auto simp: same_limits_def state_locked_def less_eq_ring_state_def pressure_ok_def)

lemma ring_inv_sizes: "ring_inv r \<Longrightarrow> r_bytes r = total_size (ring_list r)"
  by (simp add: ring_inv_def)

subsection \<open>Gauges and counters\<close>

definition ring_gauges :: "ring \<Rightarrow> bool" where
  "ring_gauges r \<longleftrightarrow>
     bm_depth (r_m r) = int (r_size r) \<and> bm_bytes (r_m r) = r_bytes r
     \<and> bm_capacity (r_m r) = max_messages (r_cfg r)
     \<and> bm_enqueued (r_m r) = bm_dequeued (r_m r) + int (r_size r)"

lemma new_ring_gauges: "new_ring mk u cfg (Some zero_buffer_metrics) = Returned (Inr r) \<Longrightarrow> ring_gauges r"
  by (erule new_ring_cases) (auto simp: ring_gauges_def zero_buffer_metrics_def)

lemma enqueue_gauges: "enqueue m r = (x, r') \<Longrightarrow> ring_gauges r \<Longrightarrow> ring_gauges r'"
  by (auto simp: enqueue_def Let_def ring_gauges_def split: if_splits)

lemma mark_spilled_gauges: "ring_gauges r \<Longrightarrow> ring_gauges (mark_spilled r)"
  by (simp add: mark_spilled_def ring_gauges_def)

lemma dequeue_gauges: "dequeue n r = (out, r') \<Longrightarrow> ring_gauges r \<Longrightarrow> ring_gauges r'"
  by (auto simp: dequeue_def Let_def ring_gauges_def split: if_splits prod.splits)


subsection \<open>The queue interface of the subscriber and the flusher\<close>

text \<open>
  What the two sides of the ring rely on: an accepted message joins the tail, a refused one changes
  nothing, Dequeue takes a prefix of at most \<open>n\<close> messages. \<open>ok\<close> is the size bound a message
  respects. \<open>run_queue\<close> performs a sequence of operations in the order in which the mutex serialises
  them and collects what was accepted and what was handed out.
\<close>

datatype queue_op = OpEnqueue message | OpMarkSpilled | OpDequeue int

fun run_queue ::
  "(message \<Rightarrow> 'q \<Rightarrow> (ring_state \<times> go_error option) \<times> 'q) \<Rightarrow> ('q \<Rightarrow> 'q)
   \<Rightarrow> (int \<Rightarrow> 'q \<Rightarrow> message list \<times> 'q) \<Rightarrow> queue_op list \<Rightarrow> 'q
   \<Rightarrow> message list \<times> message list \<times> 'q" where
  "run_queue enq mark deq [] q = ([], [], q)"
| "run_queue enq mark deq (op # ops) q =
     (case op of
        OpEnqueue m \<Rightarrow>
          (case enq m q of ((s, err), q') \<Rightarrow>
             (case run_queue enq mark deq ops q' of (acc, out, q'') \<Rightarrow>
                (if err = None then m # acc else acc, out, q'')))
      | OpMarkSpilled \<Rightarrow> run_queue enq mark deq ops (mark q)
      | OpDequeue n \<Rightarrow>
          (case deq n q of (ms, q') \<Rightarrow>
             (case run_queue enq mark deq ops q' of (acc, out, q'') \<Rightarrow> (acc, ms @ out, q''))))"

locale message_queue =
  fixes enq :: "message \<Rightarrow> 'q \<Rightarrow> (ring_state \<times> go_error option) \<times> 'q"
    and mark :: "'q \<Rightarrow> 'q"
    and deq :: "int \<Rightarrow> 'q \<Rightarrow> message list \<times> 'q"
    and queue :: "'q \<Rightarrow> message list"
    and inv :: "'q \<Rightarrow> bool"
    and ok :: "message \<Rightarrow> bool"
  assumes enq_ok: "inv q \<Longrightarrow> ok m \<Longrightarrow> enq m q = ((s, None), q') \<Longrightarrow> inv q' \<and> queue q' = queue q @ [m]"
    and enq_err: "inv q \<Longrightarrow> enq m q = ((s, Some e), q') \<Longrightarrow>
      inv q' \<and> queue q' = queue q \<and> e = ErrFull \<and> s = StatePause"
    and mark: "inv q \<Longrightarrow> inv (mark q) \<and> queue (mark q) = queue q"
    and deq: "inv q \<Longrightarrow> deq n q = (ms, q') \<Longrightarrow>
      inv q' \<and> ms = take (nat n) (queue q) \<and> queue q' = drop (nat n) (queue q)"
begin

lemma enq_cases:
  assumes "inv q" "ok m" "enq m q = ((s, err), q')"
  shows "inv q' \<and> queue q' = (if err = None then queue q @ [m] else queue q)
    \<and> (err = None \<or> err = Some ErrFull)"
  using assms enq_ok [OF assms(1,2), of s q'] enq_err [OF assms(1), of m s _ q']
  by (cases err) simp_all

lemma deq_split: "inv q \<Longrightarrow> deq n q = (ms, q') \<Longrightarrow> ms @ queue q' = queue q"
  using deq [of q n ms q'] by simp

lemma run_inv:
  assumes "inv q" "\<And>m. OpEnqueue m \<in> set ops \<Longrightarrow> ok m"
    and "run_queue enq mark deq ops q = (acc, out, q')"
  shows "inv q' \<and> out @ queue q' = queue q @ acc"
  using assms
proof (induction ops arbitrary: q acc out)
  case (Cons op ops)
  show ?case
  proof (cases op)
    case (OpEnqueue m)
    obtain s err q1 where e: "enq m q = ((s, err), q1)" by (metis surj_pair)
    obtain acc1 where r: "run_queue enq mark deq ops q1 = (acc1, out, q')"
      "acc = (if err = None then m # acc1 else acc1)"
      using Cons.prems(3) OpEnqueue e by (auto split: prod.splits)
    have "inv q1" "queue q1 = (if err = None then queue q @ [m] else queue q)"
      using enq_cases [OF Cons.prems(1) _ e] Cons.prems(2) OpEnqueue by auto
    with Cons.IH [OF _ _ r(1)] Cons.prems(2) r(2) show ?thesis by auto
  next
    case OpMarkSpilled
    with Cons.IH [of "mark q"] Cons.prems mark show ?thesis by auto
  next
    case (OpDequeue n)
    obtain ms q1 where d: "deq n q = (ms, q1)" by (metis surj_pair)
    obtain out1 where r: "run_queue enq mark deq ops q1 = (acc, out1, q')" "out = ms @ out1"
      using Cons.prems(3) OpDequeue d by (auto split: prod.splits)
    with Cons.IH [OF _ _ r(1)] deq [OF Cons.prems(1) d] deq_split [OF Cons.prems(1) d] Cons.prems(2)
    show ?thesis by auto
  qed
qed auto

end

lemma mark_spilled_spec: "ring_inv r \<Longrightarrow> ring_inv (mark_spilled r)"
  "ring_list (mark_spilled r) = ring_list r"
  by (simp_all add: mark_spilled_def)

interpretation rq: message_queue enqueue mark_spilled dequeue ring_list ring_inv small_message
proof
  fix q q' :: ring and m s
  assume a: "ring_inv q" "small_message m" "enqueue m q = ((s, None), q')"
  then have "ring_accepts m q" using enqueue_reject by fastforce
  with a enqueue_accept show "ring_inv q' \<and> ring_list q' = ring_list q @ [m]" by blast
next
  fix q q' :: ring and m s e
  assume "ring_inv q" "enqueue m q = ((s, Some e), q')"
  with enqueue_err show "ring_inv q' \<and> ring_list q' = ring_list q \<and> e = ErrFull \<and> s = StatePause"
    by fastforce
next
  fix q :: ring assume "ring_inv q"
  then show "ring_inv (mark_spilled q) \<and> ring_list (mark_spilled q) = ring_list q"
    by (simp add: mark_spilled_spec)
next
  fix q q' :: ring and n ms
  assume "ring_inv q" "dequeue n q = (ms, q')"
  with dequeue_spec show "ring_inv q' \<and> ms = take (nat n) (ring_list q) \<and> ring_list q' = drop (nat n) (ring_list q)"
    by blast
qed

definition run_ring :: "queue_op list \<Rightarrow> ring \<Rightarrow> message list \<times> message list \<times> ring" where
  "run_ring = run_queue enqueue mark_spilled dequeue"


lemma run_queue_preserves:
  assumes "P q" "\<And>m q x q'. P q \<Longrightarrow> enq m q = (x, q') \<Longrightarrow> P q'" "\<And>q. P q \<Longrightarrow> P (mark q)"
    "\<And>n q ms q'. P q \<Longrightarrow> deq n q = (ms, q') \<Longrightarrow> P q'"
    and "run_queue enq mark deq ops q = (acc, out, q')"
  shows "P q'"
  using assms(1,5)
proof (induction ops arbitrary: q acc out)
  case (Cons op ops)
  show ?case
  proof (cases op)
    case (OpEnqueue m)
    obtain s err q1 where e: "enq m q = ((s, err), q1)" by (metis surj_pair)
    obtain acc1 where "run_queue enq mark deq ops q1 = (acc1, out, q')"
      using Cons.prems(2) OpEnqueue e by (auto split: prod.splits)
    then show ?thesis by (rule Cons.IH [OF assms(2) [OF Cons.prems(1) e]])
  next
    case OpMarkSpilled
    then show ?thesis using Cons.IH [OF assms(3) [OF Cons.prems(1)]] Cons.prems(2) by simp
  next
    case (OpDequeue n)
    obtain ms q1 where d: "deq n q = (ms, q1)" by (metis surj_pair)
    obtain out1 where "run_queue enq mark deq ops q1 = (acc, out1, q')"
      using Cons.prems(2) OpDequeue d by (auto split: prod.splits)
    then show ?thesis by (rule Cons.IH [OF assms(4) [OF Cons.prems(1) d]])
  qed
qed simp

lemma mark_spilled_limits: "same_limits r (mark_spilled r)"
  by (simp add: mark_spilled_def same_limits_def)

lemma same_limits_trans: "same_limits a b \<Longrightarrow> same_limits b c \<Longrightarrow> same_limits a c"
  by (simp add: same_limits_def)

lemma run_ring_limits: "run_ring ops r = (acc, out, r') \<Longrightarrow> same_limits r r'"
  unfolding run_ring_def
  by (rule run_queue_preserves [where P = "same_limits r", rotated -1], assumption)
    (auto intro: enqueue_limits dequeue_limits mark_spilled_limits same_limits_trans
      simp: same_limits_def [of r r])

lemma enqueue_sizes:
  assumes "ring_inv r" "small_message m" "enqueue m r = ((s, None), r')"
  shows "r_size r' = Suc (r_size r)" "r_bytes r' = r_bytes r + message_size m" "s = state_locked r'"
proof -
  have acc: "ring_accepts m r" using assms enqueue_reject by fastforce
  note a = enqueue_accept [OF assms(1,2) acc assms(3)]
  show "s = state_locked r'" by (rule a(2))
  have "length (ring_list r') = Suc (length (ring_list r))" using a(4) by simp
  then show "r_size r' = Suc (r_size r)" by simp
  show "r_bytes r' = r_bytes r + message_size m"
    using ring_inv_sizes [OF a(3)] ring_inv_sizes [OF assms(1)] a(4) by simp
qed

lemma dequeue_sizes:
  assumes "ring_inv r" "dequeue n r = (out, r')"
  shows "r_size r' \<le> r_size r" "r_bytes r' \<le> r_bytes r"
proof -
  note d = dequeue_spec [OF assms]
  have "length (ring_list r') \<le> length (ring_list r)" using d(3) by simp
  then show "r_size r' \<le> r_size r" by simp
  have "total_size (ring_list r) = total_size out + total_size (ring_list r')"
    using d(2,3) by (metis append_take_drop_id total_size_simps(3))
  then show "r_bytes r' \<le> r_bytes r"
    using ring_inv_sizes [OF d(1)] ring_inv_sizes [OF assms(1)] total_size_nonneg [of out] by linarith
qed

subsection \<open>Properties of the ring\<close>

definition demo_buffer_config :: buffer_config where
  "demo_buffer_config = \<lparr>max_messages = 3, max_bytes = 100, spill_threshold = Fin 1 1,
     pause_threshold = Fin 3 2\<rparr>"

definition demo_message :: "nat \<Rightarrow> message" where
  "demo_message n = \<lparr>tenant_id = ''acme'', device_uuid = replicate 16 1,
     topic = ''evt/device/acme'', payload = Some [of_nat n], received_at = int n,
     dedup_key = ''k'' @ show_nat n\<rparr>"

definition demo_make :: "int \<Rightarrow> bool" where
  "demo_make n \<longleftrightarrow> 0 \<le> n \<and> n < 2 ^ 41"

definition demo_ring :: ring where
  "demo_ring = (case new_ring demo_make 0 demo_buffer_config (Some zero_buffer_metrics) of Returned (Inr r) \<Rightarrow> r)"

lemma demo_ring_new: "new_ring demo_make 0 demo_buffer_config (Some zero_buffer_metrics) = Returned (Inr demo_ring)"
proof -
  have "validate_buffer demo_buffer_config = []" by code_simp
  moreover have "demo_make (max_messages demo_buffer_config)" by (simp add: demo_make_def demo_buffer_config_def)
  ultimately obtain r where "new_ring demo_make 0 demo_buffer_config (Some zero_buffer_metrics) = Returned (Inr r)"
    using new_ring_total by fastforce
  then show ?thesis by (simp add: demo_ring_def)
qed

lemma demo_messages_small: "small_message (demo_message 1)" "small_message (demo_message 2)"
  by code_simp+

lemma ring_inv_limits: "ring_inv r \<Longrightarrow>
    int (r_size r) \<le> max_messages (r_cfg r) \<and> total_size (ring_list r) \<le> max_bytes (r_cfg r)"
  by (auto simp: ring_inv_def ring_cap_def)

text \<open>C11: first in, first out, and nothing lost or made up: whatever sequence of Enqueue, MarkSpilled
  and Dequeue calls runs on a new ring, the messages it accepted, in that order, are those handed out
  followed by those it still holds, and the ring's invariant holds (the byte count is the sum over the
  queue and stays within MaxBytes, the count within MaxMessages, every free slot is zeroed).\<close>
theorem ring_run_fifo:
  assumes "new_ring mk u cfg m = Returned (Inr r)" "max_bytes cfg < 2 ^ 62"
    and "\<And>x. OpEnqueue x \<in> set ops \<Longrightarrow> small_message x"
    and "run_ring ops r = (acc, out, r')"
  shows "acc = out @ ring_list r' \<and> ring_inv r'
    \<and> int (length (ring_list r')) \<le> max_messages cfg \<and> total_size (ring_list r') \<le> max_bytes cfg"
proof -
  have cfg: "r_cfg r = cfg" by (rule new_ring_cases [OF assms(1)])
  note new = new_ring_inv [OF assms(1,2)]
  have run: "ring_inv r' \<and> out @ ring_list r' = ring_list r @ acc"
    by (rule rq.run_inv [OF new(1) _ assms(4) [unfolded run_ring_def]]) (rule assms(3))
  have "r_cfg r' = cfg" using run_ring_limits [OF assms(4)] cfg by (simp add: same_limits_def)
  with run ring_inv_limits [of r'] have "int (length (ring_list r')) \<le> max_messages cfg"
    "total_size (ring_list r') \<le> max_bytes cfg" by simp_all
  with run new(2) show ?thesis by simp
qed

lemma ring_run_fifo_witness:
  "case run_ring [OpEnqueue (demo_message 1), OpDequeue 1, OpEnqueue (demo_message 2)] demo_ring of
     (acc, out, r') \<Rightarrow> acc = out @ ring_list r' \<and> ring_inv r' \<and> length acc = 2"
proof -
  let ?ops = "[OpEnqueue (demo_message 1), OpDequeue 1, OpEnqueue (demo_message 2)]"
  have two: "length (fst (run_ring ?ops demo_ring)) = 2" by code_simp
  obtain acc out r' where run: "run_ring ?ops demo_ring = (acc, out, r')" by (metis prod_cases3)
  have "max_bytes demo_buffer_config < 2 ^ 62" by (simp add: demo_buffer_config_def)
  moreover have "small_message x" if "OpEnqueue x \<in> set ?ops" for x
    using that demo_messages_small by auto
  ultimately have "acc = out @ ring_list r' \<and> ring_inv r'"
    using ring_run_fifo [OF demo_ring_new _ _ run] by blast
  then show ?thesis using two unfolding run by simp
qed


text \<open>C24: admission. Enqueue accepts a message exactly when a slot is free and its size still fits under
  MaxBytes (no int64 sum wraps); then the message joins the tail and the returned state is the one
  after it. Otherwise the result is StatePause with ErrFull and only the rejected counter changes.\<close>
theorem enqueue_admission:
  assumes "ring_inv r" "small_message m" "enqueue m r = ((s, err), r')"
  shows "(err = None \<longleftrightarrow> int (length (ring_list r)) < max_messages (r_cfg r)
            \<and> total_size (ring_list r) + message_size m \<le> max_bytes (r_cfg r))
    \<and> (err = None \<longrightarrow> ring_list r' = ring_list r @ [m] \<and> s = state_locked r')
    \<and> (err \<noteq> None \<longrightarrow> err = Some ErrFull \<and> s = StatePause
         \<and> r' = r\<lparr>r_m := (r_m r)\<lparr>bm_rejected := bm_rejected (r_m r) + 1\<rparr>\<rparr>)"
proof (cases "ring_accepts m r")
  case True
  note a = enqueue_accept [OF assms(1,2) True assms(3)]
  from True ring_inv_sizes [OF assms(1)] have "int (length (ring_list r)) < max_messages (r_cfg r)"
    "total_size (ring_list r) + message_size m \<le> max_bytes (r_cfg r)"
    by (simp_all add: ring_accepts_def)
  with a(1,2,4) show ?thesis by simp
next
  case False
  from False ring_inv_sizes [OF assms(1)]
  have "\<not> (int (length (ring_list r)) < max_messages (r_cfg r)
      \<and> total_size (ring_list r) + message_size m \<le> max_bytes (r_cfg r))"
    by (simp add: ring_accepts_def)
  with enqueue_reject [OF assms(1,2) False] assms(3) show ?thesis by auto
qed

lemma enqueue_admission_witness:
  "let r1 = snd (enqueue (demo_message 1) demo_ring)
   in (fst (enqueue (demo_message 1) demo_ring) = (StateSpill, None)) \<and> length (ring_list r1) = 1"
proof -
  have res: "fst (enqueue (demo_message 1) demo_ring) = (StateSpill, None)" by code_simp
  then obtain r1 where e: "enqueue (demo_message 1) demo_ring = ((StateSpill, None), r1)"
    by (metis prod.collapse)
  have "ring_inv demo_ring" "ring_list demo_ring = []"
    using new_ring_inv [OF demo_ring_new] by (simp_all add: demo_buffer_config_def)
  with enqueue_admission [OF _ demo_messages_small(1) e] have "ring_list r1 = [demo_message 1]" by simp
  then show ?thesis using res e by (simp only: Let_def snd_conv) simp
qed

lemma ring_pressure_laws:
  assumes "new_ring mk u cfg bm = Returned (Inr r0)" "max_messages cfg < 2 ^ 53" "max_bytes cfg < 2 ^ 53"
    and "spill_threshold cfg \<noteq> NaN" "pause_threshold cfg \<noteq> NaN"
    and "\<And>x. OpEnqueue x \<in> set ops \<Longrightarrow> small_message x" "run_ring ops r0 = (acc, out, r)"
  shows "small_message m \<Longrightarrow> enqueue m r = ((s, None), r') \<Longrightarrow> state_locked r \<le> s"
    and "dequeue n r = (ms, r'') \<Longrightarrow> state_locked r'' \<le> state_locked r"
    and "state_locked r < StatePause \<Longrightarrow> int (length (ring_list r)) < max_messages cfg"
proof -
  have cfg: "r_cfg r0 = cfg" by (rule new_ring_cases [OF assms(1)])
  have p: "pressure_ok r"
    using pressure_ok_limits [OF run_ring_limits [OF assms(7)]] new_ring_pressure_ok [OF assms(1)] assms
    by simp
  have "ring_inv r"
    by (rule conjunct1, rule rq.run_inv [OF new_ring_inv(1) [OF assms(1)] _ assms(7) [unfolded run_ring_def]])
      (use assms in auto)
  note i = this
  show "state_locked r \<le> s" if "small_message m" "enqueue m r = ((s, None), r')"
    using enqueue_sizes [OF i that] state_locked_mono [OF enqueue_limits [OF that(2)] _ _ p] by simp
  show "state_locked r'' \<le> state_locked r" if "dequeue n r = (ms, r'')"
  proof (rule state_locked_mono)
    show "same_limits r'' r" using dequeue_limits [OF that] by (simp add: same_limits_def)
    show "pressure_ok r''" using pressure_ok_limits [OF dequeue_limits [OF that]] p by simp
  qed (use dequeue_sizes [OF i that] in auto)
  have "0 < max_messages cfg" using new_ring_inv(1) [OF assms(1)] assms(3) cfg by (simp add: ring_inv_def)
  then have "int (round53 (nat (max_messages cfg))) = max_messages cfg"
    using assms(2) by (simp add: round53_small nat_less_iff)
  moreover have "r_cfg r = cfg" using run_ring_limits [OF assms(7)] cfg by (simp add: same_limits_def)
  ultimately have "pause_count r \<le> max_messages cfg" using p by (simp add: pressure_ok_def)
  then show "int (length (ring_list r)) < max_messages cfg" if "state_locked r < StatePause"
    using that by (auto simp: state_locked_def less_ring_state_def split: if_splits)
qed

text \<open>C25: the pressure levels. On a ring New built from thresholds that are numbers, the level never
  falls when a message is accepted and never rises when messages are dequeued; below the pause level a
  free slot is left, so a message refused there was refused for its bytes.\<close>
theorem ring_pressure:
  assumes "new_ring mk u cfg bm = Returned (Inr r0)" "max_messages cfg < 2 ^ 53" "max_bytes cfg < 2 ^ 53"
    and "spill_threshold cfg \<noteq> NaN" "pause_threshold cfg \<noteq> NaN"
    and "\<And>x. OpEnqueue x \<in> set ops \<Longrightarrow> small_message x" "run_ring ops r0 = (acc, out, r)"
  shows "(\<forall>m s r'. small_message m \<and> enqueue m r = ((s, None), r') \<longrightarrow> state_locked r \<le> s)
    \<and> (\<forall>n. state_locked (snd (dequeue n r)) \<le> state_locked r)
    \<and> (state_locked r < StatePause \<longrightarrow> int (length (ring_list r)) < max_messages cfg)"
proof -
  note laws = ring_pressure_laws [OF assms]
  have "state_locked (snd (dequeue n r)) \<le> state_locked r" for n
    by (rule laws(2) [OF _ prod.collapse [symmetric]])
  with laws(1,3) show ?thesis by blast
qed

lemma ring_pressure_witness:
  "case run_ring [OpEnqueue (demo_message 1)] demo_ring of
     (acc, out, r) \<Rightarrow> state_locked r = StateSpill \<and> state_locked (snd (dequeue 1 r)) \<le> StateSpill
       \<and> int (length (ring_list r)) < 3"
proof -
  let ?ops = "[OpEnqueue (demo_message 1)]"
  have st: "state_locked (snd (snd (run_ring ?ops demo_ring))) = StateSpill" by code_simp
  obtain acc out r where run: "run_ring ?ops demo_ring = (acc, out, r)" by (metis prod_cases3)
  have "small_message x" if "OpEnqueue x \<in> set ?ops" for x
    using that demo_messages_small by auto
  then have *: "(\<forall>n. state_locked (snd (dequeue n r)) \<le> state_locked r)
      \<and> (state_locked r < StatePause \<longrightarrow> int (length (ring_list r)) < max_messages demo_buffer_config)"
    by (intro ring_pressure [OF demo_ring_new _ _ _ _ _ run, THEN conjunct2])
      (simp_all add: demo_buffer_config_def)
  have "StateSpill < StatePause" by (simp add: less_ring_state_def)
  then show ?thesis using st * unfolding run by (simp add: demo_buffer_config_def)
qed

text \<open>The gauges and counters describe the queue: after any run on a new ring with fresh metrics the
  depth and byte gauges equal the message count and byte count, the capacity gauge is MaxMessages, and
  enqueued minus dequeued is the number of messages held.\<close>
lemma ring_run_gauges:
  assumes "new_ring mk u cfg (Some zero_buffer_metrics) = Returned (Inr r)" "max_bytes cfg < 2 ^ 62"
    and "\<And>x. OpEnqueue x \<in> set ops \<Longrightarrow> small_message x" "run_ring ops r = (acc, out, r')"
  shows "bm_depth (r_m r') = int (length (ring_list r')) \<and> bm_bytes (r_m r') = total_size (ring_list r')
    \<and> bm_capacity (r_m r') = max_messages cfg
    \<and> bm_enqueued (r_m r') - bm_dequeued (r_m r') = int (length (ring_list r'))"
proof -
  have g: "ring_gauges r'"
    by (rule run_queue_preserves [where P = ring_gauges, OF new_ring_gauges [OF assms(1)] _ _ _
          assms(4) [unfolded run_ring_def]])
      (auto intro: enqueue_gauges mark_spilled_gauges dequeue_gauges)
  have i: "ring_inv r'"
    by (rule conjunct1, rule rq.run_inv [OF new_ring_inv(1) [OF assms(1,2)] _ assms(4) [unfolded run_ring_def]])
      (rule assms(3))
  have "r_cfg r' = cfg"
    using run_ring_limits [OF assms(4)] new_ring_cases [OF assms(1)] by (metis same_limits_def)
  with g show ?thesis by (simp add: ring_gauges_def ring_inv_sizes [OF i])
qed

lemma ring_run_gauges_witness:
  "case run_ring [OpEnqueue (demo_message 1), OpEnqueue (demo_message 2), OpDequeue 1] demo_ring of
     (acc, out, r') \<Rightarrow> bm_depth (r_m r') = 1 \<and> bm_enqueued (r_m r') = bm_dequeued (r_m r') + 1"
proof -
  let ?ops = "[OpEnqueue (demo_message 1), OpEnqueue (demo_message 2), OpDequeue 1]"
  have one: "length (ring_list (snd (snd (run_ring ?ops demo_ring)))) = 1" by code_simp
  obtain acc out r' where run: "run_ring ?ops demo_ring = (acc, out, r')" by (metis prod_cases3)
  have "small_message x" if "OpEnqueue x \<in> set ?ops" for x
    using that demo_messages_small by auto
  moreover have "max_bytes demo_buffer_config < 2 ^ 62" by (simp add: demo_buffer_config_def)
  ultimately show ?thesis
    using ring_run_gauges [OF demo_ring_new _ _ run] one unfolding run by simp
qed

end
