(* ===== verification/RingGauges.thy ===== *)
theory RingGauges
  imports Buffer
begin

text \<open>
  Overlapping calls on the ring. Enqueue and Dequeue change the queue under the mutex, release it, and
  only then write the metrics they remembered, one after the other. Here a call is its critical
  section followed by that list of writes, and calls overlap in any way; run without overlap the two
  halves are the operations of Buffer.
\<close>

subsection \<open>Calls in two halves\<close>

datatype metric_write = IncRejected | IncEnqueued | AddDequeued nat | SetDepth nat | SetBytes int | IncSpilled

primrec write_metric :: "metric_write \<Rightarrow> ring \<Rightarrow> ring" where
  "write_metric IncRejected r = r\<lparr>r_m := (r_m r)\<lparr>bm_rejected := bm_rejected (r_m r) + 1\<rparr>\<rparr>"
| "write_metric IncEnqueued r = r\<lparr>r_m := (r_m r)\<lparr>bm_enqueued := bm_enqueued (r_m r) + 1\<rparr>\<rparr>"
| "write_metric (AddDequeued n) r = r\<lparr>r_m := (r_m r)\<lparr>bm_dequeued := bm_dequeued (r_m r) + int n\<rparr>\<rparr>"
| "write_metric (SetDepth n) r = r\<lparr>r_m := (r_m r)\<lparr>bm_depth := int n\<rparr>\<rparr>"
| "write_metric (SetBytes b) r = r\<lparr>r_m := (r_m r)\<lparr>bm_bytes := b\<rparr>\<rparr>"
| "write_metric IncSpilled r = r\<lparr>r_m := (r_m r)\<lparr>bm_spilled := bm_spilled (r_m r) + 1\<rparr>\<rparr>"

definition enqueue_locked :: "message \<Rightarrow> ring \<Rightarrow> (ring_state \<times> go_error option) \<times> metric_write list \<times> ring" where
  \<comment> \<open>up to the Unlock; the list is what is left to write\<close>
  "enqueue_locked m r =
     (let sz = message_size m
      in if int (r_size r) \<ge> max_messages (r_cfg r) \<or> i64 (r_bytes r + sz) > max_bytes (r_cfg r)
         then ((StatePause, Some ErrFull), [IncRejected], r)
         else
           let tail = (r_head r + r_size r) mod nat (max_messages (r_cfg r));
               r' = r\<lparr>r_slots := (r_slots r)[tail := m], r_size := r_size r + 1,
                      r_bytes := i64 (r_bytes r + sz)\<rparr>
           in ((state_locked r', None), [IncEnqueued, SetDepth (r_size r'), SetBytes (r_bytes r')], r'))"

definition dequeue_locked :: "int \<Rightarrow> ring \<Rightarrow> message list \<times> metric_write list \<times> ring" where
  "dequeue_locked n r =
     (if n \<le> 0 then ([], [], r)
      else if r_size r = 0 then ([], [], r)
      else
        let k = (if n > int (r_size r) then r_size r else nat n);
            cap = nat (max_messages (r_cfg r))
        in (case dequeue_loop cap (r_head r) 0 k (r_slots r) [] 0 of
              (out, slots, freed) \<Rightarrow>
                let r' = r\<lparr>r_slots := slots, r_head := (r_head r + k) mod cap,
                           r_size := r_size r - k, r_bytes := i64 (r_bytes r - freed)\<rparr>
                in (out, [AddDequeued k, SetDepth (r_size r'), SetBytes (r_bytes r')], r')))"

lemma enqueue_halves:
  "enqueue m r = (case enqueue_locked m r of (res, ws, r1) \<Rightarrow> (res, fold write_metric ws r1))"
  by (simp add: enqueue_def enqueue_locked_def Let_def)

lemma dequeue_halves:
  "dequeue n r = (case dequeue_locked n r of (out, ws, r1) \<Rightarrow> (out, fold write_metric ws r1))"
  by (simp add: dequeue_def dequeue_locked_def Let_def split: prod.split)

subsection \<open>Overlapping calls\<close>

datatype ring_move = Enter queue_op | Emit nat

record ring_run =
  rr_accepted :: "message list"
  rr_handed :: "message list"
  rr_todo :: "metric_write list list" \<comment> \<open>per call, the metric writes still to come\<close>
  rr_ring :: ring

fun enter_call :: "queue_op \<Rightarrow> ring \<Rightarrow> (message list \<times> message list) \<times> metric_write list \<times> ring" where
  "enter_call (OpEnqueue m) r =
     (case enqueue_locked m r of ((s, err), wr) \<Rightarrow> (((if err = None then [m] else []), []), wr))"
| "enter_call (OpDequeue n) r = (case dequeue_locked n r of (out, wr) \<Rightarrow> (([], out), wr))"
| "enter_call OpMarkSpilled r = (([], []), [IncSpilled], r)"

fun ring_move_step :: "ring_move \<Rightarrow> ring_run \<Rightarrow> ring_run" where
  \<comment> \<open>a call enters its critical section, or call \<open>i\<close> makes its next metric write\<close>
  "ring_move_step (Enter c) y =
     (case enter_call c (rr_ring y) of ((acc, out), ws, r) \<Rightarrow>
        \<lparr>rr_accepted = rr_accepted y @ acc, rr_handed = rr_handed y @ out, rr_todo = rr_todo y @ [ws], rr_ring = r\<rparr>)"
| "ring_move_step (Emit i) y =
     (if i < length (rr_todo y) then
        (case rr_todo y ! i of
           [] \<Rightarrow> y
         | x # xs \<Rightarrow> y\<lparr>rr_todo := (rr_todo y)[i := xs], rr_ring := write_metric x (rr_ring y)\<rparr>)
      else y)"

definition run_calls :: "ring_move list \<Rightarrow> ring \<Rightarrow> ring_run" where
  "run_calls mvs r = fold ring_move_step mvs \<lparr>rr_accepted = [], rr_handed = [], rr_todo = [], rr_ring = r\<rparr>"

fun entered :: "ring_move list \<Rightarrow> queue_op list" where
  \<comment> \<open>the calls, in the order of their critical sections\<close>
  "entered [] = []"
| "entered (Enter c # mvs) = c # entered mvs"
| "entered (Emit i # mvs) = entered mvs"

subsection \<open>Counters add up, gauges may not\<close>

primrec write_net :: "metric_write \<Rightarrow> int" where
  \<comment> \<open>what a write adds to enqueued minus dequeued\<close>
  "write_net IncRejected = 0"
| "write_net IncEnqueued = 1"
| "write_net (AddDequeued n) = - int n"
| "write_net (SetDepth n) = 0"
| "write_net (SetBytes b) = 0"
| "write_net IncSpilled = 0"

definition owed :: "metric_write list list \<Rightarrow> int" where
  "owed todo = sum_list (map (\<lambda>ws. sum_list (map write_net ws)) todo)"

definition booked :: "ring \<Rightarrow> int" where
  "booked r = bm_enqueued (r_m r) - bm_dequeued (r_m r)"

lemma write_metric_frame:
  "booked (write_metric x r) = booked r + write_net x" "\<exists>m. write_metric x r = r\<lparr>r_m := m\<rparr>"
  by (cases x; auto simp: booked_def)+

lemma write_metric_ring [simp]:
  "ring_inv (write_metric x r) = ring_inv r" "ring_list (write_metric x r) = ring_list r"
  using write_metric_frame(2) [of x r] by auto

lemma fold_writes_ring [simp]:
  "ring_inv (fold write_metric ws r) = ring_inv r" "ring_list (fold write_metric ws r) = ring_list r"
  by (induction ws arbitrary: r) auto

lemma owed_simps [simp]: "owed [] = 0" "owed (todo @ [ws]) = owed todo + sum_list (map write_net ws)"
  by (simp_all add: owed_def)

lemma owed_done: "\<forall>ws \<in> set todo. ws = [] \<Longrightarrow> owed todo = 0"
  by (induction todo) (simp_all add: owed_def)

lemma owed_emit: "i < length todo \<Longrightarrow> todo ! i = x # xs \<Longrightarrow> owed (todo[i := xs]) = owed todo - write_net x"
  unfolding owed_def
proof (induction todo arbitrary: i)
  case (Cons ws todo)
  then show ?case by (cases i) auto
qed simp

lemma enter_call_atomic:
  assumes "enter_call c r = ((acc, out), ws, r1)"
  shows "run_ring (c # ops) r
    = (case run_ring ops (fold write_metric ws r1) of (acc2, out2, r2) \<Rightarrow> (acc @ acc2, out @ out2, r2))"
proof (cases c)
  case (OpEnqueue m)
  then show ?thesis using assms
    by (auto simp: run_ring_def enqueue_halves split: prod.splits)
next
  case (OpDequeue n)
  then show ?thesis using assms by (auto simp: run_ring_def dequeue_halves split: prod.splits)
next
  case OpMarkSpilled
  then show ?thesis using assms by (auto simp: run_ring_def mark_spilled_def split: prod.splits)
qed

lemma enter_call_net:
  "enter_call c r = (res, ws, r1) \<Longrightarrow>
    r_m r1 = r_m r \<and> int (length (ring_list r1)) - int (length (ring_list r)) = sum_list (map write_net ws)"
  by (cases c) (auto simp: enqueue_locked_def dequeue_locked_def Let_def split: if_splits prod.splits)

lemma move_step_booked:
  assumes "booked (rr_ring y) + owed (rr_todo y) = int (length (ring_list (rr_ring y)))"
  shows "booked (rr_ring (ring_move_step mv y)) + owed (rr_todo (ring_move_step mv y))
    = int (length (ring_list (rr_ring (ring_move_step mv y))))"
proof (cases mv)
  case (Enter c)
  obtain acc out ws r1 where e: "enter_call c (rr_ring y) = ((acc, out), ws, r1)" by (metis surj_pair)
  show ?thesis using assms enter_call_net [OF e] Enter e by (simp add: booked_def)
next
  case (Emit i)
  show ?thesis
  proof (cases "i < length (rr_todo y) \<and> rr_todo y ! i \<noteq> []")
    case True
    then obtain x xs where x: "rr_todo y ! i = x # xs" by (cases "rr_todo y ! i") auto
    then show ?thesis using assms owed_emit [of i "rr_todo y" x xs] True Emit write_metric_frame(1) by simp
  next
    case False
    then show ?thesis using assms Emit by (auto split: list.splits)
  qed
qed

lemma run_booked:
  "booked (rr_ring y) + owed (rr_todo y) = int (length (ring_list (rr_ring y))) \<Longrightarrow>
    z = fold ring_move_step mvs y \<Longrightarrow> booked (rr_ring z) + owed (rr_todo z) = int (length (ring_list (rr_ring z)))"
proof (induction mvs arbitrary: y)
  case (Cons mv mvs)
  from Cons.IH [OF move_step_booked [OF Cons.prems(1)]] Cons.prems(2) show ?case by simp
qed simp

text \<open>The queue does not depend on the metrics, so overlapping calls act as if one followed the other.\<close>

definition same_queue :: "ring \<Rightarrow> ring \<Rightarrow> bool" where
  "same_queue r s \<longleftrightarrow> (\<exists>m. s = r\<lparr>r_m := m\<rparr>)"

lemma same_queue_refl [simp]: "same_queue r r"
  unfolding same_queue_def by (rule exI [of _ "r_m r"]) simp

lemma same_queue_trans: "same_queue a b \<Longrightarrow> same_queue b c \<Longrightarrow> same_queue a c"
  by (auto simp: same_queue_def)

lemma same_queue_sym: "same_queue a b \<Longrightarrow> same_queue b a"
  unfolding same_queue_def by (metis ring.surjective ring.update_convs(6))

lemma same_queue_write: "same_queue r (write_metric x r)"
  using write_metric_frame(2) by (auto simp: same_queue_def)

lemma same_queue_writes: "same_queue r (fold write_metric ws r)"
  by (induction ws arbitrary: r) (auto intro: same_queue_trans same_queue_write)

lemma same_queue_ring: "same_queue r s \<Longrightarrow> ring_list s = ring_list r"
  by (auto simp: same_queue_def)

lemma enter_call_same:
  assumes "same_queue r s" "enter_call c r = (res, ws, r1)"
  shows "\<exists>s1. enter_call c s = (res, ws, s1) \<and> same_queue r1 s1"
proof -
  obtain m where s: "s = r\<lparr>r_m := m\<rparr>" using assms(1) by (auto simp: same_queue_def)
  have "enter_call c s = (res, ws, r1\<lparr>r_m := m\<rparr>)"
    using assms(2) unfolding s
    by (cases c) (auto simp: enqueue_locked_def dequeue_locked_def state_locked_def Let_def split: prod.splits if_splits)
  then show ?thesis by (auto simp: same_queue_def)
qed

lemma run_calls_atomic:
  assumes "same_queue (rr_ring y) s" "run_ring (entered mvs) s = (acc, out, s')" "z = fold ring_move_step mvs y"
  shows "rr_accepted z = rr_accepted y @ acc \<and> rr_handed z = rr_handed y @ out \<and> same_queue (rr_ring z) s'"
  using assms
proof (induction mvs arbitrary: y s acc out)
  case Nil
  then show ?case by (simp add: run_ring_def)
next
  case (Cons mv mvs)
  show ?case
  proof (cases mv)
    case (Enter c)
    obtain a o1 ws r1 where e: "enter_call c (rr_ring y) = ((a, o1), ws, r1)" by (metis surj_pair)
    from enter_call_same [OF Cons.prems(1) e] obtain s1 where
      s1: "enter_call c s = ((a, o1), ws, s1)" "same_queue r1 s1" by blast
    obtain a2 o2 where r: "run_ring (entered mvs) (fold write_metric ws s1) = (a2, o2, s')" "acc = a @ a2" "out = o1 @ o2"
      using Cons.prems(2) enter_call_atomic [OF s1(1), of "entered mvs"] Enter by (auto split: prod.splits)
    let ?y = "ring_move_step mv y"
    have "same_queue (rr_ring ?y) (fold write_metric ws s1)"
      using s1(2) Enter e by (auto intro: same_queue_trans same_queue_writes)
    from Cons.IH [OF this r(1)] show ?thesis using Cons.prems(3) Enter e r by simp
  next
    case (Emit i)
    let ?y = "ring_move_step mv y"
    have same: "same_queue (rr_ring y) (rr_ring ?y)" "rr_accepted ?y = rr_accepted y" "rr_handed ?y = rr_handed y"
      using Emit by (auto simp: same_queue_write split: list.split)
    have "same_queue (rr_ring ?y) s" using same_queue_trans [OF same_queue_sym [OF same(1)] Cons.prems(1)] .
    from Cons.IH [OF this, of acc out] show ?thesis using Cons.prems Emit same by simp
  qed
qed

subsection \<open>Properties\<close>

text \<open>C12: overlapping calls on the ring act one after the other. However Enqueue, Dequeue and MarkSpilled
  overlap on a new ring, what they accept and hand out and the queue they leave are those of the same
  calls run without overlap, in the order in which they held the mutex; and once every call has made its
  metric writes, the enqueued counter minus the dequeued counter is the number of messages held.\<close>
theorem overlapping_calls_serialise:
  assumes "new_ring mk u cfg (Some zero_buffer_metrics) = Returned (Inr r)"
    and "run_ring (entered mvs) r = (acc, out, s)" "run_calls mvs r = z"
  shows "rr_accepted z = acc \<and> rr_handed z = out \<and> ring_list (rr_ring z) = ring_list s
    \<and> ((\<forall>ws \<in> set (rr_todo z). ws = []) \<longrightarrow>
        bm_enqueued (r_m (rr_ring z)) - bm_dequeued (r_m (rr_ring z)) = int (length (ring_list s)))"
proof -
  let ?y = "\<lparr>rr_accepted = [], rr_handed = [], rr_todo = [], rr_ring = r\<rparr>"
  have z: "z = fold ring_move_step mvs ?y" using assms(3) by (simp add: run_calls_def)
  have "same_queue (rr_ring ?y) r" by simp
  note a = run_calls_atomic [OF this assms(2) z]
  have l: "ring_list (rr_ring z) = ring_list s" using a same_queue_ring by metis
  have "ring_gauges r" by (rule new_ring_gauges [OF assms(1)])
  then have "booked (rr_ring z) + owed (rr_todo z) = int (length (ring_list (rr_ring z)))"
    by (intro run_booked [OF _ z]) (simp add: booked_def ring_gauges_def)
  with l have b: "bm_enqueued (r_m (rr_ring z)) - bm_dequeued (r_m (rr_ring z)) + owed (rr_todo z)
      = int (length (ring_list s))" by (simp add: booked_def)
  show ?thesis using a
  proof (intro conjI impI l)
    assume "\<forall>ws \<in> set (rr_todo z). ws = []"
    with b owed_done show "bm_enqueued (r_m (rr_ring z)) - bm_dequeued (r_m (rr_ring z)) = int (length (ring_list s))"
      by fastforce
  qed simp_all
qed

definition late_writes :: "ring_move list" where
  \<comment> \<open>a worker empties the ring between the Unlock of Enqueue and its writes\<close>
  "late_writes = [Enter (OpEnqueue (demo_message 1)), Enter (OpDequeue 1), Emit 1, Emit 1, Emit 1, Emit 0, Emit 0, Emit 0]"

lemma overlapping_calls_serialise_witness:
  "rr_handed (run_calls late_writes demo_ring) = [demo_message 1] \<and> ring_list (rr_ring (run_calls late_writes demo_ring)) = []"
proof -
  obtain acc out s where run: "run_ring (entered late_writes) demo_ring = (acc, out, s)" by (metis prod_cases3)
  have "fst (snd (run_ring (entered late_writes) demo_ring)) = [demo_message 1]"
    "ring_list (snd (snd (run_ring (entered late_writes) demo_ring))) = []" by code_simp+
  with overlapping_calls_serialise [OF demo_ring_new run refl] run show ?thesis by simp
qed

text \<open>The gauges are not part of that. There is an overlap of one Enqueue and one Dequeue on a new ring,
  all their writes made, that leaves the ring empty and its depth gauge at 1 and its byte gauge at the size of
  the message: each gauge is set outside the mutex, and the older value may come last.\<close>
lemma gauges_left_stale:
  "\<exists>mvs. entered mvs = [OpEnqueue (demo_message 1), OpDequeue 1]
    \<and> concat (rr_todo (run_calls mvs demo_ring)) = []
    \<and> ring_list (rr_ring (run_calls mvs demo_ring)) = []
    \<and> bm_depth (r_m (rr_ring (run_calls mvs demo_ring))) = 1
    \<and> bm_bytes (r_m (rr_ring (run_calls mvs demo_ring))) = message_size (demo_message 1)"
proof (intro exI [of _ late_writes] conjI)
  show "entered late_writes = [OpEnqueue (demo_message 1), OpDequeue 1]" by (simp add: late_writes_def)
  show "concat (rr_todo (run_calls late_writes demo_ring)) = []" by code_simp
  show "ring_list (rr_ring (run_calls late_writes demo_ring)) = []" by code_simp
  show "bm_depth (r_m (rr_ring (run_calls late_writes demo_ring))) = 1" by code_simp
  show "bm_bytes (r_m (rr_ring (run_calls late_writes demo_ring))) = message_size (demo_message 1)" by code_simp
qed

end
