(* ===== verification/Topic.thy ===== *)
theory Topic
  imports Prelude
begin

text \<open>
  internal/subscriber/topic.go: ParseTopic, which reads tenant and device out of an MQTT topic of
  the form \<open>t/{tenant}/d/{device_uuid}/evt/...\<close>, and its error classes. uuid.Parse is the argument
  \<open>uuid_parse\<close> of the definitions.
\<close>

definition topic_err_too_long :: string where "topic_err_too_long = ''topic_too_long''"
definition topic_err_structure :: string where "topic_err_structure = ''topic_structure''"
definition topic_err_tenant_invalid :: string where "topic_err_tenant_invalid = ''tenant_invalid''"
definition topic_err_device_uuid :: string where "topic_err_device_uuid = ''device_uuid_invalid''"

definition max_topic_len :: nat where "max_topic_len = 1024"
definition max_tenant_len :: nat where "max_tenant_len = 64"

lemmas topic_consts = topic_err_too_long_def topic_err_structure_def topic_err_tenant_invalid_def
  topic_err_device_uuid_def max_topic_len_def max_tenant_len_def

definition tenant_char :: "char \<Rightarrow> bool" where
  "tenant_char c \<longleftrightarrow>
     (let n = (of_char c :: nat)
      in 97 \<le> n \<and> n \<le> 122 \<or> 65 \<le> n \<and> n \<le> 90 \<or> 48 \<le> n \<and> n \<le> 57 \<or> n = 95 \<or> n = 45)"

definition tenant_re :: "string \<Rightarrow> bool" where
  \<comment> \<open>MatchString of \<open>^[a-zA-Z0-9_-]+$\<close>\<close>
  "tenant_re s \<longleftrightarrow> s \<noteq> [] \<and> list_all tenant_char s"

record parsed_topic =
  pt_tenant :: string
  pt_device :: uuid

definition topic_error_text :: "string \<Rightarrow> string \<Rightarrow> string" where
  \<comment> \<open>\<open>(*TopicParseError).Error\<close>\<close>
  "topic_error_text class detail =
     (if detail = '''' then ''subscriber: bad topic: '' @ class
      else ''subscriber: bad topic: '' @ class @ '': '' @ detail)"

definition parse_topic :: "(string \<Rightarrow> go_error + uuid) \<Rightarrow> string \<Rightarrow> go_error + parsed_topic" where
  "parse_topic uuid_parse topic =
     (if length topic > max_topic_len then
        Inl (TopicParseError topic_err_too_long (''len='' @ show_nat (length topic)))
      else
        let parts = split_on CHR ''/'' topic
        in if length parts < 5 \<or> parts ! 0 \<noteq> ''t'' \<or> parts ! 2 \<noteq> ''d'' \<or> parts ! 4 \<noteq> ''evt'' then
             Inl (TopicParseError topic_err_structure '''')
           else
             let tenant = parts ! 1
             in if length tenant = 0 \<or> length tenant > max_tenant_len \<or> \<not> tenant_re tenant then
                  Inl (TopicParseError topic_err_tenant_invalid tenant)
                else
                  (case uuid_parse (parts ! 3) of
                     Inl err \<Rightarrow> Inl (TopicParseError topic_err_device_uuid (parts ! 3))
                   | Inr uid \<Rightarrow> Inr \<lparr>pt_tenant = tenant, pt_device = uid\<rparr>))"

subsection \<open>What the parser accepts\<close>

definition valid_tenant :: "string \<Rightarrow> bool" where
  "valid_tenant s \<longleftrightarrow> 1 \<le> length s \<and> length s \<le> 64 \<and> list_all tenant_char s"

lemma valid_tenant_iff:
  "valid_tenant s \<longleftrightarrow> \<not> (length s = 0 \<or> length s > max_tenant_len \<or> \<not> tenant_re s)"
  by (auto simp: valid_tenant_def tenant_re_def max_tenant_len_def Suc_le_eq)

lemma tenant_char_not_slash: "tenant_char c \<Longrightarrow> c \<noteq> CHR ''/''"
  by (auto simp: tenant_char_def)

lemma valid_tenant_no_slash: "valid_tenant s \<Longrightarrow> CHR ''/'' \<notin> set s"
  by (auto simp: valid_tenant_def list_all_iff dest: tenant_char_not_slash)

lemma five_parts:
  "5 \<le> length parts \<Longrightarrow> \<exists>a b c d e rest. parts = a # b # c # d # e # rest"
  by (auto simp: numeral_eq_Suc Suc_le_length_iff)

lemma parse_topic_Inr_parts:
  "parse_topic up t = Inr p \<longleftrightarrow>
     length t \<le> max_topic_len
     \<and> (\<exists>dev rest. split_on CHR ''/'' t = ''t'' # pt_tenant p # ''d'' # dev # ''evt'' # rest
          \<and> up dev = Inr (pt_device p))
     \<and> valid_tenant (pt_tenant p)"
  (is "?L \<longleftrightarrow> ?R")
proof
  assume L: ?L
  then have len: "length t \<le> max_topic_len" and parts: "5 \<le> length (split_on CHR ''/'' t)"
    by (auto simp: parse_topic_def Let_def split: if_splits)
  from five_parts [OF parts] obtain a b c d e rest
    where "split_on CHR ''/'' t = a # b # c # d # e # rest" by auto
  with L len show ?R
    by (auto simp: parse_topic_def Let_def valid_tenant_iff split: if_splits sum.splits)
next
  assume ?R
  then show ?L by (auto simp: parse_topic_def Let_def valid_tenant_iff)
qed

lemma topic_shape:
  assumes "CHR ''/'' \<notin> set tn"
  shows "split_on CHR ''/'' t = ''t'' # tn # ''d'' # dev # ''evt'' # rest \<longleftrightarrow>
    t = join_with CHR ''/'' (''t'' # tn # ''d'' # dev # ''evt'' # rest)
    \<and> CHR ''/'' \<notin> set dev \<and> (\<forall>s \<in> set rest. CHR ''/'' \<notin> set s)"
  (is "?L \<longleftrightarrow> ?R")
proof
  assume L: ?L
  then have "t = join_with CHR ''/'' (''t'' # tn # ''d'' # dev # ''evt'' # rest)"
    by (metis join_split)
  moreover have "CHR ''/'' \<notin> set p" if "p \<in> set (''t'' # tn # ''d'' # dev # ''evt'' # rest)" for p
    using that L split_on_no_sep [of p "CHR ''/''" t] by simp
  ultimately show ?R by simp
next
  assume R: ?R
  then have "split_on CHR ''/'' t
    = split_on CHR ''/'' (join_with CHR ''/'' (''t'' # tn # ''d'' # dev # ''evt'' # rest))" by simp
  also have "\<dots> = ''t'' # tn # ''d'' # dev # ''evt'' # rest"
    by (rule split_join) (use R assms in auto)
  finally show ?L .
qed

text \<open>
  The class of the error an operator groups by. A rejected topic gets exactly one class, chosen by
  the first rule it breaks, in the order length, structure, tenant, device.
\<close>

definition structure_ok :: "string \<Rightarrow> bool" where
  "structure_ok t \<longleftrightarrow> (\<exists>tn dev rest. split_on CHR ''/'' t = ''t'' # tn # ''d'' # dev # ''evt'' # rest)"

lemma structure_ok_code:
  "structure_ok t \<longleftrightarrow>
     (let parts = split_on CHR ''/'' t
      in 5 \<le> length parts \<and> parts ! 0 = ''t'' \<and> parts ! 2 = ''d'' \<and> parts ! 4 = ''evt'')"
  by (auto simp: structure_ok_def Let_def dest!: five_parts)

lemma parse_topic_error_classes:
  assumes "parse_topic up t = Inl e"
  obtains
    "max_topic_len < length t"
    "e = TopicParseError topic_err_too_long (''len='' @ show_nat (length t))"
  | "length t \<le> max_topic_len" "\<not> structure_ok t" "e = TopicParseError topic_err_structure ''''"
  | tn dev rest where "length t \<le> max_topic_len"
    "split_on CHR ''/'' t = ''t'' # tn # ''d'' # dev # ''evt'' # rest"
    "\<not> valid_tenant tn" "e = TopicParseError topic_err_tenant_invalid tn"
  | tn dev rest u where "length t \<le> max_topic_len"
    "split_on CHR ''/'' t = ''t'' # tn # ''d'' # dev # ''evt'' # rest"
    "valid_tenant tn" "up dev = Inl u" "e = TopicParseError topic_err_device_uuid dev"
proof (cases "max_topic_len < length t")
  case True
  with assms that(1) show ?thesis by (auto simp: parse_topic_def)
next
  case len: False
  show ?thesis
  proof (cases "structure_ok t")
    case False
    with assms len that(2) show ?thesis
      by (auto simp: parse_topic_def structure_ok_code Let_def not_less)
  next
    case True
    then obtain tn dev rest where
      parts: "split_on CHR ''/'' t = ''t'' # tn # ''d'' # dev # ''evt'' # rest"
      by (auto simp: structure_ok_def)
    with assms len that(3) [OF _ parts] that(4) [OF _ parts] show ?thesis
      by (auto simp: parse_topic_def Let_def valid_tenant_iff not_less split: if_splits sum.splits)
  qed
qed


subsection \<open>Properties of the parser\<close>

definition demo_uuid_parse :: "string \<Rightarrow> go_error + uuid" where
  \<comment> \<open>a stand-in for \<open>uuid.Parse\<close>: sixteen bytes, one per character\<close>
  "demo_uuid_parse s = (if length s = 16 then Inr (map (\<lambda>c. of_nat (of_char c)) s)
     else Inl (ErrText ''invalid UUID length''))"

text \<open>C23: the grammar. ParseTopic accepts exactly the topics of at most 1024 bytes that read
  t/TENANT/d/DEVICE/evt, with any further segments, where TENANT is a slug of 1 to 64 characters of
  the class and DEVICE is what the UUID parser accepts; it returns this tenant and this device.\<close>
theorem parse_topic_grammar:
  "parse_topic up t = Inr p \<longleftrightarrow>
     length t \<le> 1024 \<and> valid_tenant (pt_tenant p)
     \<and> (\<exists>dev rest. t = join_with CHR ''/'' (''t'' # pt_tenant p # ''d'' # dev # ''evt'' # rest)
          \<and> CHR ''/'' \<notin> set dev \<and> (\<forall>s \<in> set rest. CHR ''/'' \<notin> set s) \<and> up dev = Inr (pt_device p))"
proof (cases "valid_tenant (pt_tenant p)")
  case True
  note shape = topic_shape [OF valid_tenant_no_slash [OF True]]
  show ?thesis unfolding parse_topic_Inr_parts shape using True by (auto simp: max_topic_len_def)
next
  case False
  then show ?thesis by (simp add: parse_topic_Inr_parts)
qed

lemma parse_topic_grammar_witness:
  "parse_topic demo_uuid_parse ''t/acme-1/d/0123456789abcdef/evt/temp''
     = Inr \<lparr>pt_tenant = ''acme-1'', pt_device = map (\<lambda>c. of_nat (of_char c)) ''0123456789abcdef''\<rparr>"
proof -
  have "valid_tenant ''acme-1''" by code_simp
  moreover have "''t/acme-1/d/0123456789abcdef/evt/temp''
      = join_with CHR ''/'' (''t'' # ''acme-1'' # ''d'' # ''0123456789abcdef'' # ''evt'' # [''temp''])"
    by code_simp
  moreover have "CHR ''/'' \<notin> set ''0123456789abcdef''" "\<forall>s \<in> set [''temp'']. CHR ''/'' \<notin> set s"
    by code_simp+
  ultimately show ?thesis
    unfolding parse_topic_grammar by (auto simp: demo_uuid_parse_def intro!: exI [of _ "''0123456789abcdef''"]
      exI [of _ "[''temp'']"])
qed

text \<open>The error classes. Every rejection is a TopicParseError whose class is the first rule the topic
  breaks: the length limit, the segment structure, the tenant slug (the detail is the tenant) or the
  device (the detail is the segment the UUID parser refused); the first two classes exactly
  characterise their cause.\<close>
lemma parse_topic_error_class:
  assumes "parse_topic up t = Inl e"
  shows "\<exists>c d. e = TopicParseError c d \<and> as_topic_error (Wrapped ''handler'' e) = Some (c, d)
    \<and> c \<in> {topic_err_too_long, topic_err_structure, topic_err_tenant_invalid, topic_err_device_uuid}
    \<and> (c = topic_err_too_long \<longleftrightarrow> 1024 < length t)
    \<and> (c = topic_err_structure \<longleftrightarrow> length t \<le> 1024 \<and> \<not> structure_ok t)
    \<and> (c = topic_err_tenant_invalid \<longrightarrow> \<not> valid_tenant d)
    \<and> (c = topic_err_device_uuid \<longrightarrow> (\<exists>u. up d = Inl u) \<and> CHR ''/'' \<notin> set d)"
  using assms
proof (cases rule: parse_topic_error_classes)
  case (4 tn dev rest u)
  then have "structure_ok t" "CHR ''/'' \<notin> set dev"
    using split_on_no_sep [of dev "CHR ''/''" t] by (auto simp: structure_ok_def)
  with 4 show ?thesis by (auto simp: topic_consts)
next
  case (3 tn dev rest)
  then have "structure_ok t" by (auto simp: structure_ok_def)
  with 3 show ?thesis by (auto simp: topic_consts)
qed (auto simp: topic_consts)

lemma parse_topic_error_class_witness:
  "\<exists>d. parse_topic demo_uuid_parse ''t/a b/d/x/evt'' = Inl (TopicParseError ''tenant_invalid'' d)
     \<and> \<not> valid_tenant d"
proof -
  let ?t = "''t/a b/d/x/evt''"
  have e: "parse_topic demo_uuid_parse ?t = Inl (TopicParseError topic_err_tenant_invalid ''a b'')"
    by code_simp
  from parse_topic_error_class [OF e] have "\<not> valid_tenant ''a b''" by auto
  with e show ?thesis by (auto simp: topic_err_tenant_invalid_def)
qed

end
