(* ===== verification/Wal.thy ===== *)
theory Wal
  imports Postgres Metrics
begin

text \<open>
  internal/wal/wal.go: the overflow log on Badger. Badger is the record \<open>badger\<close> of operations on a
  database \<open>'db\<close> and a transaction \<open>'tx\<close>: an iterator over a snapshot is the list of its items in
  key order, each with its expiry flag and its value or the error of reading it. The gob codec is a
  pair of functions on the record that goes to disk. A key is the text the code builds; the clock
  reading of each call is an argument. The slices Drain makes for \<open>limit\<close> entries are taken to be made. What Badger and gob promise is \<open>badger_contract\<close> and
  \<open>gob_contract\<close>; the provider's laws of the log interface (\<open>message_log\<close>) follow from them.
\<close>

subsection \<open>Keys\<close>

definition key_prefix :: string where "key_prefix = ''msg:''"

fun write_padded_loop :: "nat \<Rightarrow> 64 word \<Rightarrow> string \<Rightarrow> string" where
  \<comment> \<open>\<open>raw\<close> is filled from its last byte down; the bytes already written are the accumulator\<close>
  "write_padded_loop 0 n raw = raw"
| "write_padded_loop (Suc i) n raw = write_padded_loop i (n div 10) (digit (unat (n mod 10)) # raw)"

definition write_padded20 :: "64 word \<Rightarrow> string" where
  "write_padded20 n = write_padded_loop 20 n ''''"

definition key_text :: "64 word \<Rightarrow> 64 word \<Rightarrow> string" where
  "key_text nanos seq = key_prefix @ write_padded20 nanos @ '':'' @ write_padded20 seq"

fun parse_digits :: "string \<Rightarrow> int \<Rightarrow> int option" where
  "parse_digits [] nanos = Some nanos"
| "parse_digits (c # cs) nanos =
     (if \<not> is_digit c then None else parse_digits cs (i64 (i64 (nanos * 10) + int (undigit c))))"

definition parse_key_time :: "string \<Rightarrow> int option" where
  "parse_key_time key =
     (if length key < length key_prefix + 20 + 1 then None
      else if \<not> has_prefix key key_prefix then None
      else parse_digits (take 20 (drop (length key_prefix) key)) 0)"

subsection \<open>The record on disk\<close>

record wal_record =
  wr_tenant_id :: string
  wr_device_uuid :: bytes
  wr_topic :: string
  wr_payload :: bytes
  wr_received_at :: time
  wr_dedup_key :: string

record gob =
  gob_encode :: "wal_record \<Rightarrow> go_error + byte list"
  gob_decode :: "byte list \<Rightarrow> go_error + wal_record"

definition encode_message :: "gob \<Rightarrow> message \<Rightarrow> go_error + byte list" where
  "encode_message g m = gob_encode g
     \<lparr>wr_tenant_id = tenant_id m, wr_device_uuid = Some (device_uuid m), wr_topic = topic m,
      wr_payload = payload m, wr_received_at = received_at m, wr_dedup_key = dedup_key m\<rparr>"

definition decode_message :: "gob \<Rightarrow> byte list \<Rightarrow> go_error + message" where
  "decode_message g b =
     (case gob_decode g b of
        Inl e \<Rightarrow> Inl e
      | Inr rec \<Rightarrow>
          if go_len (wr_device_uuid rec) \<noteq> 16
          then Inl (ErrText (''wal: bad uuid length '' @ show_nat (go_len (wr_device_uuid rec))))
          else Inr \<lparr>tenant_id = wr_tenant_id rec, device_uuid = bytes_of (wr_device_uuid rec),
            topic = wr_topic rec, payload = wr_payload rec, received_at = wr_received_at rec,
            dedup_key = wr_dedup_key rec\<rparr>)"

subsection \<open>Badger and the store\<close>

record item =
  it_key :: string
  it_expired :: bool
  it_value :: "go_error + byte list"

record ('db, 'tx) badger =
  bd_closed :: "'db \<Rightarrow> go_error option"
  bd_items :: "'db \<Rightarrow> item list"
  bd_txn :: "'db \<Rightarrow> 'tx"
  txn_set :: "string \<Rightarrow> byte list \<Rightarrow> duration option \<Rightarrow> 'tx \<Rightarrow> go_error option \<times> 'tx"
  txn_delete :: "string \<Rightarrow> 'tx \<Rightarrow> go_error option \<times> 'tx"
  bd_commit :: "'tx \<Rightarrow> 'db \<Rightarrow> go_error option \<times> 'db"
  bd_size :: "'db \<Rightarrow> int \<times> int"

definition bd_view :: "('db, 'tx) badger \<Rightarrow> (item list \<Rightarrow> go_error + 'a) \<Rightarrow> 'db \<Rightarrow> go_error + 'a" where
  \<comment> \<open>\<open>db.View(fn)\<close>\<close>
  "bd_view b fn db = (case bd_closed b db of Some e \<Rightarrow> Inl e | None \<Rightarrow> fn (bd_items b db))"

definition bd_update ::
  "('db, 'tx) badger \<Rightarrow> ('tx \<Rightarrow> go_error option \<times> 'tx) \<Rightarrow> 'db \<Rightarrow> go_error option \<times> 'db" where
  \<comment> \<open>\<open>db.Update(fn)\<close>: a function that fails discards the transaction\<close>
  "bd_update b fn db =
     (case bd_closed b db of
        Some e \<Rightarrow> (Some e, db)
      | None \<Rightarrow> (case fn (bd_txn b db) of
            (Some e, tx) \<Rightarrow> (Some e, db)
          | (None, tx) \<Rightarrow> bd_commit b tx db))"

definition seek :: "item list \<Rightarrow> item list" where
  \<comment> \<open>\<open>it.Seek(prefix)\<close>\<close>
  "seek = dropWhile (\<lambda>it. it_key it < key_prefix)"

record wal_config =
  wc_path :: string
  wc_ttl :: duration
  wc_sync_writes :: bool
  wc_value_log_file_size :: int

record 'db wal_store =
  ws_db :: 'db
  ws_cfg :: wal_config
  ws_m :: wal_metrics
  ws_seq :: "64 word"

definition wal_open ::
  "(string \<Rightarrow> bool \<Rightarrow> int option \<Rightarrow> go_error + 'db) \<Rightarrow> wal_config \<Rightarrow> wal_metrics option
   \<Rightarrow> go_error + 'db wal_store" where
  \<comment> \<open>\<open>badger_open\<close> takes the path, the SyncWrites option and the value log size where one is set\<close>
  "wal_open badger_open cfg m =
     (if wc_path cfg = '''' then Inl (ErrText ''wal: Path required'')
      else (case m of
          None \<Rightarrow> Inl (ErrText ''wal: metrics required'')
        | Some wm \<Rightarrow>
            (case badger_open (wc_path cfg) (wc_sync_writes cfg)
                (if wc_value_log_file_size cfg > 0 then Some (wc_value_log_file_size cfg) else None) of
               Inl e \<Rightarrow> Inl (Wrapped ''open badger %q'' e)
             | Inr db \<Rightarrow> Inr \<lparr>ws_db = db, ws_cfg = cfg, ws_m = wm, ws_seq = 0\<rparr>)))"

definition make_key :: "time \<Rightarrow> 'db wal_store \<Rightarrow> string \<times> 'db wal_store" where
  "make_key at s =
     (let seq = ws_seq s + 1
      in (key_text (word_of_int (unix_nano at)) seq, s\<lparr>ws_seq := seq\<rparr>))"

subsection \<open>Append and Drain\<close>

definition wal_append ::
  "('db, 'tx) badger \<Rightarrow> gob \<Rightarrow> time \<Rightarrow> message \<Rightarrow> 'db wal_store \<Rightarrow> (go_error + string) \<times> 'db wal_store" where
  "wal_append b g now msg s =
     (case make_key now s of
        (key, s1) \<Rightarrow>
          (case encode_message g msg of
             Inl e \<Rightarrow> (Inl (Wrapped ''encode'' e), s1)
           | Inr value \<Rightarrow>
               (case bd_update b (txn_set b key value
                   (if wc_ttl (ws_cfg s1) > 0 then Some (wc_ttl (ws_cfg s1)) else None)) (ws_db s1) of
                  (Some e, db') \<Rightarrow> (Inl (Wrapped ''badger set'' e), s1\<lparr>ws_db := db'\<rparr>)
                | (None, db') \<Rightarrow>
                    (Inr key, s1\<lparr>ws_db := db',
                       ws_m := (ws_m s1)\<lparr>wm_appended := wm_appended (ws_m s1) + 1\<rparr>\<rparr>))))"

fun drain_loop ::
  "gob \<Rightarrow> nat \<Rightarrow> item list \<Rightarrow> message list \<Rightarrow> string list \<Rightarrow> go_error + message list \<times> string list" where
  "drain_loop g limit [] out keys = Inr (out, keys)"
| "drain_loop g limit (it # its) out keys =
     (if \<not> (has_prefix (it_key it) key_prefix \<and> length out < limit) then Inr (out, keys)
      else if it_expired it then drain_loop g limit its out keys
      else (case it_value it of
          Inl e \<Rightarrow> Inl e
        | Inr val \<Rightarrow>
            (case decode_message g val of
               Inl e \<Rightarrow> Inl e
             | Inr msg \<Rightarrow> drain_loop g limit its (out @ [msg]) (keys @ [it_key it]))))"

fun delete_loop :: "('db, 'tx) badger \<Rightarrow> string list \<Rightarrow> 'tx \<Rightarrow> go_error option \<times> 'tx" where
  "delete_loop b [] tx = (None, tx)"
| "delete_loop b (k # ks) tx =
     (case txn_delete b k tx of
        (Some e, tx') \<Rightarrow> (Some e, tx')
      | (None, tx') \<Rightarrow> delete_loop b ks tx')"

definition wal_drain ::
  "('db, 'tx) badger \<Rightarrow> gob \<Rightarrow> int \<Rightarrow> 'db wal_store \<Rightarrow> (go_error + message list) \<times> 'db wal_store" where
  "wal_drain b g limit s =
     (if limit \<le> 0 then (Inr [], s)
      else (case bd_view b (\<lambda>items. drain_loop g (nat limit) (seek items) [] []) (ws_db s) of
          Inl e \<Rightarrow> (Inl (Wrapped ''read'' e), s)
        | Inr (out, keys) \<Rightarrow>
            if keys = [] then (Inr [], s)
            else (case bd_update b (delete_loop b keys) (ws_db s) of
                (Some e, db') \<Rightarrow> (Inl (Wrapped ''delete'' e), s\<lparr>ws_db := db'\<rparr>)
              | (None, db') \<Rightarrow>
                  (Inr out, s\<lparr>ws_db := db',
                     ws_m := (ws_m s)\<lparr>wm_drained := wm_drained (ws_m s) + int (length out)\<rparr>\<rparr>))))"

subsection \<open>Len, oldestEntryTime, RefreshMetrics\<close>

fun len_loop :: "item list \<Rightarrow> nat \<Rightarrow> nat" where
  "len_loop [] n = n"
| "len_loop (it # its) n =
     (if \<not> has_prefix (it_key it) key_prefix then n
      else len_loop its (if it_expired it then n else n + 1))"

definition wal_len :: "('db, 'tx) badger \<Rightarrow> 'db wal_store \<Rightarrow> go_error + nat" where
  "wal_len b s = bd_view b (\<lambda>items. Inr (len_loop (seek items) 0)) (ws_db s)"

fun oldest_loop :: "item list \<Rightarrow> time" where
  "oldest_loop [] = zero_time"
| "oldest_loop (it # its) =
     (if \<not> has_prefix (it_key it) key_prefix then zero_time
      else if it_expired it then oldest_loop its
      else (case parse_key_time (it_key it) of Some nanos \<Rightarrow> nanos | None \<Rightarrow> zero_time))"

definition oldest_entry_time :: "('db, 'tx) badger \<Rightarrow> 'db wal_store \<Rightarrow> go_error + time" where
  "oldest_entry_time b s = bd_view b (\<lambda>items. Inr (oldest_loop (seek items))) (ws_db s)"

definition refresh_metrics ::
  "('db, 'tx) badger \<Rightarrow> time \<Rightarrow> 'db wal_store \<Rightarrow> go_error option \<times> 'db wal_store" where
  "refresh_metrics b now s =
     (case wal_len b s of
        Inl e \<Rightarrow> (Some e, s)
      | Inr n \<Rightarrow>
          let m1 = (ws_m s)\<lparr>wm_entries := int n,
                wm_bytes_on_disk := i64 (fst (bd_size b (ws_db s)) + snd (bd_size b (ws_db s)))\<rparr>
          in (case oldest_entry_time b s of
                Inl e \<Rightarrow> (Some e, s\<lparr>ws_m := m1\<rparr>)
              | Inr oldest \<Rightarrow>
                  (None, s\<lparr>ws_m := m1\<lparr>wm_oldest_age :=
                     if oldest = zero_time then 0 else time_sub now oldest\<rparr>\<rparr>)))"


subsection \<open>Key text: order and round trip\<close>

fun pad :: "nat \<Rightarrow> nat \<Rightarrow> string" where
  \<comment> \<open>the last \<open>k\<close> decimal digits of a number\<close>
  "pad 0 n = []"
| "pad (Suc k) n = pad k (n div 10) @ [digit (n mod 10)]"

lemma write_padded_loop_pad: "write_padded_loop k n raw = pad k (unat n) @ raw"
proof (induction k arbitrary: n raw)
  case (Suc k)
  have "unat (n div 10) = unat n div 10" "unat (n mod 10) = unat n mod 10"
    by (simp_all add: unat_div unat_mod)
  then show ?case by (simp add: Suc)
qed simp

lemma write_padded20_pad: "write_padded20 n = pad 20 (unat n)"
  by (simp add: write_padded20_def write_padded_loop_pad)

lemma length_pad [simp]: "length (pad k n) = k"
  by (induction k arbitrary: n) auto

lemma pad_digits: "c \<in> set (pad k n) \<Longrightarrow> is_digit c"
  by (induction k arbitrary: n) auto

lemma digit_less: "a < 10 \<Longrightarrow> b < 10 \<Longrightarrow> digit a < digit b \<longleftrightarrow> a < b"
  by (simp add: less_char_def of_char_digit)

lemma append_same_length_less:
  fixes p q :: "'a::linorder list"
  shows "length p = length q \<Longrightarrow> p @ r < q @ s \<longleftrightarrow> p < q \<or> p = q \<and> r < s"
  by (induction p q rule: list_induct2) auto

lemma pad_less: "a < 10 ^ k \<Longrightarrow> b < 10 ^ k \<Longrightarrow> pad k a < pad k b \<longleftrightarrow> a < b"
proof (induction k arbitrary: a b)
  case (Suc k)
  have div: "a div 10 < 10 ^ k" "b div 10 < 10 ^ k" using Suc.prems by (simp_all add: div_less_iff_less_mult mult.commute)
  have eq: "pad k x = pad k y \<longleftrightarrow> x = y" if "x < 10 ^ k" "y < 10 ^ k" for x y
    using Suc.IH [OF that] Suc.IH [OF that(2,1)] by (cases x y rule: linorder_cases) auto
  have lex: "a < b \<longleftrightarrow> a div 10 < b div 10 \<or> a div 10 = b div 10 \<and> a mod 10 < b mod 10"
    using mult_div_mod_eq [of 10 a] mult_div_mod_eq [of 10 b] mod_less_divisor [of 10 a]
      mod_less_divisor [of 10 b] by linarith
  have "pad k (a div 10) @ [digit (a mod 10)] < pad k (b div 10) @ [digit (b mod 10)]
      \<longleftrightarrow> pad k (a div 10) < pad k (b div 10)
        \<or> pad k (a div 10) = pad k (b div 10) \<and> [digit (a mod 10)] < [digit (b mod 10)]"
    by (rule append_same_length_less) simp
  then show ?case unfolding lex pad.simps Suc.IH [OF div] eq [OF div] by (simp add: digit_less)
qed simp

lemma unat_less_pad: "unat (n :: 64 word) < 10 ^ 20"
proof -
  have "unat n < 2 ^ LENGTH(64)" by (rule unsigned_less)
  then show ?thesis by simp
qed

lemma write_padded20_less: "write_padded20 a < write_padded20 b \<longleftrightarrow> a < b"
  by (simp only: write_padded20_pad pad_less [OF unat_less_pad unat_less_pad] word_less_nat_alt)

lemma write_padded20_inj: "write_padded20 a = write_padded20 b \<longleftrightarrow> a = b"
  by (metis write_padded20_less linorder_less_linear less_irrefl)

lemma length_write_padded20 [simp]: "length (write_padded20 n) = 20"
  by (simp add: write_padded20_pad)

lemma key_text_less:
  "key_text n q < key_text n' q' \<longleftrightarrow> n < n' \<or> n = n' \<and> q < q'"
  by (simp add: key_text_def key_prefix_def append_same_length_less write_padded20_less write_padded20_inj)

lemma key_text_inj: "key_text n q = key_text n' q' \<longleftrightarrow> n = n' \<and> q = q'"
  using key_text_less [of n q n' q'] key_text_less [of n' q' n q]
  by (metis less_irrefl linorder_less_linear)

lemma has_prefix_key_text [simp]: "has_prefix (key_text n q) key_prefix"
  by (simp add: has_prefix_def key_text_def)

lemma undigit_less: "is_digit c \<Longrightarrow> undigit c < 10"
  by (auto simp: is_digit_def undigit_def)

lemma i64_step:
  assumes "v mod 2 ^ 64 = x mod 2 ^ 64"
  shows "i64 (i64 (v * 10) + d) = i64 (x * 10 + d)"
proof (rule i64_cong, rule mod_add_cong)
  show "i64 (v * 10) mod 2 ^ 64 = x * 10 mod 2 ^ 64"
    unfolding i64_mod using assms by (rule mod_mult_cong) (rule refl)
qed (rule refl)

lemma parse_digits_pad:
  "parse_digits (pad k n @ cs) acc = parse_digits cs (if k = 0 then acc else i64 (acc * 10 ^ k + int (n mod 10 ^ k)))"
proof (induction k arbitrary: n cs)
  case (Suc k)
  let ?v = "if k = 0 then acc else i64 (acc * 10 ^ k + int (n div 10 mod 10 ^ k))"
  let ?x = "acc * 10 ^ k + int (n div 10 mod 10 ^ k)"
  have "n mod (10 * 10 ^ k) = 10 * (n div 10 mod 10 ^ k) + n mod 10" by (rule mod_mult2_eq)
  then have "int (n mod 10 ^ Suc k) = int (n div 10 mod 10 ^ k) * 10 + int (n mod 10)" by simp
  then have x: "?x * 10 + int (n mod 10) = acc * 10 ^ Suc k + int (n mod 10 ^ Suc k)"
    by (simp add: algebra_simps)
  have v: "?v mod 2 ^ 64 = ?x mod 2 ^ 64"
  proof (cases "k = 0")
    case False
    then show ?thesis by (simp only: if_False i64_mod)
  qed simp
  have step: "i64 (i64 (?v * 10) + int (n mod 10)) = i64 (acc * 10 ^ Suc k + int (n mod 10 ^ Suc k))"
    unfolding i64_step [OF v] x ..
  have "parse_digits (pad (Suc k) n @ cs) acc = parse_digits (pad k (n div 10) @ digit (n mod 10) # cs) acc"
    by simp
  also have "\<dots> = parse_digits (digit (n mod 10) # cs) ?v" by (rule Suc)
  also have "\<dots> = parse_digits cs (i64 (i64 (?v * 10) + int (n mod 10)))" by simp
  finally show ?case unfolding step by simp
qed simp

lemma word_of_int_i64: "i64 (int (unat (word_of_int x :: 64 word))) = i64 x"
proof (rule i64_cong)
  have "int (unat (word_of_int x :: 64 word)) = x mod 2 ^ 64"
    by (simp add: uint_nat [symmetric] uint_word_of_int)
  then show "int (unat (word_of_int x :: 64 word)) mod 2 ^ 64 = x mod 2 ^ 64" by simp
qed

lemma parse_key_text: "parse_key_time (key_text n q) = Some (i64 (int (unat n)))"
proof -
  have "take 20 (drop (length key_prefix) (key_text n q)) = pad 20 (unat n) @ ''''"
    by (simp add: key_text_def write_padded20_pad)
  moreover have "length (key_text n q) \<ge> length key_prefix + 20 + 1" by (simp add: key_text_def)
  moreover have "unat n mod 10 ^ 20 = unat n" using unat_less_pad by (rule mod_less)
  ultimately show ?thesis
    unfolding parse_key_time_def by (simp only: parse_digits_pad has_prefix_key_text) simp
qed

lemma parse_key_time_make_key:
  "parse_key_time (fst (make_key at s)) = Some (unix_nano at)"
  using word_of_int_i64 [of "unix_nano at"] i64_id [OF i64_range, of at]
  by (simp only: make_key_def Let_def fst_conv parse_key_text) (simp add: unix_nano_def)


subsection \<open>What Badger and gob promise\<close>

text \<open>
  \<open>bv_live\<close> lists the live (not deleted, not expired) entries of a database in key order, \<open>bv_writes\<close>
  the writes a transaction has collected. An iterator visits the live entries and possibly expired ones,
  in key order; a committed transaction applies its writes, an error leaves the entries as they were.
  No entry expires during a call. gob restores what it encoded, except that an empty byte slice, which
  it does not send, comes back nil.
\<close>

type_synonym kv = "(string \<times> byte list) list"
type_synonym kv_write = "string \<times> byte list option"

fun apply_write :: "kv_write \<Rightarrow> kv \<Rightarrow> kv" where
  "apply_write (k, None) l = filter (\<lambda>p. fst p \<noteq> k) l"
| "apply_write (k, Some v) l = insort_key fst (k, v) (filter (\<lambda>p. fst p \<noteq> k) l)"

record ('db, 'tx) badger_view =
  bv_live :: "'db \<Rightarrow> kv"
  bv_writes :: "'tx \<Rightarrow> kv_write list"

definition strict_keys :: "kv \<Rightarrow> bool" where
  "strict_keys l \<longleftrightarrow> sorted_wrt (<) (map fst l)"

definition badger_reads :: "('db, 'tx) badger \<Rightarrow> ('db, 'tx) badger_view \<Rightarrow> bool" where
  "badger_reads b v \<longleftrightarrow>
     (\<forall>db. strict_keys (bv_live v db)
        \<and> sorted_wrt (<) (map it_key (bd_items b db))
        \<and> list_all2 (\<lambda>it (k, val). it_key it = k \<and> (\<forall>x. it_value it = Inr x \<longrightarrow> x = val))
             (filter (\<lambda>it. \<not> it_expired it) (bd_items b db)) (bv_live v db))"

definition badger_writes :: "('db, 'tx) badger \<Rightarrow> ('db, 'tx) badger_view \<Rightarrow> bool" where
  "badger_writes b v \<longleftrightarrow>
     (\<forall>db. bv_writes v (bd_txn b db) = [])
     \<and> (\<forall>k x ttl tx tx'. txn_set b k x ttl tx = (None, tx') \<longrightarrow> bv_writes v tx' = bv_writes v tx @ [(k, Some x)])
     \<and> (\<forall>k tx tx'. txn_delete b k tx = (None, tx') \<longrightarrow> bv_writes v tx' = bv_writes v tx @ [(k, None)])
     \<and> (\<forall>tx db db'. bd_commit b tx db = (None, db') \<longrightarrow>
          bv_live v db' = fold apply_write (bv_writes v tx) (bv_live v db))
     \<and> (\<forall>tx db db' e. bd_commit b tx db = (Some e, db') \<longrightarrow> bv_live v db' = bv_live v db)"

definition badger_contract :: "('db, 'tx) badger \<Rightarrow> ('db, 'tx) badger_view \<Rightarrow> bool" where
  "badger_contract b v \<longleftrightarrow> badger_reads b v \<and> badger_writes b v"

definition gob_slice :: "bytes \<Rightarrow> bytes" where
  "gob_slice b = (if bytes_of b = [] then None else b)"

definition gob_contract :: "gob \<Rightarrow> bool" where
  "gob_contract g \<longleftrightarrow>
     (\<forall>r x. gob_encode g r = Inr x \<longrightarrow>
        gob_decode g x = Inr (r\<lparr>wr_device_uuid := gob_slice (wr_device_uuid r),
          wr_payload := gob_slice (wr_payload r)\<rparr>))"

text \<open>A message as the subscriber builds it: a 16-byte device id and a payload that is nil when empty.\<close>

definition wal_message :: "message \<Rightarrow> bool" where
  "wal_message m \<longleftrightarrow> length (device_uuid m) = 16 \<and> payload m \<noteq> Some []"

lemma decode_encode_message:
  assumes "gob_contract g" "encode_message g m = Inr x" "length (device_uuid m) = 16"
  shows "decode_message g x = Inr (m\<lparr>payload := gob_slice (payload m)\<rparr>)"
proof -
  have "device_uuid m \<noteq> []" using assms(3) by auto
  with assms show ?thesis
    by (auto simp: gob_contract_def encode_message_def decode_message_def gob_slice_def
        bytes_of_def go_len_def)
qed

lemma gob_slice_wal_message: "wal_message m \<Longrightarrow> m\<lparr>payload := gob_slice (payload m)\<rparr> = m"
  by (cases "payload m") (auto simp: wal_message_def gob_slice_def bytes_of_def)

subsection \<open>The log a store holds\<close>

definition log_entries :: "('db, 'tx) badger_view \<Rightarrow> 'db \<Rightarrow> kv" where
  "log_entries v db = filter (\<lambda>(k, x). has_prefix k key_prefix) (bv_live v db)"

definition wal_log :: "('db, 'tx) badger_view \<Rightarrow> gob \<Rightarrow> 'db wal_store \<Rightarrow> message list" where
  "wal_log v g s = map (\<lambda>(k, x). projr (decode_message g x)) (log_entries v (ws_db s))"

definition wal_inv :: "('db, 'tx) badger \<Rightarrow> ('db, 'tx) badger_view \<Rightarrow> gob \<Rightarrow> 'db wal_store \<Rightarrow> bool" where
  "wal_inv b v g s \<longleftrightarrow>
     badger_contract b v \<and> gob_contract g
     \<and> (\<forall>(k, x) \<in> set (log_entries v (ws_db s)). \<exists>m. decode_message g x = Inr m)"

definition wal_fresh :: "('db, 'tx) badger_view \<Rightarrow> time \<Rightarrow> 'db wal_store \<Rightarrow> bool" where
  \<comment> \<open>the key the next Append builds is not in use\<close>
  "wal_fresh v now s \<longleftrightarrow> fst (make_key now s) \<notin> fst ` set (log_entries v (ws_db s))"

lemma prefix_not_less: "has_prefix k key_prefix \<Longrightarrow> \<not> k < key_prefix"
proof -
  assume "has_prefix k key_prefix"
  then obtain r where k: "k = key_prefix @ r"
    by (metis append_take_drop_id has_prefix_def)
  have "\<not> (key_prefix @ r < key_prefix @ [])"
    by (subst append_same_length_less) auto
  then show ?thesis using k by simp
qed

lemma prefix_convex:
  fixes p :: "'a::linorder list"
  shows "\<not> k < p \<Longrightarrow> k < p @ r \<Longrightarrow> take (length p) k = p"
proof (induction p arbitrary: k)
  case (Cons c p)
  then show ?case by (cases k) auto
qed simp

lemma prefix_block_tail:
  assumes "sorted_wrt (<) (map it_key its)" "\<forall>it \<in> set its. \<not> it_key it < key_prefix"
  shows "takeWhile (\<lambda>it. has_prefix (it_key it) key_prefix) its
    = filter (\<lambda>it. has_prefix (it_key it) key_prefix) its"
  using assms
proof (induction its)
  case (Cons it its)
  show ?case
  proof (cases "has_prefix (it_key it) key_prefix")
    case True
    then show ?thesis using Cons by simp
  next
    case False
    have "\<not> has_prefix (it_key jt) key_prefix" if "jt \<in> set its" for jt
    proof
      assume "has_prefix (it_key jt) key_prefix"
      then obtain r where "it_key jt = key_prefix @ r" by (metis append_take_drop_id has_prefix_def)
      moreover have "it_key it < it_key jt" using Cons.prems(1) that by simp
      moreover have "\<not> it_key it < key_prefix" using Cons.prems(2) by simp
      ultimately have "take (length key_prefix) (it_key it) = key_prefix" by (metis prefix_convex)
      with False show False by (simp add: has_prefix_def)
    qed
    then have "filter (\<lambda>it. has_prefix (it_key it) key_prefix) its = []"
      by (simp add: filter_empty_conv)
    with False show ?thesis by simp
  qed
qed simp

lemma seek_block:
  "sorted_wrt (<) (map it_key its) \<Longrightarrow>
    takeWhile (\<lambda>it. has_prefix (it_key it) key_prefix) (seek its)
    = filter (\<lambda>it. has_prefix (it_key it) key_prefix) its"
proof (induction its)
  case (Cons it its)
  show ?case
  proof (cases "it_key it < key_prefix")
    case True
    moreover have "\<not> has_prefix (it_key it) key_prefix" using True prefix_not_less by blast
    moreover have "seek (it # its) = seek its" using True by (simp add: seek_def)
    ultimately show ?thesis using Cons by simp
  next
    case False
    have "\<not> it_key jt < key_prefix" if "jt \<in> set (it # its)" for jt
    proof -
      have "it_key it = it_key jt \<or> it_key it < it_key jt" using Cons.prems that by auto
      with False show ?thesis by (metis less_trans)
    qed
    moreover have "seek (it # its) = it # its" using False by (simp add: seek_def)
    ultimately show ?thesis using prefix_block_tail [OF Cons.prems] by simp
  qed
qed (simp add: seek_def)

subsection \<open>Drain\<close>

definition live_block :: "item list \<Rightarrow> item list" where
  \<comment> \<open>the live items the loops of Drain, Len and oldestEntryTime look at\<close>
  "live_block its = filter (\<lambda>it. \<not> it_expired it) (takeWhile (\<lambda>it. has_prefix (it_key it) key_prefix) its)"

lemma live_block_simps [simp]:
  "live_block [] = []"
  "live_block (it # its) = (if has_prefix (it_key it) key_prefix
     then (if it_expired it then live_block its else it # live_block its) else [])"
  by (simp_all add: live_block_def)

lemma drain_loop_spec:
  assumes "drain_loop g limit its out keys = Inr (out', keys')"
  shows "keys' = keys @ map it_key (take (limit - length out) (live_block its))
    \<and> (\<exists>ms. out' = out @ ms \<and> list_all2 (\<lambda>it m. \<exists>x. it_value it = Inr x \<and> decode_message g x = Inr m)
          (take (limit - length out) (live_block its)) ms)"
  using assms
proof (induction g limit its out keys rule: drain_loop.induct)
  case (2 g limit it its out keys)
  consider "\<not> (has_prefix (it_key it) key_prefix \<and> length out < limit)"
    | "has_prefix (it_key it) key_prefix" "length out < limit" "it_expired it"
    | x m where "has_prefix (it_key it) key_prefix" "length out < limit" "\<not> it_expired it"
        "it_value it = Inr x" "decode_message g x = Inr m"
    using 2(3) by (auto split: if_splits sum.splits)
  then show ?case
  proof cases
    case 1
    then show ?thesis using 2(3) by auto
  next
    case 2
    then show ?thesis using "2.IH"(1) "2.prems" by simp
  next
    case (3 x m)
    have "limit - length out = Suc (limit - length (out @ [m]))" using 3 by simp
    moreover have "drain_loop g limit its (out @ [m]) (keys @ [it_key it]) = Inr (out', keys')"
      using "2.prems" 3 by simp
    from "2.IH"(2) [OF _ 3(3-5) this] 3 obtain ms where
      "keys' = (keys @ [it_key it]) @ map it_key (take (limit - length (out @ [m])) (live_block its))"
      "out' = (out @ [m]) @ ms"
      "list_all2 (\<lambda>it m. \<exists>x. it_value it = Inr x \<and> decode_message g x = Inr m)
         (take (limit - length (out @ [m])) (live_block its)) ms"
      by auto
    ultimately show ?thesis using 3 by (auto intro!: exI [of _ "m # ms"])
  qed
qed auto


lemma live_block_log:
  assumes "badger_contract b v"
  shows "list_all2 (\<lambda>it (k, val). it_key it = k \<and> (\<forall>x. it_value it = Inr x \<longrightarrow> x = val))
    (live_block (seek (bd_items b db))) (log_entries v db)"
    (is "list_all2 ?R _ _")
proof -
  have sorted: "sorted_wrt (<) (map it_key (bd_items b db))"
    and rel: "list_all2 ?R (filter (\<lambda>it. \<not> it_expired it) (bd_items b db)) (bv_live v db)"
    using assms by (auto simp: badger_contract_def badger_reads_def)
  have "list_all2 ?R (filter (\<lambda>it. has_prefix (it_key it) key_prefix) xs)
      (filter (\<lambda>(k, x). has_prefix k key_prefix) ys)" if "list_all2 ?R xs ys" for xs ys
    using that by (induction rule: list_all2_induct) auto
  from this [OF rel] show ?thesis
    unfolding live_block_def seek_block [OF sorted] log_entries_def
    by (simp add: filter_filter conj_commute)
qed

lemma log_keys_distinct:
  assumes "badger_contract b v" shows "distinct (map fst (log_entries v db))"
proof -
  have "sorted_wrt (<) (map fst (bv_live v db))"
    using assms by (auto simp: badger_contract_def badger_reads_def strict_keys_def)
  then have "distinct (map fst (bv_live v db))" by (simp add: strict_sorted_iff)
  then show ?thesis unfolding log_entries_def by (rule distinct_map_filter)
qed

lemma apply_deletes:
  "fold apply_write (map (\<lambda>k. (k, None)) ks) l = filter (\<lambda>p. fst p \<notin> set ks) l"
proof (induction ks arbitrary: l)
  case (Cons k ks)
  show ?case by (simp add: Cons)
qed simp

lemma filter_not_taken:
  "distinct (map f l) \<Longrightarrow> filter (\<lambda>p. f p \<notin> set (take n (map f l))) l = drop n l"
proof (induction l arbitrary: n)
  case (Cons x l)
  show ?case
  proof (cases n)
    case 0
    then show ?thesis by (simp add: filter_id_conv)
  next
    case (Suc k)
    have "filter (\<lambda>p. f p \<notin> insert (f x) (set (take k (map f l)))) l
        = filter (\<lambda>p. f p \<notin> set (take k (map f l))) l"
    proof (intro filter_cong refl)
      fix p assume "p \<in> set l"
      then have "f p \<noteq> f x" using Cons.prems by (metis distinct.simps(2) image_eqI list.map(2) set_map)
      then show "f p \<notin> insert (f x) (set (take k (map f l))) \<longleftrightarrow> f p \<notin> set (take k (map f l))" by simp
    qed
    with Cons Suc show ?thesis by simp
  qed
qed simp

lemma delete_loop_writes:
  assumes "badger_writes b v" "delete_loop b ks tx = (None, tx')"
  shows "bv_writes v tx' = bv_writes v tx @ map (\<lambda>k. (k, None)) ks"
  using assms(2)
proof (induction ks arbitrary: tx)
  case (Cons k ks)
  then obtain t1 where "txn_delete b k tx = (None, t1)" "delete_loop b ks t1 = (None, tx')"
    by (auto split: prod.splits option.splits)
  moreover have "bv_writes v t1 = bv_writes v tx @ [(k, None)]"
    using assms(1) calculation(1) by (auto simp: badger_writes_def)
  ultimately show ?case using Cons.IH by simp
qed simp

lemma bd_update_cases:
  assumes "bd_update b fn db = (r, db')" "badger_writes b v"
  shows "r \<noteq> None \<Longrightarrow> bv_live v db' = bv_live v db"
    and "r = None \<Longrightarrow> \<exists>tx. fn (bd_txn b db) = (None, tx)
      \<and> bv_live v db' = fold apply_write (bv_writes v tx) (bv_live v db)"
proof -
  have com: "bd_commit b tx x = (None, x') \<Longrightarrow> bv_live v x' = fold apply_write (bv_writes v tx) (bv_live v x)"
    and err: "bd_commit b tx x = (Some e, x') \<Longrightarrow> bv_live v x' = bv_live v x" for tx x x' e
    using assms(2) unfolding badger_writes_def by blast+
  show "r \<noteq> None \<Longrightarrow> bv_live v db' = bv_live v db"
    using assms(1) err unfolding bd_update_def by (auto split: option.splits prod.splits)
  show "r = None \<Longrightarrow> \<exists>tx. fn (bd_txn b db) = (None, tx)
      \<and> bv_live v db' = fold apply_write (bv_writes v tx) (bv_live v db)"
    using assms(1) com unfolding bd_update_def by (auto split: option.splits prod.splits)
qed

lemma list_all2_take_decode:
  assumes "list_all2 (\<lambda>it (k, val). it_key it = k \<and> (\<forall>x. it_value it = Inr x \<longrightarrow> x = val)) its es"
    and "list_all2 (\<lambda>it m. \<exists>x. it_value it = Inr x \<and> decode_message g x = Inr m) (take n its) ms"
  shows "map it_key (take n its) = take n (map fst es)
    \<and> ms = take n (map (\<lambda>(k, x). projr (decode_message g x)) es)"
  using assms
proof (induction its es arbitrary: n ms rule: list_all2_induct)
  case (Cons it its e es)
  then show ?case by (cases n; cases ms) fastforce+
qed simp

lemma wal_drain_spec:
  assumes inv: "wal_inv b v g s" and d: "wal_drain b g n s = (r, s')"
  shows "wal_inv b v g s'"
    and "r = Inr ms \<Longrightarrow> ms = take (nat n) (wal_log v g s) \<and> wal_log v g s' = drop (nat n) (wal_log v g s)"
    and "r = Inl e \<Longrightarrow> wal_log v g s' = wal_log v g s"
    and "ws_seq s' = ws_seq s"
proof -
  have con: "badger_contract b v" and wr: "badger_writes b v"
    using inv by (auto simp: wal_inv_def badger_contract_def)
  let ?es = "log_entries v (ws_db s)"
  have same: "wal_inv b v g s \<and> wal_log v g s = wal_log v g s" using inv by simp
  have "wal_inv b v g s' \<and> ws_seq s' = ws_seq s
      \<and> (case r of Inr ms \<Rightarrow> ms = take (nat n) (wal_log v g s) \<and> wal_log v g s' = drop (nat n) (wal_log v g s)
         | Inl e \<Rightarrow> wal_log v g s' = wal_log v g s)"
  proof (cases "n \<le> 0")
    case True
    then show ?thesis using d inv by (auto simp: wal_drain_def)
  next
    case n: False
    show ?thesis
    proof (cases "bd_view b (\<lambda>items. drain_loop g (nat n) (seek items) [] []) (ws_db s)")
      case (Inl e)
      then show ?thesis using n d inv by (auto simp: wal_drain_def)
    next
      case (Inr p)
      obtain out keys where p: "p = (out, keys)" by (cases p)
      then have loop: "drain_loop g (nat n) (seek (bd_items b (ws_db s))) [] [] = Inr (out, keys)"
        using Inr by (auto simp: bd_view_def split: option.splits)
      from drain_loop_spec [OF loop] list_all2_take_decode [OF live_block_log [OF con, of "ws_db s"]]
      have keys: "keys = take (nat n) (map fst ?es)" and out: "out = take (nat n) (wal_log v g s)"
        by (auto simp: wal_log_def)
      show ?thesis
      proof (cases "keys = []")
        case True
        then have "?es = []" using keys n by simp
        then show ?thesis using True n d inv Inr p by (auto simp: wal_drain_def wal_log_def)
      next
        case False
        obtain res db' where u: "bd_update b (delete_loop b keys) (ws_db s) = (res, db')" by (metis surj_pair)
        note upd = bd_update_cases [OF u wr]
        show ?thesis
        proof (cases res)
          case (Some e)
          then have "log_entries v db' = ?es" using upd(1) by (simp add: log_entries_def)
          then show ?thesis using Some u False n d inv Inr p
            by (auto simp: wal_drain_def wal_log_def wal_inv_def)
        next
          case None
          then obtain tx where "delete_loop b keys (bd_txn b (ws_db s)) = (None, tx)"
            "bv_live v db' = fold apply_write (bv_writes v tx) (bv_live v (ws_db s))"
            using upd(2) by auto
          then have "bv_live v db' = filter (\<lambda>p. fst p \<notin> set keys) (bv_live v (ws_db s))"
            using delete_loop_writes [OF wr] wr by (simp add: badger_writes_def apply_deletes)
          then have "log_entries v db' = filter (\<lambda>p. fst p \<notin> set keys) ?es"
            by (simp add: log_entries_def filter_filter conj_commute case_prod_beta)
          also have "\<dots> = drop (nat n) ?es"
            unfolding keys by (rule filter_not_taken [OF log_keys_distinct [OF con]])
          finally have es: "log_entries v db' = drop (nat n) ?es" .
          have "set (drop (nat n) ?es) \<subseteq> set ?es" by (rule set_drop_subset)
          then show ?thesis using None es u False n d inv Inr p out
            by (auto simp: wal_drain_def wal_log_def wal_inv_def drop_map)
        qed
      qed
    qed
  qed
  then show "wal_inv b v g s'" "ws_seq s' = ws_seq s"
    "r = Inr ms \<Longrightarrow> ms = take (nat n) (wal_log v g s) \<and> wal_log v g s' = drop (nat n) (wal_log v g s)"
    "r = Inl e \<Longrightarrow> wal_log v g s' = wal_log v g s"
    by auto
qed


subsection \<open>Append\<close>

definition wal_newest :: "('db, 'tx) badger_view \<Rightarrow> time \<Rightarrow> 'db wal_store \<Rightarrow> bool" where
  \<comment> \<open>the key the next Append builds comes after every key in use\<close>
  "wal_newest v now s \<longleftrightarrow> (\<forall>k \<in> fst ` set (log_entries v (ws_db s)). k < fst (make_key now s))"

lemma wal_newest_fresh: "wal_newest v now s \<Longrightarrow> wal_fresh v now s"
  by (auto simp: wal_newest_def wal_fresh_def)

lemma insort_key_last:
  "\<forall>p \<in> set l. f p < f x \<Longrightarrow> insort_key f x l = l @ [x]" for x :: 'a and f :: "'a \<Rightarrow> 'b::linorder"
  by (induction l) (auto simp: not_le)

lemma log_insert:
  assumes "badger_contract b v" "has_prefix k key_prefix" "k \<notin> fst ` set (log_entries v db)"
    and "bv_live v db' = apply_write (k, Some x) (bv_live v db)"
  shows "log_entries v db' = insort_key fst (k, x) (log_entries v db)"
proof -
  let ?P = "\<lambda>(k, x). has_prefix k key_prefix"
  have "fst p \<noteq> k" if "p \<in> set (bv_live v db)" for p
  proof
    assume "fst p = k"
    with that assms(2) have "p \<in> set (log_entries v db)" by (auto simp: log_entries_def case_prod_beta)
    with assms(3) \<open>fst p = k\<close> show False by force
  qed
  then have same: "filter (\<lambda>p. fst p \<noteq> k) (bv_live v db) = bv_live v db" by (simp add: filter_id_conv)
  have "sorted_wrt (<) (map fst (bv_live v db))"
    using assms(1) by (auto simp: badger_contract_def badger_reads_def strict_keys_def)
  then have "sorted (map fst (bv_live v db))" by (simp add: strict_sorted_iff)
  then have "filter ?P (insort_key fst (k, x) (bv_live v db)) = insort_key fst (k, x) (filter ?P (bv_live v db))"
    by (rule filter_insort) (simp add: assms(2))
  then show ?thesis using same assms(4) by (simp add: log_entries_def)
qed

lemma make_key_fields [simp]:
  "ws_db (snd (make_key now s)) = ws_db s" "ws_cfg (snd (make_key now s)) = ws_cfg s"
  "ws_m (snd (make_key now s)) = ws_m s" "ws_seq (snd (make_key now s)) = ws_seq s + 1"
  by (simp_all add: make_key_def Let_def)

lemma make_key_prefix: "has_prefix (fst (make_key now s)) key_prefix"
  by (simp add: make_key_def Let_def)

lemma wal_append_cases:
  assumes "wal_append b g now m s = (r, s')" "badger_writes b v"
  shows "ws_seq s' = ws_seq s + 1"
    and "r = Inl e \<Longrightarrow> bv_live v (ws_db s') = bv_live v (ws_db s)"
    and "r = Inr k \<Longrightarrow> k = fst (make_key now s) \<and> (\<exists>x. encode_message g m = Inr x
      \<and> bv_live v (ws_db s') = apply_write (k, Some x) (bv_live v (ws_db s)))"
proof -
  let ?k = "fst (make_key now s)" and ?s1 = "snd (make_key now s)"
  have mk: "make_key now s = (?k, ?s1)" by simp
  have "ws_seq s' = ws_seq s + 1
    \<and> (case r of Inl e \<Rightarrow> bv_live v (ws_db s') = bv_live v (ws_db s)
       | Inr k \<Rightarrow> k = ?k \<and> (\<exists>x. encode_message g m = Inr x
            \<and> bv_live v (ws_db s') = apply_write (k, Some x) (bv_live v (ws_db s))))"
  proof (cases "encode_message g m")
    case (Inl e)
    then have "wal_append b g now m s = (Inl (Wrapped ''encode'' e), ?s1)"
      by (simp add: wal_append_def case_prod_beta)
    then show ?thesis using assms(1) by auto
  next
    case (Inr x)
    let ?ttl = "if wc_ttl (ws_cfg s) > 0 then Some (wc_ttl (ws_cfg s)) else None"
    obtain res db' where u: "bd_update b (txn_set b ?k x ?ttl) (ws_db s) = (res, db')" by (metis surj_pair)
    note upd = bd_update_cases [OF u assms(2)]
    have w: "bv_writes v tx = [(?k, Some x)]" if "txn_set b ?k x ?ttl (bd_txn b (ws_db s)) = (None, tx)" for tx
      using assms(2) that unfolding badger_writes_def by (metis append_Nil)
    have "wal_append b g now m s = (case res of
        Some e \<Rightarrow> (Inl (Wrapped ''badger set'' e), ?s1\<lparr>ws_db := db'\<rparr>)
      | None \<Rightarrow> (Inr ?k, ?s1\<lparr>ws_db := db', ws_m := (ws_m s)\<lparr>wm_appended := wm_appended (ws_m s) + 1\<rparr>\<rparr>))"
      using u Inr by (cases "0 < wc_ttl (ws_cfg s)")
        (simp_all add: wal_append_def case_prod_beta split: option.splits)
    with assms(1) upd w Inr show ?thesis by (cases res) auto
  qed
  then show "ws_seq s' = ws_seq s + 1" "r = Inl e \<Longrightarrow> bv_live v (ws_db s') = bv_live v (ws_db s)"
    "r = Inr k \<Longrightarrow> k = ?k \<and> (\<exists>x. encode_message g m = Inr x
      \<and> bv_live v (ws_db s') = apply_write (k, Some x) (bv_live v (ws_db s)))"
    by auto
qed

lemma wal_append_spec:
  assumes inv: "wal_inv b v g s" and a: "wal_append b g now m s = (r, s')" and ok: "wal_message m"
  shows "r = Inl e \<Longrightarrow> wal_inv b v g s' \<and> wal_log v g s' = wal_log v g s"
    and "r = Inr k \<Longrightarrow> wal_fresh v now s \<Longrightarrow> wal_inv b v g s'
      \<and> mset (wal_log v g s') = add_mset m (mset (wal_log v g s))"
    and "r = Inr k \<Longrightarrow> wal_newest v now s \<Longrightarrow> wal_log v g s' = wal_log v g s @ [m]"
proof -
  have con: "badger_contract b v" and wr: "badger_writes b v" and gob: "gob_contract g"
    using inv by (auto simp: wal_inv_def badger_contract_def)
  note cases = wal_append_cases [OF a wr]
  show "wal_inv b v g s' \<and> wal_log v g s' = wal_log v g s" if "r = Inl e"
    using cases(2) [OF that] inv by (simp add: wal_inv_def wal_log_def log_entries_def)
  have ins: "\<exists>x. decode_message g x = Inr m
      \<and> log_entries v (ws_db s') = insort_key fst (k, x) (log_entries v (ws_db s))"
    if r: "r = Inr k" and f: "wal_fresh v now s"
  proof -
    from cases(3) [OF r] obtain x where k: "k = fst (make_key now s)" and x: "encode_message g m = Inr x"
      "bv_live v (ws_db s') = apply_write (k, Some x) (bv_live v (ws_db s))" by auto
    have "decode_message g x = Inr m"
      using decode_encode_message [OF gob x(1)] ok gob_slice_wal_message [OF ok] by (simp add: wal_message_def)
    moreover have "k \<notin> fst ` set (log_entries v (ws_db s))" using f k by (simp add: wal_fresh_def)
    ultimately show ?thesis using log_insert [OF con _ _ x(2)] make_key_prefix k by auto
  qed
  show "wal_inv b v g s' \<and> mset (wal_log v g s') = add_mset m (mset (wal_log v g s))"
    if r: "r = Inr k" and f: "wal_fresh v now s"
  proof -
    from ins [OF that] obtain x where x: "decode_message g x = Inr m"
      "log_entries v (ws_db s') = insort_key fst (k, x) (log_entries v (ws_db s))" by auto
    then show ?thesis using inv
      by (simp add: wal_inv_def wal_log_def set_insort_key)
  qed
  show "wal_log v g s' = wal_log v g s @ [m]" if r: "r = Inr k" and n: "wal_newest v now s"
  proof -
    from ins [OF r wal_newest_fresh [OF n]] obtain x where x: "decode_message g x = Inr m"
      "log_entries v (ws_db s') = insort_key fst (k, x) (log_entries v (ws_db s))" by auto
    have "insort_key fst (k, x) (log_entries v (ws_db s)) = log_entries v (ws_db s) @ [(k, x)]"
      by (rule insort_key_last) (use n cases(3) [OF r] in \<open>auto simp: wal_newest_def\<close>)
    with x show ?thesis by (simp add: wal_log_def)
  qed
qed

subsection \<open>The log interface of the subscriber and the flusher\<close>

text \<open>
  An appended message is in the log, a failed Append changes nothing, Drain takes the oldest messages
  out. \<open>fresh\<close> is the condition on the clock reading under which the key is new, \<open>ok\<close> the shape of a
  message the codec preserves.
\<close>

locale message_log =
  fixes append :: "time \<Rightarrow> message \<Rightarrow> 's \<Rightarrow> (go_error + string) \<times> 's"
    and drain :: "int \<Rightarrow> 's \<Rightarrow> (go_error + message list) \<times> 's"
    and log :: "'s \<Rightarrow> message list"
    and inv :: "'s \<Rightarrow> bool"
    and fresh :: "time \<Rightarrow> 's \<Rightarrow> bool"
    and ok :: "message \<Rightarrow> bool"
  assumes append_ok: "inv s \<Longrightarrow> ok m \<Longrightarrow> fresh now s \<Longrightarrow> append now m s = (Inr k, s') \<Longrightarrow>
      inv s' \<and> mset (log s') = add_mset m (mset (log s))"
    and append_err: "inv s \<Longrightarrow> ok m \<Longrightarrow> append now m s = (Inl e, s') \<Longrightarrow> inv s' \<and> log s' = log s"
    and drain_ok: "inv s \<Longrightarrow> drain n s = (Inr ms, s') \<Longrightarrow>
      inv s' \<and> ms = take (nat n) (log s) \<and> log s' = drop (nat n) (log s)"
    and drain_err: "inv s \<Longrightarrow> drain n s = (Inl e, s') \<Longrightarrow> inv s' \<and> log s' = log s"
begin

lemma append_mset:
  assumes "inv s" "ok m" "fresh now s" "append now m s = (r, s')"
  shows "inv s' \<and> mset (log s') = mset (log s) + (if isl r then {#} else {#m#})"
  using assms append_ok [OF assms(1-3)] append_err [OF assms(1,2)] by (cases r) auto

lemma drain_mset:
  assumes "inv s" "drain n s = (r, s')"
  shows "inv s' \<and> mset (case r of Inl e \<Rightarrow> [] | Inr ms \<Rightarrow> ms) + mset (log s') = mset (log s)"
proof (cases r)
  case (Inl e)
  with assms drain_err show ?thesis by auto
next
  case (Inr ms)
  with assms drain_ok [of s n ms s'] have "inv s'" "ms @ log s' = log s" by auto
  then show ?thesis using Inr by (simp flip: mset_append)
qed

end

interpretation wl: message_log "wal_append b g" "wal_drain b g" "wal_log v g" "wal_inv b v g"
    "wal_fresh v" wal_message for b v g
proof
  fix s s' :: "'a wal_store" and m now k
  assume "wal_inv b v g s" "wal_message m" "wal_fresh v now s" "wal_append b g now m s = (Inr k, s')"
  with wal_append_spec(2) show "wal_inv b v g s' \<and> mset (wal_log v g s') = add_mset m (mset (wal_log v g s))"
    by blast
next
  fix s s' :: "'a wal_store" and m now e
  assume "wal_inv b v g s" "wal_message m" "wal_append b g now m s = (Inl e, s')"
  with wal_append_spec(1) show "wal_inv b v g s' \<and> wal_log v g s' = wal_log v g s" by blast
next
  fix s s' :: "'a wal_store" and n ms
  assume "wal_inv b v g s" "wal_drain b g n s = (Inr ms, s')"
  with wal_drain_spec(1,2) show "wal_inv b v g s' \<and> ms = take (nat n) (wal_log v g s)
      \<and> wal_log v g s' = drop (nat n) (wal_log v g s)" by blast
next
  fix s s' :: "'a wal_store" and n e
  assume "wal_inv b v g s" "wal_drain b g n s = (Inl e, s')"
  with wal_drain_spec(1,3) show "wal_inv b v g s' \<and> wal_log v g s' = wal_log v g s" by blast
qed


subsection \<open>Sequences of operations\<close>

datatype log_op = OpAppend time message | OpDrain int

fun run_log ::
  "('db, 'tx) badger \<Rightarrow> gob \<Rightarrow> log_op list \<Rightarrow> 'db wal_store
   \<Rightarrow> message list \<times> message list \<times> 'db wal_store" where
  \<comment> \<open>what was appended, what was drained, and the store after the operations\<close>
  "run_log b g [] s = ([], [], s)"
| "run_log b g (op # ops) s =
     (case op of
        OpAppend now m \<Rightarrow>
          (case wal_append b g now m s of (r, s1) \<Rightarrow>
             (case run_log b g ops s1 of (acc, out, s') \<Rightarrow> (if isl r then acc else m # acc, out, s')))
      | OpDrain n \<Rightarrow>
          (case wal_drain b g n s of (r, s1) \<Rightarrow>
             (case run_log b g ops s1 of (acc, out, s') \<Rightarrow>
                (acc, (case r of Inl e \<Rightarrow> out | Inr ms \<Rightarrow> ms @ out), s'))))"

fun clock_ok :: "time \<Rightarrow> log_op list \<Rightarrow> bool" where
  \<comment> \<open>the clock does not run backwards, stays before the year 2262, and messages have their shape\<close>
  "clock_ok t [] \<longleftrightarrow> True"
| "clock_ok t (OpAppend now m # ops) \<longleftrightarrow> t \<le> now \<and> now < 2 ^ 63 \<and> wal_message m \<and> clock_ok now ops"
| "clock_ok t (OpDrain n # ops) \<longleftrightarrow> clock_ok t ops"

definition nanos_word :: "time \<Rightarrow> 64 word" where "nanos_word t = word_of_int (unix_nano t)"

definition wal_before :: "('db, 'tx) badger_view \<Rightarrow> time \<Rightarrow> 'db wal_store \<Rightarrow> bool" where
  \<comment> \<open>every key was built at an earlier instant, or at this one by this process\<close>
  "wal_before v t s \<longleftrightarrow> 0 \<le> t \<and>
     (\<forall>k \<in> fst ` set (log_entries v (ws_db s)).
        \<exists>n q. k = key_text n q \<and> (n < nanos_word t \<or> n = nanos_word t \<and> q \<le> ws_seq s))"

lemma nanos_word_mono:
  assumes "0 \<le> t" "t \<le> u" "u < 2 ^ 63" shows "nanos_word t \<le> nanos_word u"
proof -
  have "unix_nano t = t" "unix_nano u = u"
    using assms by (simp_all add: unix_nano_def i64_id in_i64_def)
  moreover have "uint (word_of_int t :: 64 word) = t" "uint (word_of_int u :: 64 word) = u"
    using assms by (simp_all add: uint_word_of_int)
  ultimately show ?thesis using assms(2) by (simp add: nanos_word_def word_le_def)
qed

lemma make_key_text: "fst (make_key now s) = key_text (nanos_word now) (ws_seq s + 1)"
  by (simp add: make_key_def Let_def nanos_word_def)

lemma seq_less: "unat (q :: 64 word) + 1 < 2 ^ 64 \<Longrightarrow> q < q + 1 \<and> unat (q + 1) = unat q + 1"
proof -
  assume "unat q + 1 < 2 ^ 64"
  then have "unat (q + 1) = unat q + 1" by (simp add: unat_word_ariths)
  then show ?thesis by (simp add: word_less_nat_alt)
qed

lemma wal_before_newest:
  assumes "wal_before v t s" "t \<le> now" "now < 2 ^ 63" "unat (ws_seq s) + 1 < 2 ^ 64"
  shows "wal_newest v now s"
  unfolding wal_newest_def make_key_text
proof
  fix k assume "k \<in> fst ` set (log_entries v (ws_db s))"
  then obtain n q where k: "k = key_text n q" "n < nanos_word t \<or> n = nanos_word t \<and> q \<le> ws_seq s"
    using assms(1) by (auto simp: wal_before_def)
  have "nanos_word t \<le> nanos_word now" using assms by (intro nanos_word_mono) (auto simp: wal_before_def)
  moreover have "ws_seq s < ws_seq s + 1" using seq_less [OF assms(4)] by simp
  ultimately show "k < key_text (nanos_word now) (ws_seq s + 1)"
    unfolding k(1) key_text_less using k(2) by (metis le_less less_le_trans le_less_trans)
qed

lemma wal_before_step:
  assumes "wal_before v t s" "t \<le> now" "now < 2 ^ 63"
    "fst ` set (log_entries v (ws_db s')) \<subseteq> insert (key_text (nanos_word now) (ws_seq s')) (fst ` set (log_entries v (ws_db s)))"
    "ws_seq s \<le> ws_seq s'"
  shows "wal_before v now s'"
  unfolding wal_before_def
proof (intro conjI ballI)
  show "0 \<le> now" using assms(1,2) by (simp add: wal_before_def)
  fix k assume "k \<in> fst ` set (log_entries v (ws_db s'))"
  then consider "k = key_text (nanos_word now) (ws_seq s')" | "k \<in> fst ` set (log_entries v (ws_db s))"
    using assms(4) by blast
  then show "\<exists>n q. k = key_text n q \<and> (n < nanos_word now \<or> n = nanos_word now \<and> q \<le> ws_seq s')"
  proof cases
    case 1
    then show ?thesis by blast
  next
    case 2
    then obtain n q where k: "k = key_text n q" "n < nanos_word t \<or> n = nanos_word t \<and> q \<le> ws_seq s"
      using assms(1) by (auto simp: wal_before_def)
    have "nanos_word t \<le> nanos_word now" using assms by (intro nanos_word_mono) (auto simp: wal_before_def)
    then have "n < nanos_word now \<or> n = nanos_word now \<and> q \<le> ws_seq s'"
    proof (cases "n = nanos_word now")
      case True
      then have "\<not> n < nanos_word t" using \<open>nanos_word t \<le> nanos_word now\<close> by simp
      then have "q \<le> ws_seq s" using k(2) by blast
      also have "\<dots> \<le> ws_seq s'" by (rule assms(5))
      finally show ?thesis using True by simp
    next
      case False
      have "n \<le> nanos_word t" using k(2) by (auto simp: le_less)
      also have "\<dots> \<le> nanos_word now" by fact
      finally show ?thesis using False by (simp add: le_less)
    qed
    then show ?thesis using k(1) by blast
  qed
qed


lemma wal_drain_live:
  assumes "badger_writes b v" "wal_drain b g n s = (r, s')"
  shows "set (bv_live v (ws_db s')) \<subseteq> set (bv_live v (ws_db s))"
proof -
  have u: "set (bv_live v db') \<subseteq> set (bv_live v db)"
    if u0: "bd_update b (delete_loop b ks) db = (res, db')" for ks db res db'
  proof (cases res)
    case None
    then obtain tx where "delete_loop b ks (bd_txn b db) = (None, tx)"
      "bv_live v db' = fold apply_write (bv_writes v tx) (bv_live v db)"
      using bd_update_cases(2) [OF u0 assms(1) None] by auto
    then have "bv_live v db' = filter (\<lambda>p. fst p \<notin> set ks) (bv_live v db)"
      using delete_loop_writes [OF assms(1)] assms(1) by (simp add: badger_writes_def apply_deletes)
    then show ?thesis by simp
  next
    case (Some e)
    then show ?thesis using bd_update_cases(1) [OF u0 assms(1)] by simp
  qed
  show ?thesis
    using assms(2)
    by (auto simp: wal_drain_def split: if_splits sum.splits prod.splits option.splits
        dest: u [THEN subsetD, rotated])
qed

lemma wal_drain_before:
  assumes "badger_writes b v" "wal_drain b g n s = (r, s')" "wal_before v t s" "ws_seq s' = ws_seq s"
  shows "wal_before v t s'"
  using assms(3,4) wal_drain_live [OF assms(1,2)] unfolding wal_before_def log_entries_def by fastforce

lemma wal_append_before:
  assumes "badger_writes b v" "wal_append b g now m s = (r, s')" "wal_before v t s" "t \<le> now" "now < 2 ^ 63"
    and "unat (ws_seq s) + 1 < 2 ^ 64"
  shows "wal_before v now s'"
proof (rule wal_before_step [OF assms(3-5)])
  note c = wal_append_cases [OF assms(2,1)]
  show "ws_seq s \<le> ws_seq s'" unfolding c(1) using seq_less [OF assms(6)] by (simp add: le_less)
  show "fst ` set (log_entries v (ws_db s'))
      \<subseteq> insert (key_text (nanos_word now) (ws_seq s')) (fst ` set (log_entries v (ws_db s)))"
  proof (cases r)
    case (Inl e)
    with c(2) show ?thesis by (auto simp: log_entries_def)
  next
    case (Inr k)
    then obtain x where k: "k = key_text (nanos_word now) (ws_seq s')"
      "bv_live v (ws_db s') = apply_write (k, Some x) (bv_live v (ws_db s))"
      using c(1,3) by (auto simp: make_key_text)
    then show ?thesis unfolding k(1) [symmetric] by (auto simp: log_entries_def set_insort_key)
  qed
qed

lemma run_log_fifo:
  assumes "wal_inv b v g s" "wal_before v t s" "clock_ok t ops" "unat (ws_seq s) + length ops < 2 ^ 64"
    and "run_log b g ops s = (acc, out, s')"
  shows "wal_inv b v g s' \<and> wal_log v g s @ acc = out @ wal_log v g s'"
  using assms
proof (induction ops arbitrary: s t acc out)
  case (Cons op ops)
  have wr: "badger_writes b v" using Cons.prems(1) by (simp add: wal_inv_def badger_contract_def)
  show ?case
  proof (cases op)
    case (OpAppend now m)
    with Cons.prems(3) have ck: "t \<le> now" "now < 2 ^ 63" "wal_message m" "clock_ok now ops" by auto
    have sq: "unat (ws_seq s) + 1 < 2 ^ 64" using Cons.prems(4) by simp
    obtain r s1 where a: "wal_append b g now m s = (r, s1)" by (metis surj_pair)
    obtain acc1 where run: "run_log b g ops s1 = (acc1, out, s')" "acc = (if isl r then acc1 else m # acc1)"
      using Cons.prems(5) OpAppend a by (auto split: prod.splits)
    have new: "wal_newest v now s" by (rule wal_before_newest [OF Cons.prems(2) ck(1,2) sq])
    have bef: "wal_before v now s1" by (rule wal_append_before [OF wr a Cons.prems(2) ck(1,2) sq])
    have seq1: "unat (ws_seq s1) + length ops < 2 ^ 64"
      using wal_append_cases(1) [OF a wr] seq_less [OF sq] Cons.prems(4) by simp
    note sp = wal_append_spec [OF Cons.prems(1) a ck(3)]
    have "wal_inv b v g s1 \<and> wal_log v g s1 = wal_log v g s @ (if isl r then [] else [m])"
      using sp(1) sp(2) [OF _ wal_newest_fresh [OF new]] sp(3) [OF _ new] by (cases r) auto
    with Cons.IH [OF _ bef ck(4) seq1 run(1)] run(2) show ?thesis by auto
  next
    case (OpDrain n)
    obtain r s1 where d: "wal_drain b g n s = (r, s1)" by (metis surj_pair)
    obtain out1 where run: "run_log b g ops s1 = (acc, out1, s')"
      "out = (case r of Inl e \<Rightarrow> out1 | Inr ms \<Rightarrow> ms @ out1)"
      using Cons.prems(5) OpDrain d by (auto split: prod.splits)
    note sp = wal_drain_spec [OF Cons.prems(1) d]
    have "wal_before v t s1" by (rule wal_drain_before [OF wr d Cons.prems(2) sp(4)])
    moreover have "clock_ok t ops" "unat (ws_seq s1) + length ops < 2 ^ 64"
      using Cons.prems(3,4) OpDrain sp(4) by auto
    moreover have "(case r of Inl e \<Rightarrow> [] | Inr ms \<Rightarrow> ms) @ wal_log v g s1 = wal_log v g s"
      using sp(2,3) by (cases r) auto
    ultimately have IH: "wal_inv b v g s' \<and> wal_log v g s1 @ acc = out1 @ wal_log v g s'"
      and log: "wal_log v g s = (case r of Inl e \<Rightarrow> [] | Inr ms \<Rightarrow> ms) @ wal_log v g s1"
      using Cons.IH [OF sp(1) _ _ _ run(1)] by simp_all
    show ?thesis unfolding log using IH run(2) by (cases r) simp_all
  qed
qed auto


lemma len_loop_block: "len_loop its n = n + length (live_block its)"
  by (induction its n rule: len_loop.induct) auto

lemma live_block_length:
  "badger_contract b v \<Longrightarrow> length (live_block (seek (bd_items b db))) = length (log_entries v db)"
  using live_block_log [of b v db] by (rule list_all2_lengthD)

lemma oldest_loop_block:
  "oldest_loop its = (case live_block its of [] \<Rightarrow> zero_time
     | it # r \<Rightarrow> (case parse_key_time (it_key it) of Some nanos \<Rightarrow> nanos | None \<Rightarrow> zero_time))"
  by (induction its rule: oldest_loop.induct) auto

subsection \<open>A Badger and a codec in memory, for the witnesses\<close>

text \<open>The database is the list of committed writes; the codec knows the records of a table.\<close>

definition mem_badger :: "(kv_write list, kv_write list) badger" where
  "mem_badger =
     \<lparr>bd_closed = (\<lambda>db. None),
      bd_items = (\<lambda>db. map (\<lambda>(k, x). \<lparr>it_key = k, it_expired = False, it_value = Inr x\<rparr>)
                    (fold apply_write db [])),
      bd_txn = (\<lambda>db. []), txn_set = (\<lambda>k x ttl tx. (None, tx @ [(k, Some x)])),
      txn_delete = (\<lambda>k tx. (None, tx @ [(k, None)])), bd_commit = (\<lambda>tx db. (None, db @ tx)),
      bd_size = (\<lambda>db. (0, int (length db)))\<rparr>"

definition mem_badger_view :: "(kv_write list, kv_write list) badger_view" where
  "mem_badger_view = \<lparr>bv_live = (\<lambda>db. fold apply_write db []), bv_writes = (\<lambda>tx. tx)\<rparr>"

definition record_of :: "message \<Rightarrow> wal_record" where
  "record_of m = \<lparr>wr_tenant_id = tenant_id m, wr_device_uuid = Some (device_uuid m), wr_topic = topic m,
     wr_payload = payload m, wr_received_at = received_at m, wr_dedup_key = dedup_key m\<rparr>"

definition wal_demo_message :: "string \<Rightarrow> message" where
  "wal_demo_message k = zero_message\<lparr>payload := Some [7], dedup_key := k\<rparr>"

definition table_gob :: gob where
  "table_gob = \<lparr>gob_encode = (\<lambda>r. if r = record_of (wal_demo_message ''a'') then Inr [1]
        else if r = record_of (wal_demo_message ''b'') then Inr [2] else Inl (ErrText ''unknown record'')),
      gob_decode = (\<lambda>x. if x = [1] then Inr (record_of (wal_demo_message ''a''))
        else if x = [2] then Inr (record_of (wal_demo_message ''b'')) else Inl (ErrText ''EOF''))\<rparr>"

definition demo_wal_config :: wal_config where
  "demo_wal_config = \<lparr>wc_path = ''/wal'', wc_ttl = 3600 * second, wc_sync_writes = True,
     wc_value_log_file_size = 0\<rparr>"

definition empty_store :: "kv_write list wal_store" where
  "empty_store = \<lparr>ws_db = [], ws_cfg = demo_wal_config, ws_m = zero_wal_metrics, ws_seq = 0\<rparr>"

lemma strict_insert:
  assumes "sorted_wrt (<) (map fst l)"
  shows "sorted_wrt (<) (map fst (insort_key fst (k :: 'k::linorder, v) (filter (\<lambda>p. fst p \<noteq> k) l)))"
proof -
  let ?l = "filter (\<lambda>p. fst p \<noteq> k) l"
  have s: "sorted (map fst ?l)" "distinct (map fst ?l)"
    using assms by (simp_all add: strict_sorted_iff sorted_filter distinct_map_filter)
  have "sorted (map fst (insort_key fst (k, v) ?l))" using s(1) by (simp add: sorted_insort_key)
  moreover have "distinct (map fst (insort_key fst (k, v) ?l))"
    using s(2) by (simp add: distinct_map distinct_insort set_insort_key inj_on_def)
  ultimately show ?thesis by (simp add: strict_sorted_iff)
qed

lemma strict_filter: "sorted_wrt (<) (map fst l) \<Longrightarrow> sorted_wrt (<) (map fst (filter P l))"
  by (simp add: sorted_wrt_map sorted_wrt_filter)

lemma strict_keys_apply: "strict_keys l \<Longrightarrow> strict_keys (apply_write w l)"
  by (induction w l rule: apply_write.induct) (simp_all add: strict_keys_def strict_insert strict_filter)

lemma strict_keys_fold: "strict_keys l \<Longrightarrow> strict_keys (fold apply_write ws l)"
  by (induction ws arbitrary: l) (auto simp: strict_keys_apply)

lemma mem_badger_contract: "badger_contract mem_badger mem_badger_view"
proof -
  have st: "strict_keys (fold apply_write db [])" for db
    by (rule strict_keys_fold) (simp add: strict_keys_def)
  have keys: "map it_key (map (\<lambda>(k, x). \<lparr>it_key = k, it_expired = False, it_value = Inr x\<rparr>) l) = map fst l"
    for l :: kv by auto
  have live: "filter (\<lambda>it. \<not> it_expired it) (map (\<lambda>(k, x). \<lparr>it_key = k, it_expired = False, it_value = Inr x\<rparr>) l)
      = map (\<lambda>(k, x). \<lparr>it_key = k, it_expired = False, it_value = Inr x\<rparr>) l" for l :: kv
    by (induction l) auto
  have rel: "list_all2 (\<lambda>it (k, val). it_key it = k \<and> (\<forall>x. it_value it = Inr x \<longrightarrow> x = val))
      (map (\<lambda>(k, x). \<lparr>it_key = k, it_expired = False, it_value = Inr x\<rparr>) l) l" for l :: kv
    by (induction l) auto
  have "badger_reads mem_badger mem_badger_view"
    unfolding badger_reads_def mem_badger_def mem_badger_view_def badger.simps badger_view.simps keys live
    using st rel by (simp add: strict_keys_def)
  moreover have "badger_writes mem_badger mem_badger_view"
    by (auto simp: badger_writes_def mem_badger_def mem_badger_view_def)
  ultimately show ?thesis by (simp add: badger_contract_def)
qed

lemma table_gob_contract: "gob_contract table_gob"
  by (auto simp: gob_contract_def table_gob_def gob_slice_def record_of_def wal_demo_message_def
      zero_message_def bytes_of_def)

lemma empty_store_inv: "wal_inv mem_badger mem_badger_view table_gob empty_store"
  "wal_before mem_badger_view t empty_store \<longleftrightarrow> 0 \<le> t" "wal_log mem_badger_view g empty_store = []"
proof -
  have e: "log_entries mem_badger_view (ws_db empty_store) = []"
    by (simp add: log_entries_def empty_store_def mem_badger_view_def)
  show "wal_inv mem_badger mem_badger_view table_gob empty_store"
    "wal_before mem_badger_view t empty_store \<longleftrightarrow> 0 \<le> t" "wal_log mem_badger_view g empty_store = []"
    by (simp_all add: wal_inv_def mem_badger_contract table_gob_contract wal_before_def wal_log_def e)
qed


subsection \<open>Properties\<close>

text \<open>C15: the log is a queue. On a store whose keys were built earlier, any sequence of Append and Drain calls
  under a clock that does not run backwards keeps the invariant, and what the log held followed by what
  was appended equals what was drained, in that order, followed by what it still holds: nothing is lost,
  duplicated or reordered, and failed calls change nothing.\<close>
theorem wal_run_fifo:
  assumes "wal_inv b v g s" "wal_before v t s" "clock_ok t ops" "unat (ws_seq s) + length ops < 2 ^ 64"
    and "run_log b g ops s = (acc, out, s')"
  shows "wal_log v g s @ acc = out @ wal_log v g s' \<and> wal_inv b v g s'"
  using run_log_fifo [OF assms] by blast

lemma wal_run_fifo_witness:
  "case run_log mem_badger table_gob
      [OpAppend 5 (wal_demo_message ''a''), OpDrain 1] empty_store of
     (acc, out, s') \<Rightarrow> acc = out @ wal_log mem_badger_view table_gob s' \<and> length out = 1"
proof -
  let ?ops = "[OpAppend 5 (wal_demo_message ''a''), OpDrain 1]"
  have one: "length (fst (snd (run_log mem_badger table_gob ?ops empty_store))) = 1" by code_simp
  obtain acc out s' where run: "run_log mem_badger table_gob ?ops empty_store = (acc, out, s')"
    by (metis prod_cases3)
  have "wal_before mem_badger_view 0 empty_store" by (simp add: empty_store_inv)
  moreover have "clock_ok 0 ?ops"
    by (simp add: wal_message_def wal_demo_message_def zero_message_def)
  moreover have "unat (ws_seq empty_store) + length ?ops < 2 ^ 64" by (simp add: empty_store_def)
  ultimately have "acc = out @ wal_log mem_badger_view table_gob s'"
    using wal_run_fifo [OF empty_store_inv(1) _ _ _ run, of 0] by (simp add: empty_store_inv)
  then show ?thesis using one unfolding run by simp
qed

text \<open>C33: keys. The text of a key orders as the pair of its numbers, nanoseconds first and then sequence
  number, both of the full 64 bits (so iteration is time order), and the time read back from a key is the
  UnixNano of the instant it was built at, whatever the instant.\<close>
theorem wal_key_order_roundtrip:
  "(key_text n q < key_text n' q' \<longleftrightarrow> n < n' \<or> n = n' \<and> q < q')
   \<and> (key_text n q = key_text n' q' \<longleftrightarrow> n = n' \<and> q = q')
   \<and> parse_key_time (fst (make_key at s)) = Some (unix_nano at)"
  by (simp add: key_text_less key_text_inj parse_key_time_make_key)

text \<open>The gauges. When RefreshMetrics succeeds the entry gauge is the number of messages in the log, and
  on a log whose keys were built at instants between 1970 and now the age gauge is zero when it is empty
  and otherwise the distance of now from the instant of the oldest key.\<close>
lemma refresh_metrics_gauges:
  assumes "wal_inv b v g s" "wal_before v now s" "refresh_metrics b now s = (None, s')" "now < 2 ^ 63"
  shows "wm_entries (ws_m s') = int (length (wal_log v g s)) \<and> wal_log v g s' = wal_log v g s
    \<and> (wal_log v g s = [] \<longrightarrow> wm_oldest_age (ws_m s') = 0)
    \<and> (\<forall>k x rest n q. log_entries v (ws_db s) = (k, x) # rest \<and> k = key_text n q \<longrightarrow>
         wm_oldest_age (ws_m s') = now - int (unat n))"
proof -
  have con: "badger_contract b v" using assms(1) by (simp add: wal_inv_def)
  let ?lb = "live_block (seek (bd_items b (ws_db s)))"
  have len: "length ?lb = length (log_entries v (ws_db s))" by (rule live_block_length [OF con])
  have open_db: "bd_closed b (ws_db s) = None"
    using assms(3) by (auto simp: refresh_metrics_def wal_len_def bd_view_def split: option.splits)
  let ?o = "oldest_loop (seek (bd_items b (ws_db s)))"
  have s': "s' = s\<lparr>ws_m := (ws_m s)\<lparr>wm_entries := int (length ?lb),
      wm_bytes_on_disk := i64 (fst (bd_size b (ws_db s)) + snd (bd_size b (ws_db s))),
      wm_oldest_age := (if ?o = zero_time then 0 else time_sub now ?o)\<rparr>\<rparr>"
    using assms(3) open_db
    by (simp add: refresh_metrics_def wal_len_def oldest_entry_time_def bd_view_def len_loop_block Let_def)
  have age: "wm_oldest_age (ws_m s') = now - int (unat n)"
    if es: "log_entries v (ws_db s) = (key_text n q, x) # rest" for n q x rest
  proof -
    from live_block_log [OF con, of "ws_db s"] es obtain it its where
      it: "?lb = it # its" "it_key it = key_text n q" by (auto simp: list_all2_Cons2)
    have "key_text n q \<in> fst ` set (log_entries v (ws_db s))" using es by simp
    then have "n \<le> nanos_word now" and now0: "0 \<le> now"
      using assms(2) by (auto simp: wal_before_def key_text_inj le_less)
    then have "int (unat n) \<le> now"
      using assms(4) now0 by (simp add: nanos_word_def unix_nano_def i64_id in_i64_def word_le_def
          uint_word_of_int)
    then have n: "int (unat n) < 2 ^ 63" "int (unat n) \<le> now" using assms(4) by auto
    have "0 \<le> int (unat n)" by (rule of_nat_0_le_iff)
    have "- (2 ^ 63) \<le> (0 :: int)" by simp
    also have "\<dots> \<le> int (unat n)" by fact
    finally have "in_i64 (int (unat n))" using n(1) unfolding in_i64_def by (rule conjI)
    then have "i64 (int (unat n)) = int (unat n)" by (rule i64_id)
    then have "?o = int (unat n)" using it by (simp add: oldest_loop_block parse_key_text)
    moreover have "int (unat n) \<noteq> zero_time" unfolding zero_time_def using \<open>0 \<le> int (unat n)\<close> by linarith
    moreover have "time_sub now (int (unat n)) = now - int (unat n)"
      using n assms(4) \<open>0 \<le> int (unat n)\<close> unfolding time_sub_def min_i64_def max_i64_def by linarith
    ultimately show ?thesis unfolding s' by simp
  qed
  have "wm_entries (ws_m s') = int (length (wal_log v g s))" "wal_log v g s' = wal_log v g s"
    by (simp_all add: s' len wal_log_def)
  moreover have "wm_oldest_age (ws_m s') = 0" if "wal_log v g s = []"
  proof -
    have "?lb = []" using that len by (simp add: wal_log_def)
    then show ?thesis by (simp add: s' oldest_loop_block)
  qed
  ultimately show ?thesis using age by blast
qed

lemma refresh_metrics_gauges_witness:
  "let s = snd (wal_append mem_badger table_gob 5 (wal_demo_message ''a'') empty_store)
   in wm_entries (ws_m (snd (refresh_metrics mem_badger 9 s))) = 1"
proof -
  let ?s = "snd (wal_append mem_badger table_gob 5 (wal_demo_message ''a'') empty_store)"
  have ap: "isl (fst (wal_append mem_badger table_gob 5 (wal_demo_message ''a'') empty_store)) = False"
    and ref: "fst (refresh_metrics mem_badger 9 ?s) = None"
    and l1: "length (log_entries mem_badger_view (ws_db ?s)) = 1"
    by code_simp+
  obtain r s1 where a: "wal_append mem_badger table_gob 5 (wal_demo_message ''a'') empty_store = (r, s1)"
    by (metis surj_pair)
  have ok: "wal_message (wal_demo_message ''a'')"
    by (simp add: wal_message_def wal_demo_message_def zero_message_def)
  have wr: "badger_writes mem_badger mem_badger_view"
    using mem_badger_contract by (simp add: badger_contract_def)
  have bef: "wal_before mem_badger_view 5 s1"
    by (rule wal_append_before [OF wr a, of 0]) (simp_all add: empty_store_inv(2), simp add: empty_store_def)
  have bef9: "wal_before mem_badger_view 9 s1" by (rule wal_before_step [OF bef]) auto
  have "wal_fresh mem_badger_view 5 empty_store"
    by (simp add: wal_fresh_def log_entries_def empty_store_def mem_badger_view_def)
  then have inv: "wal_inv mem_badger mem_badger_view table_gob s1"
    using wal_append_spec(1,2) [OF empty_store_inv(1) a ok] by (cases r) auto
  have "refresh_metrics mem_badger 9 s1 = (None, snd (refresh_metrics mem_badger 9 s1))"
    using ref a by (simp add: prod_eq_iff)
  from refresh_metrics_gauges [OF inv bef9 this] l1 a show ?thesis
    by (simp add: wal_log_def Let_def)
qed


text \<open>C36: one undecodable entry at the head stops the log. If the oldest live entry is readable but does not
  decode (a truncated record, a device id that is not 16 bytes), every Drain of at least one message fails
  with the decoder's error and changes nothing, so the entries behind it stay where they are.\<close>
theorem drain_stuck_on_bad_entry:
  assumes "bd_closed b (ws_db s) = None" "live_block (seek (bd_items b (ws_db s))) = it # its"
    and "it_value it = Inr x" "decode_message g x = Inl e" "0 < n"
  shows "wal_drain b g n s = (Inl (Wrapped ''read'' e), s)"
proof -
  have "drain_loop g limit items [] [] = Inl e"
    if "live_block items = it # its" "0 < limit" for limit items
    using that assms(3,4)
  proof (induction items)
    case (Cons jt items)
    then show ?case by (cases "it_expired jt") (auto split: if_splits)
  qed simp
  from this [OF assms(2), of "nat n"] assms(1,5) show ?thesis
    by (simp add: wal_drain_def bd_view_def)
qed

lemma drain_stuck_on_bad_entry_witness:
  "fst (wal_drain mem_badger table_gob 10 (empty_store\<lparr>ws_db := [(''msg:1'', Some [9]), (''msg:2'', Some [1])]\<rparr>))
     = Inl (Wrapped ''read'' (ErrText ''EOF''))"
proof -
  let ?s = "empty_store\<lparr>ws_db := [(''msg:1'', Some [9]), (''msg:2'', Some [1])]\<rparr>"
  have block: "map (\<lambda>it. (it_key it, it_value it)) (live_block (seek (bd_items mem_badger (ws_db ?s))))
      = [(''msg:1'', Inr [9]), (''msg:2'', Inr [1])]" by code_simp
  then obtain it its where it: "live_block (seek (bd_items mem_badger (ws_db ?s))) = it # its"
    "it_value it = Inr [9]" by auto
  have "decode_message table_gob [9] = Inl (ErrText ''EOF'')"
    by (simp add: decode_message_def table_gob_def)
  from drain_stuck_on_bad_entry [OF _ it this, of 10] show ?thesis by (simp add: mem_badger_def)
qed

text \<open>Expiry is never counted: no operation of the store touches the expired counter, although entries
  whose TTL has passed are skipped.\<close>
lemma expired_never_counted:
  "wm_expired (ws_m (snd (wal_append b g now m s))) = wm_expired (ws_m s)
   \<and> wm_expired (ws_m (snd (wal_drain b g n s))) = wm_expired (ws_m s)
   \<and> wm_expired (ws_m (snd (refresh_metrics b now s))) = wm_expired (ws_m s)"
proof -
  have "wm_expired (ws_m (snd (wal_append b g now m s))) = wm_expired (ws_m s)"
    by (simp add: wal_append_def case_prod_beta split: sum.splits prod.splits option.splits)
  moreover have "wm_expired (ws_m (snd (wal_drain b g n s))) = wm_expired (ws_m s)"
    by (simp add: wal_drain_def case_prod_beta split: sum.splits prod.splits option.splits)
  moreover have "wm_expired (ws_m (snd (refresh_metrics b now s))) = wm_expired (ws_m s)"
    by (simp add: refresh_metrics_def Let_def split: sum.splits)
  ultimately show ?thesis by simp
qed

end
