(* ===== verification/WalOverlap.thy ===== *)
theory WalOverlap
  imports Wal
begin

text \<open>
  Overlapping calls on the WAL. Append builds its key, with the atomic sequence number, before its
  transaction, and Drain reads in one transaction and deletes in another; the flusher's mutex keeps
  drains apart, nothing keeps Appends apart from them or from each other. Here each call is its two
  halves and calls overlap in any way; run without overlap the halves are the operations of Wal.
\<close>

subsection \<open>Calls in two halves\<close>

definition append_commit ::
  "('db, 'tx) badger \<Rightarrow> gob \<Rightarrow> string \<Rightarrow> message \<Rightarrow> 'db wal_store \<Rightarrow> (go_error + string) \<times> 'db wal_store" where
  "append_commit b g key msg s =
     (case encode_message g msg of
        Inl e \<Rightarrow> (Inl (Wrapped ''encode'' e), s)
      | Inr value \<Rightarrow>
          (case bd_update b (txn_set b key value
              (if wc_ttl (ws_cfg s) > 0 then Some (wc_ttl (ws_cfg s)) else None)) (ws_db s) of
             (Some e, db') \<Rightarrow> (Inl (Wrapped ''badger set'' e), s\<lparr>ws_db := db'\<rparr>)
           | (None, db') \<Rightarrow>
               (Inr key, s\<lparr>ws_db := db', ws_m := (ws_m s)\<lparr>wm_appended := wm_appended (ws_m s) + 1\<rparr>\<rparr>)))"

definition drain_read ::
  "('db, 'tx) badger \<Rightarrow> gob \<Rightarrow> int \<Rightarrow> 'db wal_store \<Rightarrow> go_error + message list \<times> string list" where
  "drain_read b g limit s =
     (if limit \<le> 0 then Inr ([], [])
      else (case bd_view b (\<lambda>items. drain_loop g (nat limit) (seek items) [] []) (ws_db s) of
          Inl e \<Rightarrow> Inl (Wrapped ''read'' e)
        | Inr (out, keys) \<Rightarrow> Inr (out, keys)))"

definition drain_finish ::
  "('db, 'tx) badger \<Rightarrow> message list \<Rightarrow> string list \<Rightarrow> 'db wal_store \<Rightarrow> (go_error + message list) \<times> 'db wal_store" where
  "drain_finish b out keys s =
     (if keys = [] then (Inr [], s)
      else (case bd_update b (delete_loop b keys) (ws_db s) of
          (Some e, db') \<Rightarrow> (Inl (Wrapped ''delete'' e), s\<lparr>ws_db := db'\<rparr>)
        | (None, db') \<Rightarrow>
            (Inr out, s\<lparr>ws_db := db',
               ws_m := (ws_m s)\<lparr>wm_drained := wm_drained (ws_m s) + int (length out)\<rparr>\<rparr>)))"

lemma append_halves: "wal_append b g now msg s = (case make_key now s of (key, s1) \<Rightarrow> append_commit b g key msg s1)"
  by (simp add: wal_append_def append_commit_def split: prod.split)

lemma drain_halves: "wal_drain b g limit s =
    (case drain_read b g limit s of Inl e \<Rightarrow> (Inl e, s) | Inr (out, keys) \<Rightarrow> drain_finish b out keys s)"
  by (auto simp: wal_drain_def drain_read_def drain_finish_def split: sum.split prod.split option.split)

subsection \<open>Overlapping calls\<close>

datatype wal_move = StartAppend time message | CommitAppend nat | StartDrain int | FinishDrain

record 'db wal_run =
  wr_store :: "'db wal_store"
  wr_pending :: "(string \<times> message) option list" \<comment> \<open>per Append, its key and message until it commits\<close>
  wr_drain :: "(message list \<times> string list) option" \<comment> \<open>what the Drain under way has read\<close>
  wr_appended :: "message list"
  wr_drained :: "message list"

fun wal_move_step :: "('db, 'tx) badger \<Rightarrow> gob \<Rightarrow> wal_move \<Rightarrow> 'db wal_run \<Rightarrow> 'db wal_run" where
  "wal_move_step b g (StartAppend now m) y =
     (case make_key now (wr_store y) of (k, s) \<Rightarrow>
        y\<lparr>wr_store := s, wr_pending := wr_pending y @ [Some (k, m)]\<rparr>)"
| "wal_move_step b g (CommitAppend i) y =
     (if i < length (wr_pending y) then
        (case wr_pending y ! i of
           None \<Rightarrow> y
         | Some (k, m) \<Rightarrow>
             (case append_commit b g k m (wr_store y) of (r, s) \<Rightarrow>
                y\<lparr>wr_store := s, wr_pending := (wr_pending y)[i := None],
                  wr_appended := wr_appended y @ (case r of Inl e \<Rightarrow> [] | Inr key \<Rightarrow> [m])\<rparr>))
      else y)"
| "wal_move_step b g (StartDrain n) y =
     (if wr_drain y \<noteq> None then y
      else (case drain_read b g n (wr_store y) of Inl e \<Rightarrow> y | Inr p \<Rightarrow> y\<lparr>wr_drain := Some p\<rparr>))"
| "wal_move_step b g FinishDrain y =
     (case wr_drain y of
        None \<Rightarrow> y
      | Some (out, keys) \<Rightarrow>
          (case drain_finish b out keys (wr_store y) of (r, s) \<Rightarrow>
             y\<lparr>wr_store := s, wr_drain := None,
               wr_drained := wr_drained y @ (case r of Inl e \<Rightarrow> [] | Inr ms \<Rightarrow> ms)\<rparr>))"

definition run_wal :: "('db, 'tx) badger \<Rightarrow> gob \<Rightarrow> wal_move list \<Rightarrow> 'db wal_store \<Rightarrow> 'db wal_run" where
  "run_wal b g mvs s = fold (wal_move_step b g) mvs
     \<lparr>wr_store = s, wr_pending = [], wr_drain = None, wr_appended = [], wr_drained = []\<rparr>"

subsection \<open>The invariant\<close>

fun slot_keys :: "(string \<times> message) option list \<Rightarrow> string list" where
  "slot_keys [] = []"
| "slot_keys (None # ps) = slot_keys ps"
| "slot_keys (Some (k, m) # ps) = k # slot_keys ps"

definition pending_keys :: "'db wal_run \<Rightarrow> string list" where
  "pending_keys y = slot_keys (wr_pending y)"

definition numbered :: "time \<Rightarrow> 64 word \<Rightarrow> string \<Rightarrow> bool" where
  \<comment> \<open>a key built before the instant \<open>t\<close>, or with a sequence number used already\<close>
  "numbered t q k \<longleftrightarrow> (\<exists>n c. k = key_text n c \<and> (n < nanos_word t \<or> c \<le> q))"

definition drain_ok :: "('db, 'tx) badger_view \<Rightarrow> gob \<Rightarrow> 'db wal_run \<Rightarrow> bool" where
  \<comment> \<open>what the Drain under way has read is still in the log\<close>
  "drain_ok v g y \<longleftrightarrow> (\<forall>out ks. wr_drain y = Some (out, ks) \<longrightarrow>
     (\<exists>es. ks = map fst es \<and> distinct ks \<and> out = map (\<lambda>(k, x). projr (decode_message g x)) es
        \<and> set es \<subseteq> set (log_entries v (ws_db (wr_store y)))))"

definition wal_run_inv ::
  "('db, 'tx) badger \<Rightarrow> ('db, 'tx) badger_view \<Rightarrow> gob \<Rightarrow> time \<Rightarrow> message multiset \<Rightarrow> nat \<Rightarrow> 'db wal_run \<Rightarrow> bool" where
  "wal_run_inv b v g t start k y \<longleftrightarrow> wal_inv b v g (wr_store y) \<and> 0 \<le> t
     \<and> unat (ws_seq (wr_store y)) + k < 2 ^ 64
     \<and> distinct (pending_keys y) \<and> set (pending_keys y) \<inter> fst ` set (log_entries v (ws_db (wr_store y))) = {}
     \<and> (\<forall>x \<in> set (pending_keys y) \<union> fst ` set (log_entries v (ws_db (wr_store y))).
          numbered t (ws_seq (wr_store y)) x)
     \<and> (\<forall>x m. Some (x, m) \<in> set (wr_pending y) \<longrightarrow> wal_message m)
     \<and> drain_ok v g y
     \<and> mset (wal_log v g (wr_store y)) + mset (wr_drained y) = start + mset (wr_appended y)"

lemma slot_keys_append [simp]: "slot_keys (ps @ qs) = slot_keys ps @ slot_keys qs"
  by (induction ps rule: slot_keys.induct) auto

lemma pending_keys_append [simp]: "pending_keys (y\<lparr>wr_pending := ps @ [Some (k, m)]\<rparr>) = pending_keys (y\<lparr>wr_pending := ps\<rparr>) @ [k]"
  by (simp add: pending_keys_def)

lemma pending_keys_frame [simp]:
  "pending_keys (y\<lparr>wr_store := s\<rparr>) = pending_keys y" "pending_keys (y\<lparr>wr_drain := d\<rparr>) = pending_keys y"
  "pending_keys (y\<lparr>wr_appended := a\<rparr>) = pending_keys y" "pending_keys (y\<lparr>wr_drained := a\<rparr>) = pending_keys y"
  "pending_keys (y\<lparr>wr_pending := wr_pending y\<rparr>) = pending_keys y"
  by (simp_all add: pending_keys_def)

lemma slot_keys_drop:
  assumes "i < length ps" "ps ! i = Some (k, m)"
  shows "slot_keys ps = slot_keys (take i ps) @ k # slot_keys (drop (Suc i) ps)"
    "slot_keys (ps[i := None]) = slot_keys (take i ps) @ slot_keys (drop (Suc i) ps)"
proof -
  have "ps = take i ps @ Some (k, m) # drop (Suc i) ps" using assms id_take_nth_drop [of i ps] by simp
  then show "slot_keys ps = slot_keys (take i ps) @ k # slot_keys (drop (Suc i) ps)"
    by (metis slot_keys.simps(3) slot_keys_append)
  show "slot_keys (ps[i := None]) = slot_keys (take i ps) @ slot_keys (drop (Suc i) ps)"
    using assms by (simp add: upd_conv_take_nth_drop)
qed

lemma numbered_mono: "numbered t q k \<Longrightarrow> q \<le> q' \<Longrightarrow> numbered t q' k"
  unfolding numbered_def using order_trans by blast

lemma new_key_fresh:
  assumes "numbered t q k" "0 \<le> t" "t \<le> now" "now < 2 ^ 63" "unat q + 1 < 2 ^ 64"
  shows "k \<noteq> key_text (nanos_word now) (q + 1)"
proof
  assume "k = key_text (nanos_word now) (q + 1)"
  with assms(1) have "nanos_word now < nanos_word t \<or> q + 1 \<le> q"
    unfolding numbered_def by (auto simp: key_text_inj)
  moreover have "nanos_word t \<le> nanos_word now" by (rule nanos_word_mono [OF assms(2-4)])
  moreover have "q < q + 1" using seq_less [OF assms(5)] by simp
  ultimately show False by (meson leD)
qed

lemma numbered_new: "numbered t (q + 1) (key_text n (q + 1))"
  unfolding numbered_def by blast

lemma start_append_inv:
  assumes v: "wal_run_inv b v g t start (Suc k) y" and m: "t \<le> now" "now < 2 ^ 63" "wal_message m"
  shows "wal_run_inv b v g t start k (wal_move_step b g (StartAppend now m) y)"
proof -
  let ?s = "wr_store y" and ?new = "fst (make_key now (wr_store y))" and ?s1 = "snd (make_key now (wr_store y))"
  have sq: "unat (ws_seq ?s) + 1 < 2 ^ 64" using v by (simp add: wal_run_inv_def)
  note up = seq_less [OF sq]
  let ?used = "set (pending_keys y) \<union> fst ` set (log_entries v (ws_db ?s))"
  have num: "\<forall>x \<in> ?used. numbered t (ws_seq ?s) x" and t0: "0 \<le> t" using v by (auto simp: wal_run_inv_def)
  have fresh: "?new \<notin> ?used" unfolding make_key_text using num new_key_fresh [OF _ t0 m(1,2) sq] by blast
  have new: "numbered t (ws_seq ?s + 1) ?new" unfolding make_key_text by (rule numbered_new)
  have "ws_seq ?s \<le> ws_seq ?s + 1" using up by (simp only: less_imp_le)
  then have old: "\<forall>x \<in> ?used. numbered t (ws_seq ?s + 1) x" using num numbered_mono by blast
  define z where "z = wal_move_step b g (StartAppend now m) y"
  have z: "z = y\<lparr>wr_store := ?s1, wr_pending := wr_pending y @ [Some (?new, m)]\<rparr>"
    by (simp add: z_def case_prod_beta)
  have fld: "wr_store z = ?s1" "pending_keys z = pending_keys y @ [?new]" "wr_drain z = wr_drain y"
    "wr_pending z = wr_pending y @ [Some (?new, m)]" "wr_appended z = wr_appended y"
    "wr_drained z = wr_drained y" unfolding z by simp_all
  have inv: "wal_inv b v g ?s1 \<longleftrightarrow> wal_inv b v g ?s" "wal_log v g ?s1 = wal_log v g ?s"
    by (simp_all add: wal_inv_def wal_log_def)
  show ?thesis unfolding z_def [symmetric]
    using v fresh new old up m(3) unfolding wal_run_inv_def drain_ok_def fld inv by auto
qed

lemma append_commit_cases:
  assumes "append_commit b g k m s = (r, s')" "badger_writes b v"
  shows "ws_seq s' = ws_seq s"
    and "r = Inl e \<Longrightarrow> bv_live v (ws_db s') = bv_live v (ws_db s)"
    and "r = Inr k' \<Longrightarrow> \<exists>x. encode_message g m = Inr x \<and> bv_live v (ws_db s') = apply_write (k, Some x) (bv_live v (ws_db s))"
proof -
  have "ws_seq s' = ws_seq s
    \<and> (case r of Inl e \<Rightarrow> bv_live v (ws_db s') = bv_live v (ws_db s)
       | Inr k' \<Rightarrow> \<exists>x. encode_message g m = Inr x \<and> bv_live v (ws_db s') = apply_write (k, Some x) (bv_live v (ws_db s)))"
  proof (cases "encode_message g m")
    case (Inl e)
    then show ?thesis using assms(1) by (auto simp: append_commit_def)
  next
    case (Inr x)
    let ?ttl = "if wc_ttl (ws_cfg s) > 0 then Some (wc_ttl (ws_cfg s)) else None"
    obtain res db' where u: "bd_update b (txn_set b k x ?ttl) (ws_db s) = (res, db')" by (metis surj_pair)
    note upd = bd_update_cases [OF u assms(2)]
    have w: "bv_writes v tx = [(k, Some x)]" if "txn_set b k x ?ttl (bd_txn b (ws_db s)) = (None, tx)" for tx
      using assms(2) that unfolding badger_writes_def by (metis append_Nil)
    have "append_commit b g k m s = (case res of
        Some e \<Rightarrow> (Inl (Wrapped ''badger set'' e), s\<lparr>ws_db := db'\<rparr>)
      | None \<Rightarrow> (Inr k, s\<lparr>ws_db := db', ws_m := (ws_m s)\<lparr>wm_appended := wm_appended (ws_m s) + 1\<rparr>\<rparr>))"
      using u Inr by (cases "0 < wc_ttl (ws_cfg s)") (simp_all add: append_commit_def split: option.splits)
    with assms(1) upd w Inr show ?thesis by (cases res) auto
  qed
  then show "ws_seq s' = ws_seq s" "r = Inl e \<Longrightarrow> bv_live v (ws_db s') = bv_live v (ws_db s)"
    "r = Inr k' \<Longrightarrow> \<exists>x. encode_message g m = Inr x \<and> bv_live v (ws_db s') = apply_write (k, Some x) (bv_live v (ws_db s))"
    by auto
qed

lemma commit_append_inv:
  assumes v: "wal_run_inv b v g t start k y"
  shows "wal_run_inv b v g t start k (wal_move_step b g (CommitAppend i) y)"
proof (cases "i < length (wr_pending y) \<and> wr_pending y ! i \<noteq> None")
  case False
  then show ?thesis using v by (cases "wr_pending y ! i") auto
next
  case True
  then obtain x m where p: "wr_pending y ! i = Some (x, m)" and i: "i < length (wr_pending y)" by auto
  let ?s = "wr_store y"
  have con: "badger_contract b v" and wr: "badger_writes b v" and gob: "gob_contract g"
    using v by (auto simp: wal_run_inv_def wal_inv_def badger_contract_def)
  obtain r s where a: "append_commit b g x m ?s = (r, s)" by (metis surj_pair)
  note c = append_commit_cases [OF a wr]
  define z where "z = wal_move_step b g (CommitAppend i) y"
  have z: "z = y\<lparr>wr_store := s, wr_pending := (wr_pending y)[i := None],
      wr_appended := wr_appended y @ (case r of Inl e \<Rightarrow> [] | Inr key \<Rightarrow> [m])\<rparr>" using i p a by (simp add: z_def)
  obtain as bs where ks: "pending_keys y = as @ x # bs" "pending_keys z = as @ bs"
    using slot_keys_drop [OF i p] unfolding z by (auto simp: pending_keys_def)
  have pend: "\<forall>q n. Some (q, n) \<in> set (wr_pending z) \<longrightarrow> wal_message n"
  proof (intro allI impI)
    fix q n assume "Some (q, n) \<in> set (wr_pending z)"
    then have "Some (q, n) \<in> set (wr_pending y)"
      unfolding z by simp (metis insertE option.distinct(1) set_update_subset_insert subsetD)
    then show "wal_message n" using v by (auto simp: wal_run_inv_def)
  qed
  have okm: "wal_message m" using v p i unfolding wal_run_inv_def by (metis nth_mem)
  have fld: "wr_store z = s" "wr_drain z = wr_drain y" "wr_drained z = wr_drained y" by (simp_all add: z)
  show ?thesis unfolding z_def [symmetric]
  proof (cases r)
    case (Inl e)
    then have live: "log_entries v (ws_db s) = log_entries v (ws_db ?s)" using c(2) by (simp add: log_entries_def)
    have "wal_inv b v g s \<longleftrightarrow> wal_inv b v g ?s" "wal_log v g s = wal_log v g ?s" using live by (simp_all add: wal_inv_def wal_log_def)
    moreover have "wr_appended z = wr_appended y" using Inl by (simp add: z)
    ultimately show "wal_run_inv b v g t start k z"
      using v c(1) pend unfolding wal_run_inv_def drain_ok_def fld ks live by auto
  next
    case (Inr key)
    then obtain val where e: "encode_message g m = Inr val"
      "bv_live v (ws_db s) = apply_write (x, Some val) (bv_live v (ws_db ?s))" using c(3) by blast
    have x: "x \<notin> fst ` set (log_entries v (ws_db ?s))" "numbered t (ws_seq ?s) x"
      using v ks(1) by (auto simp: wal_run_inv_def)
    then have "has_prefix x key_prefix" unfolding numbered_def by auto
    from log_insert [OF con this x(1) e(2)]
    have ins: "log_entries v (ws_db s) = insort_key fst (x, val) (log_entries v (ws_db ?s))" .
    then have keys: "fst ` set (log_entries v (ws_db s)) = insert x (fst ` set (log_entries v (ws_db ?s)))"
      by (simp add: set_insort_key)
    have dec: "decode_message g val = Inr m"
      using decode_encode_message [OF gob e(1)] okm gob_slice_wal_message [OF okm] by (simp add: wal_message_def)
    have inv: "wal_inv b v g s" using v ins dec by (simp add: wal_run_inv_def wal_inv_def set_insort_key)
    have log: "mset (wal_log v g s) = add_mset m (mset (wal_log v g ?s))" using ins dec by (simp add: wal_log_def)
    have "set (log_entries v (ws_db ?s)) \<subseteq> set (log_entries v (ws_db s))" using ins by (auto simp: set_insort_key)
    then have dr: "drain_ok v g z" using v unfolding wal_run_inv_def drain_ok_def fld by blast
    have app: "wr_appended z = wr_appended y @ [m]" using Inr by (simp add: z)
    show "wal_run_inv b v g t start k z"
      using v inv log c(1) pend dr x unfolding wal_run_inv_def fld ks keys app by auto
  qed
qed

lemma start_drain_inv:
  assumes v: "wal_run_inv b v g t start k y"
  shows "wal_run_inv b v g t start k (wal_move_step b g (StartDrain n) y)"
proof (cases "wr_drain y = None")
  case False
  then show ?thesis using v by auto
next
  case True
  have con: "badger_contract b v" using v by (simp add: wal_run_inv_def wal_inv_def)
  let ?es = "log_entries v (ws_db (wr_store y))"
  have "\<exists>es. keys = map fst es \<and> distinct keys \<and> out = map (\<lambda>(k, x). projr (decode_message g x)) es
      \<and> set es \<subseteq> set ?es" if d: "drain_read b g n (wr_store y) = Inr (out, keys)" for out keys
  proof (cases "n \<le> 0")
    case True
    then show ?thesis using d by (simp add: drain_read_def)
  next
    case False
    then have loop: "drain_loop g (nat n) (seek (bd_items b (ws_db (wr_store y)))) [] [] = Inr (out, keys)"
      using d by (auto simp: drain_read_def bd_view_def split: option.splits sum.splits)
    from drain_loop_spec [OF loop] list_all2_take_decode [OF live_block_log [OF con, of "ws_db (wr_store y)"]]
    have "keys = map fst (take (nat n) ?es)"
      "out = map (\<lambda>(k, x). projr (decode_message g x)) (take (nat n) ?es)" by (auto simp: take_map)
    moreover have "distinct (map fst (take (nat n) ?es))"
      using log_keys_distinct [OF con] by (simp add: distinct_take flip: take_map)
    ultimately show ?thesis by (metis set_take_subset)
  qed
  then show ?thesis using v True
    by (auto simp: wal_run_inv_def drain_ok_def split: sum.splits)
qed

lemma mset_sub_keys:
  assumes "distinct (map fst l)" "distinct (map fst es)" "set es \<subseteq> set l"
  shows "mset (filter (\<lambda>p. fst p \<in> fst ` set es) l) = mset es"
proof -
  have "filter (\<lambda>p. fst p \<in> fst ` set es) l = filter (\<lambda>p. p \<in> set es) l"
  proof (intro filter_cong refl iffI)
    fix p assume p: "p \<in> set l" "fst p \<in> fst ` set es"
    then obtain q where "q \<in> set es" "fst q = fst p" by auto
    then show "p \<in> set es" using p assms(1,3) by (metis distinct_map inj_onD subsetD)
  qed simp
  moreover have "set_mset (mset (filter (\<lambda>p. p \<in> set es) l)) = set_mset (mset es)" using assms(3) by auto
  ultimately show ?thesis
    using assms(1,2) by (metis distinct_filter distinct_map set_eq_iff_mset_eq_distinct set_mset_mset)
qed

lemma finish_drain_inv:
  assumes v: "wal_run_inv b v g t start k y"
  shows "wal_run_inv b v g t start k (wal_move_step b g FinishDrain y)"
proof (cases "wr_drain y")
  case None
  then show ?thesis using v by auto
next
  case (Some p)
  obtain out keys where p: "wr_drain y = Some (out, keys)" using Some by (cases p) auto
  let ?s = "wr_store y" and ?es = "log_entries v (ws_db (wr_store y))"
  have con: "badger_contract b v" and wr: "badger_writes b v"
    using v by (auto simp: wal_run_inv_def wal_inv_def badger_contract_def)
  obtain es where es: "keys = map fst es" "distinct keys" "set es \<subseteq> set ?es"
    "out = map (\<lambda>(k, x). projr (decode_message g x)) es"
    using v p unfolding wal_run_inv_def drain_ok_def by blast
  obtain r s where f: "drain_finish b out keys ?s = (r, s)" by (metis surj_pair)
  define z where "z = wal_move_step b g FinishDrain y"
  have fld: "wr_store z = s" "pending_keys z = pending_keys y" "wr_drain z = None" "wr_pending z = wr_pending y"
    "wr_appended z = wr_appended y" "wr_drained z = wr_drained y @ (case r of Inl e \<Rightarrow> [] | Inr ms \<Rightarrow> ms)"
    using p f by (simp_all add: z_def pending_keys_def)
  have out: "ws_seq s = ws_seq ?s \<and> set (log_entries v (ws_db s)) \<subseteq> set ?es
      \<and> mset (wal_log v g s) + mset (case r of Inl e \<Rightarrow> [] | Inr ms \<Rightarrow> ms) = mset (wal_log v g ?s)"
  proof (cases "keys = []")
    case True
    then show ?thesis using f by (auto simp: drain_finish_def)
  next
    case False
    obtain res db' where u: "bd_update b (delete_loop b keys) (ws_db ?s) = (res, db')" by (metis surj_pair)
    note upd = bd_update_cases [OF u wr]
    show ?thesis
    proof (cases res)
      case (Some e)
      then have "log_entries v db' = ?es" using upd(1) by (simp add: log_entries_def)
      then show ?thesis using f u Some False by (auto simp: drain_finish_def wal_log_def)
    next
      case None
      then obtain tx where "delete_loop b keys (bd_txn b (ws_db ?s)) = (None, tx)"
        "bv_live v db' = fold apply_write (bv_writes v tx) (bv_live v (ws_db ?s))" using upd(2) by auto
      then have "bv_live v db' = filter (\<lambda>p. fst p \<notin> set keys) (bv_live v (ws_db ?s))"
        using delete_loop_writes [OF wr] wr by (simp add: badger_writes_def apply_deletes)
      then have rest: "log_entries v db' = filter (\<lambda>p. fst p \<notin> set keys) ?es"
        by (simp add: log_entries_def filter_filter conj_commute case_prod_beta)
      have taken: "mset (filter (\<lambda>p. fst p \<in> set keys) ?es) = mset es"
        using es log_keys_distinct [OF con] mset_sub_keys [of ?es es] by simp
      have "mset ?es = mset (log_entries v db') + mset es"
        unfolding rest taken [symmetric] using multiset_partition [of "mset ?es" "\<lambda>p. fst p \<notin> set keys"] by simp
      then have "image_mset (\<lambda>(k, x). projr (decode_message g x)) (mset ?es)
        = image_mset (\<lambda>(k, x). projr (decode_message g x)) (mset (log_entries v db') + mset es)" by simp
      then show ?thesis using f u None False es(4)
        by (auto simp: drain_finish_def wal_log_def rest)
    qed
  qed
  then have inv: "wal_inv b v g s" using v unfolding wal_run_inv_def wal_inv_def by blast
  have num: "\<forall>x \<in> set (pending_keys y) \<union> fst ` set (log_entries v (ws_db s)). numbered t (ws_seq ?s) x"
    and sep: "set (pending_keys y) \<inter> fst ` set (log_entries v (ws_db s)) = {}"
    using v out unfolding wal_run_inv_def by (meson Un_iff image_mono subsetD, blast)
  show ?thesis unfolding z_def [symmetric]
    using v inv out num sep unfolding wal_run_inv_def drain_ok_def fld by (simp add: ac_simps)
qed

lemma wal_run_inv_fewer: "wal_run_inv b v g t start (Suc k) y \<Longrightarrow> wal_run_inv b v g t start k y"
  by (auto simp: wal_run_inv_def)

fun move_ok :: "time \<Rightarrow> wal_move \<Rightarrow> bool" where
  \<comment> \<open>an Append reads a clock not before \<open>t\<close>, before the year 2262; its message has its shape\<close>
  "move_ok t (StartAppend now m) \<longleftrightarrow> t \<le> now \<and> now < 2 ^ 63 \<and> wal_message m"
| "move_ok t mv \<longleftrightarrow> True"

lemma wal_move_inv:
  assumes "wal_run_inv b v g t start (Suc k) y" "move_ok t mv"
  shows "wal_run_inv b v g t start k (wal_move_step b g mv y)"
proof (cases mv)
  case (StartAppend now m)
  then show ?thesis using start_append_inv [OF assms(1)] assms(2) by simp
next
  case (CommitAppend i)
  then show ?thesis using commit_append_inv [OF wal_run_inv_fewer [OF assms(1)]] by simp
next
  case (StartDrain n)
  then show ?thesis using start_drain_inv [OF wal_run_inv_fewer [OF assms(1)]] by simp
next
  case FinishDrain
  then show ?thesis using finish_drain_inv [OF wal_run_inv_fewer [OF assms(1)]] by simp
qed

lemma wal_moves_inv:
  assumes "wal_run_inv b v g t start (length mvs) y" "list_all (move_ok t) mvs"
  shows "wal_run_inv b v g t start 0 (fold (wal_move_step b g) mvs y)"
  using assms
proof (induction mvs arbitrary: y)
  case (Cons mv mvs)
  then show ?case using wal_move_inv [of b v g t start "length mvs" y mv] by simp
qed simp

lemma wal_run_start:
  assumes "wal_inv b v g s" "wal_before v t s" "unat (ws_seq s) + k < 2 ^ 64"
  shows "wal_run_inv b v g t (mset (wal_log v g s)) k
    \<lparr>wr_store = s, wr_pending = [], wr_drain = None, wr_appended = [], wr_drained = []\<rparr>"
  using assms by (fastforce simp: wal_run_inv_def pending_keys_def drain_ok_def numbered_def wal_before_def)

subsection \<open>Properties\<close>

text \<open>C16: overlapping calls on the log. Any number of Appends and a Drain under way at a time, each between its
  two halves (the key built but not committed, the messages read but not deleted) while others start, commit
  or fail: the invariant holds after every sequence of halves, and what the log held with what the Appends
  committed is what the Drains returned with what it still holds; nothing is lost or drained twice, for the
  sequence number is atomic and a key is never reused.\<close>
theorem wal_overlap_conserves:
  assumes "wal_inv b v g s" "wal_before v t s" "list_all (move_ok t) mvs"
    and "unat (ws_seq s) + length mvs < 2 ^ 64" "run_wal b g mvs s = y"
  shows "mset (wal_log v g s) + mset (wr_appended y) = mset (wr_drained y) + mset (wal_log v g (wr_store y))
    \<and> wal_inv b v g (wr_store y)"
proof -
  have "wal_run_inv b v g t (mset (wal_log v g s)) 0 y"
    using wal_moves_inv [OF wal_run_start [OF assms(1,2,4)] assms(3)] assms(5) by (simp add: run_wal_def)
  then show ?thesis by (simp add: wal_run_inv_def ac_simps)
qed

lemma wal_overlap_conserves_witness:
  "let y = run_wal mem_badger table_gob
        [StartAppend 5 (wal_demo_message ''a''), StartAppend 5 (wal_demo_message ''b''), CommitAppend 1,
         StartDrain 10, CommitAppend 0, FinishDrain] empty_store
   in wr_drained y = [wal_demo_message ''b'']
      \<and> mset (wal_log mem_badger_view table_gob (wr_store y)) = {#wal_demo_message ''a''#}"
proof -
  let ?mvs = "[StartAppend 5 (wal_demo_message ''a''), StartAppend 5 (wal_demo_message ''b''), CommitAppend 1,
         StartDrain 10, CommitAppend 0, FinishDrain]"
  let ?y = "run_wal mem_badger table_gob ?mvs empty_store"
  have out: "wr_drained ?y = [wal_demo_message ''b'']"
    "wr_appended ?y = [wal_demo_message ''b'', wal_demo_message ''a'']" by code_simp+
  have "wal_message (wal_demo_message k)" for k
    by (simp add: wal_message_def wal_demo_message_def zero_message_def)
  then have ok: "list_all (move_ok 0) ?mvs" by simp
  have before: "wal_before mem_badger_view 0 empty_store" by (simp add: empty_store_inv)
  have room: "unat (ws_seq empty_store) + length ?mvs < 2 ^ 64" by (simp add: empty_store_def)
  obtain y where y: "?y = y" by simp
  from wal_overlap_conserves [OF empty_store_inv(1) before ok room y] out show ?thesis
    unfolding y by (simp add: empty_store_inv Let_def)
qed

end
