(* ===== verification/WalExpiry.thy ===== *)
theory WalExpiry
  imports Wal
begin

text \<open>
  The lifetime of WAL entries. Append gives an entry the TTL of the configuration and Badger lets it
  expire by its own clock; no call of the store is involved. \<open>badger_ttl\<close> is what an observer sees of it:
  the clock of the database, the expiry instant of a key and the database after time has passed. Badger
  counts in whole seconds, so an entry may go up to one second early. A run is a sequence of calls of the
  store, each at its instant; what expired in between is recorded beside what was appended and drained.
\<close>

subsection \<open>Badger's clock\<close>

record 'db badger_ttl =
  bt_age :: "time \<Rightarrow> 'db \<Rightarrow> 'db"
  bt_clock :: "'db \<Rightarrow> time"
  bt_expiry :: "'db \<Rightarrow> string \<Rightarrow> time option"

definition survives :: "time option \<Rightarrow> time \<Rightarrow> bool" where
  "survives e now \<longleftrightarrow> (case e of None \<Rightarrow> True | Some z \<Rightarrow> now < z)"

definition lifetime :: "duration \<Rightarrow> time \<Rightarrow> time option \<Rightarrow> bool" where
  \<comment> \<open>the expiry of an entry set at the instant \<open>at\<close> with this TTL\<close>
  "lifetime ttl at e \<longleftrightarrow> (if ttl \<le> 0 then e = None
     else (\<exists>z. e = Some z \<and> at + ttl - second < z \<and> z \<le> at + ttl))"

definition ttl_ages :: "('db, 'tx) badger_view \<Rightarrow> 'db badger_ttl \<Rightarrow> bool" where
  "ttl_ages v x \<longleftrightarrow> (\<forall>now db. bt_clock x db \<le> now \<longrightarrow> bt_clock x (bt_age x now db) = now
     \<and> bt_expiry x (bt_age x now db) = bt_expiry x db
     \<and> bv_live v (bt_age x now db) = filter (\<lambda>p. survives (bt_expiry x db (fst p)) now) (bv_live v db))"

definition ttl_commits :: "('db, 'tx) badger \<Rightarrow> ('db, 'tx) badger_view \<Rightarrow> 'db badger_ttl \<Rightarrow> bool" where
  "ttl_commits b v x \<longleftrightarrow> (\<forall>tx db. bt_clock x (snd (bd_commit b tx db)) = bt_clock x db
     \<and> (\<forall>k. fst (bd_commit b tx db) \<noteq> None \<or> k \<notin> fst ` set (bv_writes v tx) \<longrightarrow>
          bt_expiry x (snd (bd_commit b tx db)) k = bt_expiry x db k))"

definition ttl_sets :: "('db, 'tx) badger \<Rightarrow> 'db badger_ttl \<Rightarrow> bool" where
  "ttl_sets b x \<longleftrightarrow> (\<forall>k val ttl db tx db'.
     txn_set b k val ttl (bd_txn b db) = (None, tx) \<and> bd_commit b tx db = (None, db') \<longrightarrow>
     lifetime (case ttl of None \<Rightarrow> 0 | Some d \<Rightarrow> d) (bt_clock x db) (bt_expiry x db' k))"

definition ttl_law :: "('db, 'tx) badger \<Rightarrow> ('db, 'tx) badger_view \<Rightarrow> 'db badger_ttl \<Rightarrow> bool" where
  "ttl_law b v x \<longleftrightarrow> ttl_ages v x \<and> ttl_commits b v x \<and> ttl_sets b x"

subsection \<open>Runs\<close>

datatype wal_call = CallAppend message | CallDrain int | CallRefresh

record 'db timed_log =
  tl_store :: "'db wal_store"
  tl_appended :: "(time \<times> string \<times> message) list"
  tl_drained :: "message list"
  tl_expired :: "(time \<times> string \<times> message) list"

definition log_items :: "('db, 'tx) badger_view \<Rightarrow> gob \<Rightarrow> 'db \<Rightarrow> (string \<times> message) list" where
  "log_items v g db = map (\<lambda>(k, y). (k, projr (decode_message g y))) (log_entries v db)"

definition pass_time ::
  "('db, 'tx) badger_view \<Rightarrow> gob \<Rightarrow> 'db badger_ttl \<Rightarrow> time \<Rightarrow> 'db timed_log \<Rightarrow> 'db timed_log" where
  "pass_time v g x now y =
     (let db = ws_db (tl_store y); db' = bt_age x now db
      in y\<lparr>tl_store := (tl_store y)\<lparr>ws_db := db'\<rparr>,
           tl_expired := tl_expired y @ map (Pair now)
             (filter (\<lambda>p. fst p \<notin> fst ` set (log_items v g db')) (log_items v g db))\<rparr>)"

fun timed_step ::
  "('db, 'tx) badger \<Rightarrow> ('db, 'tx) badger_view \<Rightarrow> gob \<Rightarrow> 'db badger_ttl \<Rightarrow> time \<times> wal_call
   \<Rightarrow> 'db timed_log \<Rightarrow> 'db timed_log" where
  "timed_step b v g x (now, c) y0 =
     (let y = pass_time v g x now y0
      in case c of
           CallAppend m \<Rightarrow>
             (case wal_append b g now m (tl_store y) of
                (Inl e, s) \<Rightarrow> y\<lparr>tl_store := s\<rparr>
              | (Inr k, s) \<Rightarrow> y\<lparr>tl_store := s, tl_appended := tl_appended y @ [(now, k, m)]\<rparr>)
         | CallDrain n \<Rightarrow>
             (case wal_drain b g n (tl_store y) of
                (Inl e, s) \<Rightarrow> y\<lparr>tl_store := s\<rparr>
              | (Inr ms, s) \<Rightarrow> y\<lparr>tl_store := s, tl_drained := tl_drained y @ ms\<rparr>)
         | CallRefresh \<Rightarrow> y\<lparr>tl_store := snd (refresh_metrics b now (tl_store y))\<rparr>)"

definition timed_run ::
  "('db, 'tx) badger \<Rightarrow> ('db, 'tx) badger_view \<Rightarrow> gob \<Rightarrow> 'db badger_ttl \<Rightarrow> (time \<times> wal_call) list
   \<Rightarrow> 'db wal_store \<Rightarrow> 'db timed_log" where
  "timed_run b v g x cs s = fold (timed_step b v g x) cs
     \<lparr>tl_store = s, tl_appended = [], tl_drained = [], tl_expired = []\<rparr>"

fun calls_ok :: "time \<Rightarrow> (time \<times> wal_call) list \<Rightarrow> bool" where
  \<comment> \<open>the clock does not run backwards, stays before the year 2262, and messages have their shape\<close>
  "calls_ok t [] \<longleftrightarrow> True"
| "calls_ok t ((now, c) # cs) \<longleftrightarrow> t \<le> now \<and> now < 2 ^ 63
     \<and> (case c of CallAppend m \<Rightarrow> wal_message m | _ \<Rightarrow> True) \<and> calls_ok now cs"

subsection \<open>The calls and the expiry of keys\<close>

lemma wal_log_items: "wal_log v g s = map snd (log_items v g (ws_db s))"
  by (simp add: wal_log_def log_items_def case_prod_beta)

lemma log_items_keys: "fst ` set (log_items v g db) = fst ` set (log_entries v db)"
  by (force simp: log_items_def)

lemma bd_update_ttl:
  assumes "bd_update b fn db = (r, db')" "ttl_commits b v x"
  shows "bt_clock x db' = bt_clock x db"
    and "(\<And>tx. r = None \<Longrightarrow> fn (bd_txn b db) = (None, tx) \<Longrightarrow> k \<notin> fst ` set (bv_writes v tx)) \<Longrightarrow>
      bt_expiry x db' k = bt_expiry x db k"
proof -
  have c: "bd_commit b tx db = (q, d) \<Longrightarrow> bt_clock x d = bt_clock x db" for tx q d
    using assms(2) unfolding ttl_commits_def by (metis snd_conv)
  have e: "fst (bd_commit b tx db) \<noteq> None \<or> k \<notin> fst ` set (bv_writes v tx) \<Longrightarrow>
      bt_expiry x (snd (bd_commit b tx db)) k = bt_expiry x db k" for tx k
    using assms(2) unfolding ttl_commits_def by auto
  show "bt_clock x db' = bt_clock x db"
    using assms(1) c by (auto simp: bd_update_def split: option.splits prod.splits)
  show "bt_expiry x db' k = bt_expiry x db k"
    if h: "\<And>tx. r = None \<Longrightarrow> fn (bd_txn b db) = (None, tx) \<Longrightarrow> k \<notin> fst ` set (bv_writes v tx)"
  proof (cases "\<exists>tx. bd_closed b db = None \<and> fn (bd_txn b db) = (None, tx)")
    case True
    then obtain tx where tx: "fn (bd_txn b db) = (None, tx)" "bd_commit b tx db = (r, db')"
      using assms(1) by (auto simp: bd_update_def)
    then show ?thesis using e [of tx k] h [OF _ tx(1)] by (cases r) auto
  next
    case False
    then have "db' = db" using assms(1) by (auto simp: bd_update_def split: option.splits prod.splits)
    then show ?thesis by simp
  qed
qed

lemma append_ttl:
  assumes "wal_append b g now m s = (r, s')" "ttl_law b v x" "badger_writes b v"
  shows "bt_clock x (ws_db s') = bt_clock x (ws_db s)" "ws_cfg s' = ws_cfg s"
    "wm_expired (ws_m s') = wm_expired (ws_m s)"
    "isl r \<or> k \<noteq> projr r \<Longrightarrow> bt_expiry x (ws_db s') k = bt_expiry x (ws_db s) k"
    "r = Inr k' \<Longrightarrow> lifetime (wc_ttl (ws_cfg s)) (bt_clock x (ws_db s)) (bt_expiry x (ws_db s') k')"
proof -
  let ?k = "fst (make_key now s)" and ?s1 = "snd (make_key now s)"
  let ?ttl = "if wc_ttl (ws_cfg s) > 0 then Some (wc_ttl (ws_cfg s)) else None"
  have com: "ttl_commits b v x" and set: "ttl_sets b x" using assms(2) by (simp_all add: ttl_law_def)
  have "bt_clock x (ws_db s') = bt_clock x (ws_db s) \<and> ws_cfg s' = ws_cfg s
    \<and> wm_expired (ws_m s') = wm_expired (ws_m s)
    \<and> (isl r \<or> k \<noteq> projr r \<longrightarrow> bt_expiry x (ws_db s') k = bt_expiry x (ws_db s) k)
    \<and> (r = Inr k' \<longrightarrow> lifetime (wc_ttl (ws_cfg s)) (bt_clock x (ws_db s)) (bt_expiry x (ws_db s') k'))"
  proof (cases "encode_message g m")
    case (Inl e)
    then have "wal_append b g now m s = (Inl (Wrapped ''encode'' e), ?s1)"
      by (simp add: wal_append_def case_prod_beta)
    then show ?thesis using assms(1) by auto
  next
    case (Inr y)
    obtain res db' where u: "bd_update b (txn_set b ?k y ?ttl) (ws_db s) = (res, db')" by (metis surj_pair)
    have w: "bv_writes v tx = [(?k, Some y)]" if "txn_set b ?k y ?ttl (bd_txn b (ws_db s)) = (None, tx)" for tx
      using assms(3) that unfolding badger_writes_def by (metis append_Nil)
    have out: "wal_append b g now m s = (case res of
        Some e \<Rightarrow> (Inl (Wrapped ''badger set'' e), ?s1\<lparr>ws_db := db'\<rparr>)
      | None \<Rightarrow> (Inr ?k, ?s1\<lparr>ws_db := db', ws_m := (ws_m s)\<lparr>wm_appended := wm_appended (ws_m s) + 1\<rparr>\<rparr>))"
      using u Inr by (cases "0 < wc_ttl (ws_cfg s)")
        (simp_all add: wal_append_def case_prod_beta split: option.splits)
    have same: "bt_expiry x db' k = bt_expiry x (ws_db s) k" if "res \<noteq> None \<or> k \<noteq> ?k"
      by (rule bd_update_ttl(2) [OF u com]) (use that w in auto)
    have life: "lifetime (wc_ttl (ws_cfg s)) (bt_clock x (ws_db s)) (bt_expiry x db' ?k)" if none: "res = None"
    proof -
      obtain tx where tx: "txn_set b ?k y ?ttl (bd_txn b (ws_db s)) = (None, tx)" "bd_commit b tx (ws_db s) = (None, db')"
        using u unfolding none by (auto simp: bd_update_def split: option.splits prod.splits)
      then have "lifetime (case ?ttl of None \<Rightarrow> 0 | Some d \<Rightarrow> d) (bt_clock x (ws_db s)) (bt_expiry x db' ?k)"
        using set unfolding ttl_sets_def by blast
      then show ?thesis by (auto simp: lifetime_def split: if_splits)
    qed
    show ?thesis using out assms(1) bd_update_ttl(1) [OF u com] same life by (cases res) auto
  qed
  then show "bt_clock x (ws_db s') = bt_clock x (ws_db s)" "ws_cfg s' = ws_cfg s"
    "wm_expired (ws_m s') = wm_expired (ws_m s)"
    "isl r \<or> k \<noteq> projr r \<Longrightarrow> bt_expiry x (ws_db s') k = bt_expiry x (ws_db s) k"
    "r = Inr k' \<Longrightarrow> lifetime (wc_ttl (ws_cfg s)) (bt_clock x (ws_db s)) (bt_expiry x (ws_db s') k')"
    by blast+
qed

lemma drain_ttl:
  assumes "wal_drain b g n s = (r, s')" "ttl_law b v x" "badger_writes b v"
  shows "bt_clock x (ws_db s') = bt_clock x (ws_db s)" "ws_cfg s' = ws_cfg s"
    "wm_expired (ws_m s') = wm_expired (ws_m s)"
    "p \<in> set (log_items v g (ws_db s')) \<Longrightarrow> p \<in> set (log_items v g (ws_db s))
      \<and> bt_expiry x (ws_db s') (fst p) = bt_expiry x (ws_db s) (fst p)"
proof -
  have com: "ttl_commits b v x" using assms(2) by (simp add: ttl_law_def)
  have live: "set (bv_live v (ws_db s')) \<subseteq> set (bv_live v (ws_db s))" by (rule wal_drain_live [OF assms(3,1)])
  have db: "bt_clock x db' = bt_clock x db"
    "k \<in> fst ` set (bv_live v db') \<Longrightarrow> bt_expiry x db' k = bt_expiry x db k"
    if u: "bd_update b (delete_loop b ks) db = (res, db')" for ks db res db' k
  proof -
    show "bt_clock x db' = bt_clock x db" by (rule bd_update_ttl(1) [OF u com])
    show "bt_expiry x db' k = bt_expiry x db k" if k: "k \<in> fst ` set (bv_live v db')"
    proof (rule bd_update_ttl(2) [OF u com])
      fix tx assume "res = None" "delete_loop b ks (bd_txn b db) = (None, tx)"
      then have w: "bv_writes v tx = map (\<lambda>k. (k, None)) ks"
        using delete_loop_writes [OF assms(3)] assms(3) by (simp add: badger_writes_def)
      obtain tx' where "delete_loop b ks (bd_txn b db) = (None, tx')"
        "bv_live v db' = fold apply_write (bv_writes v tx') (bv_live v db)"
        using bd_update_cases(2) [OF u assms(3) \<open>res = None\<close>] by auto
      then have "bv_live v db' = filter (\<lambda>p. fst p \<notin> set ks) (bv_live v db)"
        using \<open>delete_loop b ks (bd_txn b db) = (None, tx)\<close> w by (simp add: apply_deletes)
      then show "k \<notin> fst ` set (bv_writes v tx)" using k w by auto
    qed
  qed
  have out: "ws_cfg s' = ws_cfg s \<and> wm_expired (ws_m s') = wm_expired (ws_m s)
    \<and> (ws_db s' = ws_db s \<or> (\<exists>ks res. bd_update b (delete_loop b ks) (ws_db s) = (res, ws_db s')))"
    using assms(1) by (auto simp: wal_drain_def split: if_splits sum.splits prod.splits option.splits)
  then show "ws_cfg s' = ws_cfg s" "wm_expired (ws_m s') = wm_expired (ws_m s)"
    "bt_clock x (ws_db s') = bt_clock x (ws_db s)" using db(1) by metis+
  have exp: "bt_expiry x (ws_db s') k = bt_expiry x (ws_db s) k" if "k \<in> fst ` set (bv_live v (ws_db s'))" for k
    using out db(2) that by metis
  show "p \<in> set (log_items v g (ws_db s))
      \<and> bt_expiry x (ws_db s') (fst p) = bt_expiry x (ws_db s) (fst p)" if p: "p \<in> set (log_items v g (ws_db s'))"
  proof -
    obtain k y where ky: "p = (k, projr (decode_message g y))" "(k, y) \<in> set (log_entries v (ws_db s'))"
      using p by (auto simp: log_items_def)
    then have "(k, y) \<in> set (bv_live v (ws_db s'))" "has_prefix k key_prefix" by (auto simp: log_entries_def)
    then have "(k, y) \<in> set (log_entries v (ws_db s))" "k \<in> fst ` set (bv_live v (ws_db s'))"
      using live by (force simp: log_entries_def)+
    then show ?thesis using exp ky(1) by (force simp: log_items_def)
  qed
qed

lemma refresh_ttl:
  "ws_db (snd (refresh_metrics b now s)) = ws_db s" "ws_cfg (snd (refresh_metrics b now s)) = ws_cfg s"
  "ws_seq (snd (refresh_metrics b now s)) = ws_seq s"
  "wm_expired (ws_m (snd (refresh_metrics b now s))) = wm_expired (ws_m s)"
  by (simp_all add: refresh_metrics_def Let_def split: sum.split)

lemma age_items:
  assumes "ttl_law b v x" "bt_clock x db \<le> now"
  shows "log_items v g (bt_age x now db) = filter (\<lambda>p. survives (bt_expiry x db (fst p)) now) (log_items v g db)"
    "log_entries v (bt_age x now db) = filter (\<lambda>p. survives (bt_expiry x db (fst p)) now) (log_entries v db)"
    "bt_clock x (bt_age x now db) = now" "bt_expiry x (bt_age x now db) = bt_expiry x db"
proof -
  have a: "bt_clock x (bt_age x now db) = now" "bt_expiry x (bt_age x now db) = bt_expiry x db"
    "bv_live v (bt_age x now db) = filter (\<lambda>p. survives (bt_expiry x db (fst p)) now) (bv_live v db)"
    using assms by (simp_all add: ttl_law_def ttl_ages_def)
  then show "bt_clock x (bt_age x now db) = now" "bt_expiry x (bt_age x now db) = bt_expiry x db" by blast+
  show e: "log_entries v (bt_age x now db) = filter (\<lambda>p. survives (bt_expiry x db (fst p)) now) (log_entries v db)"
    by (simp add: log_entries_def a(3) conj_commute)
  show "log_items v g (bt_age x now db) = filter (\<lambda>p. survives (bt_expiry x db (fst p)) now) (log_items v g db)"
    by (simp add: log_items_def e filter_map comp_def case_prod_beta)
qed

subsection \<open>The invariant of a run\<close>

definition born :: "'db badger_ttl \<Rightarrow> duration \<Rightarrow> 'db timed_log \<Rightarrow> string \<times> message \<Rightarrow> bool" where
  \<comment> \<open>an entry of this run, with the expiry its Append gave it, still ahead\<close>
  "born x ttl y p \<longleftrightarrow> (\<exists>at. (at, p) \<in> set (tl_appended y)
     \<and> lifetime ttl at (bt_expiry x (ws_db (tl_store y)) (fst p))
     \<and> survives (bt_expiry x (ws_db (tl_store y)) (fst p)) (bt_clock x (ws_db (tl_store y))))"

definition timed_inv ::
  "('db, 'tx) badger \<Rightarrow> ('db, 'tx) badger_view \<Rightarrow> gob \<Rightarrow> 'db badger_ttl \<Rightarrow> time \<Rightarrow> message multiset
   \<Rightarrow> string set \<Rightarrow> duration \<Rightarrow> int \<Rightarrow> nat \<Rightarrow> 'db timed_log \<Rightarrow> bool" where
  "timed_inv b v g x t start old ttl counted k y \<longleftrightarrow>
     wal_inv b v g (tl_store y) \<and> wal_before v t (tl_store y) \<and> bt_clock x (ws_db (tl_store y)) \<le> t
     \<and> unat (ws_seq (tl_store y)) + k < 2 ^ 64 \<and> wc_ttl (ws_cfg (tl_store y)) = ttl
     \<and> wm_expired (ws_m (tl_store y)) = counted
     \<and> start + mset (map (snd \<circ> snd) (tl_appended y)) = mset (tl_drained y)
         + mset (map (snd \<circ> snd) (tl_expired y)) + mset (map snd (log_items v g (ws_db (tl_store y))))
     \<and> (\<forall>p \<in> set (log_items v g (ws_db (tl_store y))). fst p \<in> old \<or> born x ttl y p)
     \<and> (\<forall>(now, p) \<in> set (tl_expired y). fst p \<in> old
          \<or> (\<exists>at. (at, p) \<in> set (tl_appended y) \<and> 0 < ttl \<and> at + ttl - second < now))"

lemma pass_time_inv:
  assumes v: "timed_inv b v g x t start old ttl counted k y" and law: "ttl_law b v x" and t: "t \<le> now" "now < 2 ^ 63"
  shows "timed_inv b v g x now start old ttl counted k (pass_time v g x now y)"
    and "bt_clock x (ws_db (tl_store (pass_time v g x now y))) = now"
proof -
  let ?db = "ws_db (tl_store y)" and ?l = "log_items v g (ws_db (tl_store y))"
  let ?P = "\<lambda>p. survives (bt_expiry x ?db (fst p)) now"
  have "bt_clock x ?db \<le> now" using v t by (auto simp: timed_inv_def)
  note a = age_items [OF law this]
  define z where "z = pass_time v g x now y"
  have "fst p \<notin> fst ` set (filter ?P ?l) \<longleftrightarrow> \<not> ?P p" if "p \<in> set ?l" for p
    using that by force
  then have gone: "filter (\<lambda>p. fst p \<notin> fst ` set (filter ?P ?l)) ?l = filter (\<lambda>p. \<not> ?P p) ?l"
    by (intro filter_cong) auto
  have z: "ws_db (tl_store z) = bt_age x now ?db" "ws_seq (tl_store z) = ws_seq (tl_store y)"
    "ws_cfg (tl_store z) = ws_cfg (tl_store y)" "ws_m (tl_store z) = ws_m (tl_store y)"
    "tl_appended z = tl_appended y" "tl_drained z = tl_drained y"
    "tl_expired z = tl_expired y @ map (Pair now) (filter (\<lambda>p. \<not> ?P p) ?l)"
    "log_items v g (ws_db (tl_store z)) = filter ?P ?l"
    by (simp_all add: z_def pass_time_def Let_def a(1) gone [unfolded set_filter])
  show "bt_clock x (ws_db (tl_store (pass_time v g x now y))) = now"
    using a(3) z(1) by (simp add: z_def)
  have inv: "wal_inv b v g (tl_store z)" using v by (auto simp: timed_inv_def wal_inv_def z(1) a(2))
  have bef: "wal_before v now (tl_store z)"
    by (rule wal_before_step [of v t "tl_store y"]) (use v t z in \<open>auto simp: timed_inv_def a(2)\<close>)
  have parts: "mset (map snd ?l) = mset (map snd (filter ?P ?l)) + mset (map snd (filter (\<lambda>p. \<not> ?P p) ?l))"
    by (simp flip: image_mset_union multiset_partition)
  have old: "\<forall>p \<in> set (filter ?P ?l). fst p \<in> old \<or> born x ttl z p"
    using v by (fastforce simp: timed_inv_def born_def z a(3,4))
  have early: "fst p \<in> old \<or> (\<exists>at. (at, p) \<in> set (tl_appended y) \<and> 0 < ttl \<and> at + ttl - second < now)"
    if p: "p \<in> set ?l" "\<not> ?P p" for p
  proof (cases "fst p \<in> old")
    case False
    then obtain at where at: "(at, p) \<in> set (tl_appended y)" "lifetime ttl at (bt_expiry x ?db (fst p))"
      using v p(1) by (auto simp: timed_inv_def born_def)
    with p(2) have "0 < ttl \<and> at + ttl - second < now"
      by (auto simp: survives_def lifetime_def split: option.splits if_splits)
    with at(1) show ?thesis by blast
  qed simp
  show "timed_inv b v g x now start old ttl counted k (pass_time v g x now y)"
    unfolding z_def [symmetric] timed_inv_def
  proof (intro conjI)
    show "start + mset (map (snd \<circ> snd) (tl_appended z)) = mset (tl_drained z)
         + mset (map (snd \<circ> snd) (tl_expired z)) + mset (map snd (log_items v g (ws_db (tl_store z))))"
      using v parts by (simp add: timed_inv_def z(1-7) a(1) comp_def ac_simps)
    show "\<forall>p \<in> set (log_items v g (ws_db (tl_store z))). fst p \<in> old \<or> born x ttl z p" using old by (simp add: z(8))
    show "\<forall>(n, p) \<in> set (tl_expired z). fst p \<in> old
          \<or> (\<exists>at. (at, p) \<in> set (tl_appended z) \<and> 0 < ttl \<and> at + ttl - second < n)"
      using v early by (auto simp: timed_inv_def z)
  qed (use v inv bef a(3) z in \<open>simp_all add: timed_inv_def\<close>)
qed

lemma append_items:
  assumes inv: "wal_inv b v g s" and a: "wal_append b g now m s = (r, s')" and ok: "wal_message m"
  shows "r = Inl e \<Longrightarrow> log_items v g (ws_db s') = log_items v g (ws_db s)"
    and "r = Inr k \<Longrightarrow> wal_fresh v now s \<Longrightarrow> k = fst (make_key now s)
      \<and> mset (log_items v g (ws_db s')) = add_mset (k, m) (mset (log_items v g (ws_db s)))"
proof -
  have con: "badger_contract b v" and wr: "badger_writes b v" and gob: "gob_contract g"
    using inv by (auto simp: wal_inv_def badger_contract_def)
  note c = wal_append_cases [OF a wr]
  show "log_items v g (ws_db s') = log_items v g (ws_db s)" if "r = Inl e"
    using c(2) [OF that] by (simp add: log_items_def log_entries_def)
  show "k = fst (make_key now s) \<and> mset (log_items v g (ws_db s')) = add_mset (k, m) (mset (log_items v g (ws_db s)))"
    if r: "r = Inr k" and f: "wal_fresh v now s"
  proof -
    from c(3) [OF r] obtain y where k: "k = fst (make_key now s)" and y: "encode_message g m = Inr y"
      "bv_live v (ws_db s') = apply_write (k, Some y) (bv_live v (ws_db s))" by auto
    have dec: "decode_message g y = Inr m"
      using decode_encode_message [OF gob y(1)] ok gob_slice_wal_message [OF ok] by (simp add: wal_message_def)
    have "k \<notin> fst ` set (log_entries v (ws_db s))" "has_prefix k key_prefix"
      using f k make_key_prefix by (simp_all add: wal_fresh_def)
    with log_insert [OF con _ _ y(2)] have
      "log_entries v (ws_db s') = insort_key fst (k, y) (log_entries v (ws_db s))" by blast
    then show ?thesis using dec k by (simp add: log_items_def)
  qed
qed

lemma born_mono:
  "born x ttl y p \<Longrightarrow> set (tl_appended y) \<subseteq> set (tl_appended z)
    \<Longrightarrow> bt_expiry x (ws_db (tl_store z)) (fst p) = bt_expiry x (ws_db (tl_store y)) (fst p)
    \<Longrightarrow> bt_clock x (ws_db (tl_store z)) = bt_clock x (ws_db (tl_store y)) \<Longrightarrow> born x ttl z p"
  unfolding born_def by auto

lemma call_append_inv:
  assumes v: "timed_inv b v g x now start old ttl counted (Suc k) y" and law: "ttl_law b v x"
    and c: "bt_clock x (ws_db (tl_store y)) = now" and t: "now < 2 ^ 63" "wal_message m" "second \<le> ttl \<or> ttl \<le> 0"
    and a: "wal_append b g now m (tl_store y) = (r, s)"
    and z: "z = y\<lparr>tl_store := s, tl_appended := tl_appended y @ (case r of Inl e \<Rightarrow> [] | Inr key \<Rightarrow> [(now, key, m)])\<rparr>"
  shows "timed_inv b v g x now start old ttl counted k z"
proof -
  let ?s = "tl_store y"
  have inv: "wal_inv b v g ?s" and wr: "badger_writes b v" and bef: "wal_before v now ?s"
    and sq: "unat (ws_seq ?s) + 1 < 2 ^ 64"
    using v by (auto simp: timed_inv_def wal_inv_def badger_contract_def)
  note at = append_ttl [OF a law wr] and it = append_items [OF inv a t(2)] and sp = wal_append_spec [OF inv a t(2)]
  have fresh: "wal_fresh v now ?s"
    by (rule wal_newest_fresh [OF wal_before_newest [OF bef order_refl t(1) sq]])
  have inv': "wal_inv b v g s" using sp(1,2) fresh by (cases r) auto
  have bef': "wal_before v now s" by (rule wal_append_before [OF wr a bef order_refl t(1) sq])
  have seq: "unat (ws_seq s) + k < 2 ^ 64"
    using wal_append_cases(1) [OF a wr] seq_less [OF sq] v by (simp add: timed_inv_def)
  have fld: "tl_store z = s" "tl_drained z = tl_drained y" "tl_expired z = tl_expired y"
    "set (tl_appended y) \<subseteq> set (tl_appended z)" by (auto simp: z)
  have kept: "fst p \<in> old \<or> born x ttl z p"
    if p: "p \<in> set (log_items v g (ws_db ?s))" "isl r \<or> fst p \<noteq> projr r" for p
    using v p(1) born_mono [of x ttl y p z] at(1) at(4) [of "fst p"] p(2) fld by (auto simp: timed_inv_def)
  have early: "\<forall>(n, p) \<in> set (tl_expired z). fst p \<in> old
      \<or> (\<exists>at. (at, p) \<in> set (tl_appended z) \<and> 0 < ttl \<and> at + ttl - second < n)"
    using v fld by (fastforce simp: timed_inv_def)
  show ?thesis
  proof (cases r)
    case (Inl e)
    then have "tl_appended z = tl_appended y" by (simp add: z)
    then show ?thesis using v inv' bef' seq at(1,2,3) it(1) [OF Inl] kept early Inl
      unfolding timed_inv_def fld by auto
  next
    case (Inr key)
    note new = it(2) [OF Inr fresh]
    have app: "tl_appended z = tl_appended y @ [(now, key, m)]" using Inr by (simp add: z)
    have "key \<notin> fst ` set (log_items v g (ws_db ?s))"
      using fresh new unfolding log_items_keys by (simp add: wal_fresh_def)
    then have other: "fst p \<noteq> projr r" if "p \<in> set (log_items v g (ws_db ?s))" for p
      using that Inr by auto
    have life: "lifetime ttl now (bt_expiry x (ws_db s) key)"
      using at(5) [OF Inr] v c by (simp add: timed_inv_def)
    then have "survives (bt_expiry x (ws_db s) key) now"
      using t(3) by (auto simp: lifetime_def survives_def split: if_splits)
    then have this_one: "born x ttl z (key, m)" using life at(1) c app unfolding born_def fld by auto
    have items: "set (log_items v g (ws_db s)) = insert (key, m) (set (log_items v g (ws_db ?s)))"
      using new by (metis set_mset_add_mset_insert set_mset_mset)
    have all: "\<forall>p \<in> set (log_items v g (ws_db s)). fst p \<in> old \<or> born x ttl z p"
      unfolding items using this_one kept other by auto
    have sum: "mset (map snd (log_items v g (ws_db s))) = add_mset m (mset (map snd (log_items v g (ws_db ?s))))"
      using new by simp
    show ?thesis using v inv' bef' seq at(1,2,3) all early sum app
      unfolding timed_inv_def fld by (auto simp: c)
  qed
qed

lemma call_drain_inv:
  assumes v: "timed_inv b v g x now start old ttl counted k y" and law: "ttl_law b v x"
    and d: "wal_drain b g n (tl_store y) = (r, s)"
    and z: "z = y\<lparr>tl_store := s, tl_drained := tl_drained y @ (case r of Inl e \<Rightarrow> [] | Inr ms \<Rightarrow> ms)\<rparr>"
  shows "timed_inv b v g x now start old ttl counted k z"
proof -
  let ?s = "tl_store y"
  have inv: "wal_inv b v g ?s" and wr: "badger_writes b v" and bef: "wal_before v now ?s"
    using v by (auto simp: timed_inv_def wal_inv_def badger_contract_def)
  note dt = drain_ttl [OF d law wr] and sp = wal_drain_spec [OF inv d]
  have fld: "tl_store z = s" "tl_appended z = tl_appended y" "tl_expired z = tl_expired y" by (simp_all add: z)
  have all: "\<forall>p \<in> set (log_items v g (ws_db s)). fst p \<in> old \<or> born x ttl z p"
  proof
    fix p assume "p \<in> set (log_items v g (ws_db s))"
    from dt(4) [OF this] show "fst p \<in> old \<or> born x ttl z p"
      using v born_mono [of x ttl y p z] dt(1) fld by (auto simp: timed_inv_def)
  qed
  have "mset (wal_log v g ?s) = mset (case r of Inl e \<Rightarrow> [] | Inr ms \<Rightarrow> ms) + mset (wal_log v g s)"
    using wl.drain_mset [OF inv d] by simp
  then have sum: "mset (map snd (log_items v g (ws_db ?s)))
      = mset (case r of Inl e \<Rightarrow> [] | Inr ms \<Rightarrow> ms) + mset (map snd (log_items v g (ws_db s)))"
    by (simp add: wal_log_items)
  have dr: "mset (tl_drained z) = mset (tl_drained y) + mset (case r of Inl e \<Rightarrow> [] | Inr ms \<Rightarrow> ms)"
    by (simp add: z)
  show ?thesis
    unfolding timed_inv_def fld
    using v sp(1) wal_drain_before [OF wr d bef sp(4)] sp(4) dt(1,2,3) all sum dr
    by (auto simp: timed_inv_def ac_simps)
qed

lemma timed_inv_fewer: "timed_inv b v g x t start old ttl counted (Suc k) y \<Longrightarrow> timed_inv b v g x t start old ttl counted k y"
  by (auto simp: timed_inv_def)

lemma call_refresh_inv:
  assumes "timed_inv b v g x now start old ttl counted k y"
    and z: "z = y\<lparr>tl_store := snd (refresh_metrics b n (tl_store y))\<rparr>"
  shows "timed_inv b v g x now start old ttl counted k z"
proof -
  have "born x ttl z p \<longleftrightarrow> born x ttl y p" for p by (simp add: born_def z refresh_ttl)
  then show ?thesis using assms(1)
    by (simp add: timed_inv_def z refresh_ttl wal_inv_def wal_before_def)
qed

lemma timed_step_inv:
  assumes v: "timed_inv b v g x t start old ttl counted (Suc k) y" and law: "ttl_law b v x"
    and ok: "calls_ok t ((now, c) # cs)" and ttl: "second \<le> ttl \<or> ttl \<le> 0"
  shows "timed_inv b v g x now start old ttl counted k (timed_step b v g x (now, c) y)"
    and "bt_clock x (ws_db (tl_store (timed_step b v g x (now, c) y))) = now"
proof -
  have t: "t \<le> now" "now < 2 ^ 63" using ok by auto
  define y1 where "y1 = pass_time v g x now y"
  have p: "timed_inv b v g x now start old ttl counted (Suc k) y1" "bt_clock x (ws_db (tl_store y1)) = now"
    using pass_time_inv [OF v law t] by (simp_all add: y1_def)
  have wr: "badger_writes b v" using v by (simp add: timed_inv_def wal_inv_def badger_contract_def)
  note p' = timed_inv_fewer [OF p(1)]
  have "timed_inv b v g x now start old ttl counted k (timed_step b v g x (now, c) y)
    \<and> bt_clock x (ws_db (tl_store (timed_step b v g x (now, c) y))) = now"
  proof (cases c)
    case (CallAppend m)
    obtain r s where a: "wal_append b g now m (tl_store y1) = (r, s)" by (metis surj_pair)
    have z: "timed_step b v g x (now, c) y
      = y1\<lparr>tl_store := s, tl_appended := tl_appended y1 @ (case r of Inl e \<Rightarrow> [] | Inr key \<Rightarrow> [(now, key, m)])\<rparr>"
      using CallAppend a by (cases r) (simp_all flip: y1_def)
    have "wal_message m" using ok CallAppend by simp
    from call_append_inv [OF p(1) law p(2) t(2) this ttl a z] append_ttl(1) [OF a law wr] p(2) z
    show ?thesis by simp
  next
    case (CallDrain n)
    obtain r s where d: "wal_drain b g n (tl_store y1) = (r, s)" by (metis surj_pair)
    have z: "timed_step b v g x (now, c) y
      = y1\<lparr>tl_store := s, tl_drained := tl_drained y1 @ (case r of Inl e \<Rightarrow> [] | Inr ms \<Rightarrow> ms)\<rparr>"
      using CallDrain d by (cases r) (simp_all flip: y1_def)
    from call_drain_inv [OF p' law d z] drain_ttl(1) [OF d law wr] p(2) z show ?thesis by simp
  next
    case CallRefresh
    have z: "timed_step b v g x (now, c) y = y1\<lparr>tl_store := snd (refresh_metrics b now (tl_store y1))\<rparr>"
      using CallRefresh by (simp flip: y1_def)
    from call_refresh_inv [OF p' z] p(2) show ?thesis unfolding z by (simp add: refresh_ttl)
  qed
  then show "timed_inv b v g x now start old ttl counted k (timed_step b v g x (now, c) y)"
    "bt_clock x (ws_db (tl_store (timed_step b v g x (now, c) y))) = now" by blast+
qed

lemma timed_run_inv:
  assumes "timed_inv b v g x t start old ttl counted (length cs) y" "ttl_law b v x" "calls_ok t cs"
    "second \<le> ttl \<or> ttl \<le> 0"
  shows "\<exists>u. timed_inv b v g x u start old ttl counted 0 (fold (timed_step b v g x) cs y)"
  using assms(1,3)
proof (induction cs arbitrary: t y)
  case (Cons tc cs)
  obtain now c where tc: "tc = (now, c)" by (cases tc)
  have "timed_inv b v g x now start old ttl counted (length cs) (timed_step b v g x tc y)"
    using timed_step_inv(1) [OF _ assms(2) Cons.prems(2) [unfolded tc] assms(4)] Cons.prems(1) tc by simp
  then show ?case using Cons.IH [of now] Cons.prems(2) tc by simp
qed auto

subsection \<open>A database in memory with a clock\<close>

text \<open>Beside the clock, the committed writes, each with the expiry it was given.\<close>

type_synonym tm_write = "string \<times> (byte list \<times> time option) option"
type_synonym tm_db = "time \<times> tm_write list"

fun tm_apply :: "tm_write \<Rightarrow> (string \<times> byte list \<times> time option) list \<Rightarrow> (string \<times> byte list \<times> time option) list" where
  "tm_apply (k, None) l = filter (\<lambda>p. fst p \<noteq> k) l"
| "tm_apply (k, Some v) l = insort_key fst (k, v) (filter (\<lambda>p. fst p \<noteq> k) l)"

definition tm_entries :: "tm_db \<Rightarrow> (string \<times> byte list \<times> time option) list" where
  "tm_entries db = fold tm_apply (snd db) []"

definition tm_live :: "time \<Rightarrow> (string \<times> byte list \<times> time option) list \<Rightarrow> kv" where
  "tm_live now l = map (\<lambda>p. (fst p, fst (snd p))) (filter (\<lambda>p. survives (snd (snd p)) now) l)"

definition tm_stamp :: "time \<Rightarrow> string \<times> (byte list \<times> duration) option \<Rightarrow> tm_write" where
  "tm_stamp now w = (fst w, map_option (\<lambda>(v, d). (v, if d \<le> 0 then None else Some (now + d))) (snd w))"

definition tm_badger :: "(tm_db, (string \<times> (byte list \<times> duration) option) list) badger" where
  "tm_badger =
     \<lparr>bd_closed = (\<lambda>db. None),
      bd_items = (\<lambda>db. map (\<lambda>p. \<lparr>it_key = fst p, it_expired = \<not> survives (snd (snd p)) (fst db),
                    it_value = Inr (fst (snd p))\<rparr>) (tm_entries db)),
      bd_txn = (\<lambda>db. []),
      txn_set = (\<lambda>k x ttl tx. (None, tx @ [(k, Some (x, case ttl of None \<Rightarrow> 0 | Some d \<Rightarrow> d))])),
      txn_delete = (\<lambda>k tx. (None, tx @ [(k, None)])),
      bd_commit = (\<lambda>tx db. (None, (fst db, snd db @ map (tm_stamp (fst db)) tx))),
      bd_size = (\<lambda>db. (0, int (length (snd db))))\<rparr>"

definition tm_view :: "(tm_db, (string \<times> (byte list \<times> duration) option) list) badger_view" where
  "tm_view = \<lparr>bv_live = (\<lambda>db. tm_live (fst db) (tm_entries db)),
     bv_writes = (\<lambda>tx. map (\<lambda>w. (fst w, map_option fst (snd w))) tx)\<rparr>"

definition tm_ttl :: "tm_db badger_ttl" where
  "tm_ttl = \<lparr>bt_age = (\<lambda>now db. (now, snd db)), bt_clock = fst,
     bt_expiry = (\<lambda>db k. case map_of (tm_entries db) k of None \<Rightarrow> None | Some p \<Rightarrow> snd p)\<rparr>"

lemma strict_keys_tm: "sorted_wrt (<) (map fst l) \<Longrightarrow> sorted_wrt (<) (map fst (tm_apply w l))"
  by (induction w l rule: tm_apply.induct) (simp_all add: strict_insert strict_filter)

lemma tm_entries_sorted: "sorted_wrt (<) (map fst (tm_entries db))"
proof -
  have "sorted_wrt (<) (map fst l) \<Longrightarrow> sorted_wrt (<) (map fst (fold tm_apply ws l))" for ws l
    by (induction ws arbitrary: l) (auto simp: strict_keys_tm)
  then show ?thesis by (simp add: tm_entries_def)
qed

lemma map_insort_fst:
  "map (\<lambda>p. (fst p, fst (snd p))) (insort_key fst x l) = insort_key fst (fst x, fst (snd x)) (map (\<lambda>p. (fst p, fst (snd p))) l)"
  by (induction l) auto

lemma tm_live_apply:
  assumes "sorted_wrt (<) (map fst l)" "\<And>v. snd w = Some v \<Longrightarrow> survives (snd v) now"
  shows "tm_live now (tm_apply w l) = apply_write (fst w, map_option fst (snd w)) (tm_live now l)"
proof (cases w)
  case (Pair k o')
  show ?thesis
  proof (cases o')
    case None
    then show ?thesis using Pair by (simp add: tm_live_def filter_map comp_def conj_commute)
  next
    case (Some v)
    have "sorted (map fst (filter (\<lambda>p. fst p \<noteq> k) l))"
      using assms(1) by (simp add: strict_sorted_iff sorted_filter)
    from filter_insort [OF this, of "\<lambda>p. survives (snd (snd p)) now" "(k, v)"] show ?thesis
      using Pair Some assms(2) by (simp add: tm_live_def map_insort_fst filter_map comp_def conj_commute)
  qed
qed

lemma tm_live_fold:
  "sorted_wrt (<) (map fst l) \<Longrightarrow> tm_live now (fold tm_apply (map (tm_stamp now) tx) l)
    = fold apply_write (map (\<lambda>w. (fst w, map_option fst (snd w))) tx) (tm_live now l)"
proof (induction tx arbitrary: l)
  case (Cons w tx)
  have "tm_live now (tm_apply (tm_stamp now w) l) = apply_write (fst w, map_option fst (snd w)) (tm_live now l)"
    using tm_live_apply [OF Cons.prems, of "tm_stamp now w" now]
    by (cases "snd w") (auto simp: tm_stamp_def survives_def)
  then show ?case using Cons.IH [OF strict_keys_tm [OF Cons.prems]] by simp
qed simp

lemma tm_contract: "badger_contract tm_badger tm_view"
proof -
  have keys: "sorted_wrt (<) (map fst (tm_live now (tm_entries db)))" for now db
    using tm_entries_sorted [of db] by (simp add: tm_live_def comp_def sorted_wrt_map sorted_wrt_filter)
  have rel: "list_all2 (\<lambda>it (k, val). it_key it = k \<and> (\<forall>x. it_value it = Inr x \<longrightarrow> x = val))
      (filter (\<lambda>it. \<not> it_expired it) (map (\<lambda>p. \<lparr>it_key = fst p, it_expired = \<not> survives (snd (snd p)) now,
         it_value = Inr (fst (snd p))\<rparr>) l)) (tm_live now l)" for now l
    by (induction l) (auto simp: tm_live_def)
  have "badger_reads tm_badger tm_view"
    unfolding badger_reads_def using keys rel tm_entries_sorted
    by (simp add: tm_badger_def tm_view_def strict_keys_def comp_def)
  moreover have "badger_writes tm_badger tm_view"
    using tm_live_fold [OF tm_entries_sorted]
    by (auto simp: badger_writes_def tm_badger_def tm_view_def tm_entries_def)
  ultimately show ?thesis by (simp add: badger_contract_def)
qed

lemma map_of_insort:
  "k \<notin> fst ` set l \<Longrightarrow> map_of (insort_key fst (k, v) l) k' = (if k' = k then Some v else map_of l k')"
  by (induction l) auto

lemma map_of_filter_key: "map_of (filter (\<lambda>p. fst p \<noteq> k) l) k' = (if k' = k then None else map_of l k')"
  by (induction l) auto

lemma map_of_tm_apply: "map_of (tm_apply w l) k = (if k = fst w then snd w else map_of l k)"
proof (cases w)
  case (Pair k' o')
  have "k' \<notin> fst ` set (filter (\<lambda>p. fst p \<noteq> k') l)" by auto
  from map_of_insort [OF this] show ?thesis using Pair by (cases o') (auto simp: map_of_filter_key)
qed

lemma map_of_tm_fold: "k \<notin> fst ` set ws \<Longrightarrow> map_of (fold tm_apply ws l) k = map_of l k"
  by (induction ws arbitrary: l) (auto simp: map_of_tm_apply)

lemma tm_ttl_law: "ttl_law tm_badger tm_view tm_ttl"
proof -
  have age: "tm_live now l = filter (\<lambda>p. survives (case map_of l (fst p) of None \<Rightarrow> None | Some p \<Rightarrow> snd p) now) (tm_live c l)"
    if "c \<le> now" "distinct (map fst l)" for c now l
  proof -
    have "map_of l k = Some q" if "(k, q) \<in> set l" for k q using \<open>distinct (map fst l)\<close> that by simp
    then have "filter (\<lambda>p. survives (snd (snd p)) now) l
      = filter (\<lambda>p. survives (snd (snd p)) c \<and> survives (case map_of l (fst p) of None \<Rightarrow> None | Some p \<Rightarrow> snd p) now) l"
      using \<open>c \<le> now\<close> by (intro filter_cong) (fastforce simp: survives_def split: option.splits)+
    then show ?thesis by (simp add: tm_live_def filter_map comp_def conj_commute)
  qed
  have "ttl_ages tm_view tm_ttl"
    using age [OF _ conjunct2 [OF iffD1 [OF strict_sorted_iff tm_entries_sorted]]]
    by (auto simp: ttl_ages_def tm_view_def tm_ttl_def tm_entries_def fun_eq_iff)
  moreover have "ttl_commits tm_badger tm_view tm_ttl"
    by (auto simp: ttl_commits_def tm_badger_def tm_view_def tm_ttl_def tm_entries_def tm_stamp_def image_comp comp_def
        map_of_tm_fold)
  moreover have "ttl_sets tm_badger tm_ttl"
    by (auto simp: ttl_sets_def tm_badger_def tm_ttl_def tm_entries_def tm_stamp_def map_of_tm_apply lifetime_def
        simp del: tm_apply.simps)
  ultimately show ?thesis by (simp add: ttl_law_def)
qed

subsection \<open>Property\<close>

text \<open>C17: the TTL. Under any sequence of Append, Drain and RefreshMetrics calls, each at its instant, on a store whose
  entries expire by the clock of Badger: what the log held and what was appended is what was drained, what
  expired and what is left; no entry of these calls expires earlier than one second before its TTL is
  over, none is left once it is over, with no TTL none expires at all; and the expired counter stays
  where it was.\<close>
theorem wal_expiry_silent:
  assumes "wal_inv b v g s" "wal_before v t s" "ttl_law b v x" "bt_clock x (ws_db s) \<le> t" "calls_ok t cs"
    and "unat (ws_seq s) + length cs < 2 ^ 64" "second \<le> wc_ttl (ws_cfg s) \<or> wc_ttl (ws_cfg s) \<le> 0"
    and "y = timed_run b v g x cs s"
  shows "mset (wal_log v g s) + mset (map (snd \<circ> snd) (tl_appended y))
      = mset (tl_drained y) + mset (map (snd \<circ> snd) (tl_expired y)) + mset (wal_log v g (tl_store y))
    \<and> (\<forall>now k m. (now, k, m) \<in> set (tl_expired y) \<and> k \<notin> fst ` set (log_entries v (ws_db s)) \<longrightarrow>
        (\<exists>at. (at, k, m) \<in> set (tl_appended y) \<and> 0 < wc_ttl (ws_cfg s) \<and> at + wc_ttl (ws_cfg s) - second < now))
    \<and> (\<forall>k m. (k, m) \<in> set (log_items v g (ws_db (tl_store y))) \<and> k \<notin> fst ` set (log_entries v (ws_db s)) \<longrightarrow>
        (\<exists>at. (at, k, m) \<in> set (tl_appended y)
          \<and> (0 < wc_ttl (ws_cfg s) \<longrightarrow> bt_clock x (ws_db (tl_store y)) < at + wc_ttl (ws_cfg s))))
    \<and> wm_expired (ws_m (tl_store y)) = wm_expired (ws_m s)"
proof -
  let ?old = "fst ` set (log_entries v (ws_db s))" and ?ttl = "wc_ttl (ws_cfg s)"
  have "timed_inv b v g x t (mset (wal_log v g s)) ?old ?ttl (wm_expired (ws_m s)) (length cs)
      \<lparr>tl_store = s, tl_appended = [], tl_drained = [], tl_expired = []\<rparr>"
    using assms(1,2,4,6) by (auto simp: timed_inv_def wal_log_items simp flip: log_items_keys [where g = g])
  from timed_run_inv [OF this assms(3,5,7)] obtain u where
    v: "timed_inv b v g x u (mset (wal_log v g s)) ?old ?ttl (wm_expired (ws_m s)) 0 y"
    unfolding assms(8) timed_run_def by blast
  have left: "\<exists>at. (at, p) \<in> set (tl_appended y) \<and> (0 < ?ttl \<longrightarrow> bt_clock x (ws_db (tl_store y)) < at + ?ttl)"
    if "born x ?ttl y p" for p
    using that by (fastforce simp: born_def lifetime_def survives_def)
  have live: "\<forall>p \<in> set (log_items v g (ws_db (tl_store y))). fst p \<in> ?old \<or> born x ?ttl y p"
    and gone: "\<forall>(now, p) \<in> set (tl_expired y). fst p \<in> ?old
      \<or> (\<exists>at. (at, p) \<in> set (tl_appended y) \<and> 0 < ?ttl \<and> at + ?ttl - second < now)"
    and sums: "mset (wal_log v g s) + mset (map (snd \<circ> snd) (tl_appended y))
      = mset (tl_drained y) + mset (map (snd \<circ> snd) (tl_expired y)) + mset (wal_log v g (tl_store y))"
      "wm_expired (ws_m (tl_store y)) = wm_expired (ws_m s)"
    using v by (simp_all add: timed_inv_def wal_log_items)
  have "\<exists>at. (at, k, m) \<in> set (tl_appended y) \<and> 0 < ?ttl \<and> at + ?ttl - second < now"
    if "(now, k, m) \<in> set (tl_expired y)" "k \<notin> ?old" for now k m
    using bspec [OF gone that(1)] that(2) by simp
  moreover have "\<exists>at. (at, k, m) \<in> set (tl_appended y)
      \<and> (0 < ?ttl \<longrightarrow> bt_clock x (ws_db (tl_store y)) < at + ?ttl)"
    if "(k, m) \<in> set (log_items v g (ws_db (tl_store y)))" "k \<notin> ?old" for k m
    using bspec [OF live that(1)] that(2) left by simp
  ultimately show ?thesis using sums by blast
qed

definition tm_store :: "tm_db wal_store" where
  "tm_store = \<lparr>ws_db = (0, []), ws_cfg = demo_wal_config, ws_m = zero_wal_metrics, ws_seq = 0\<rparr>"

lemma wal_expiry_silent_witness:
  "let y = timed_run tm_badger tm_view table_gob tm_ttl
        [(second, CallAppend (wal_demo_message ''a'')), (3600 * second, CallAppend (wal_demo_message ''b'')),
         (3601 * second, CallRefresh), (3602 * second, CallDrain 10)] tm_store
   in tl_drained y = [wal_demo_message ''b''] \<and> map (snd \<circ> snd) (tl_expired y) = [wal_demo_message ''a'']
      \<and> wal_log tm_view table_gob (tl_store y) = [] \<and> wm_expired (ws_m (tl_store y)) = 0"
proof -
  let ?cs = "[(second, CallAppend (wal_demo_message ''a'')), (3600 * second, CallAppend (wal_demo_message ''b'')),
         (3601 * second, CallRefresh), (3602 * second, CallDrain 10)]"
  obtain y where y: "timed_run tm_badger tm_view table_gob tm_ttl ?cs tm_store = y" by simp
  have run: "tl_drained (timed_run tm_badger tm_view table_gob tm_ttl ?cs tm_store) = [wal_demo_message ''b'']"
    "map (snd \<circ> snd) (tl_expired (timed_run tm_badger tm_view table_gob tm_ttl ?cs tm_store)) = [wal_demo_message ''a'']"
    "map (snd \<circ> snd) (tl_appended (timed_run tm_badger tm_view table_gob tm_ttl ?cs tm_store))
      = [wal_demo_message ''a'', wal_demo_message ''b'']" by code_simp+
  have none: "log_entries tm_view (ws_db tm_store) = []" by code_simp
  have "wal_inv tm_badger tm_view table_gob tm_store"
    using tm_contract table_gob_contract none by (simp add: wal_inv_def)
  moreover have "wal_before tm_view 0 tm_store" using none by (simp add: wal_before_def)
  moreover have "wal_message (wal_demo_message k)" for k
    by (simp add: wal_message_def wal_demo_message_def zero_message_def)
  then have "calls_ok 0 ?cs" by simp
  moreover have "bt_clock tm_ttl (ws_db tm_store) \<le> 0" "unat (ws_seq tm_store) + length ?cs < 2 ^ 64"
    "second \<le> wc_ttl (ws_cfg tm_store) \<or> wc_ttl (ws_cfg tm_store) \<le> 0" "wm_expired (ws_m tm_store) = 0"
    by (simp_all add: tm_store_def tm_ttl_def demo_wal_config_def zero_wal_metrics_def)
  ultimately have "mset (wal_log tm_view table_gob tm_store) + mset (map (snd \<circ> snd) (tl_appended y))
      = mset (tl_drained y) + mset (map (snd \<circ> snd) (tl_expired y)) + mset (wal_log tm_view table_gob (tl_store y))"
    "wm_expired (ws_m (tl_store y)) = 0"
    using wal_expiry_silent [OF _ _ tm_ttl_law _ _ _ _ y [symmetric]] by fastforce+
  then show ?thesis using run none unfolding y by (simp add: Let_def wal_log_def)
qed

end
