(* ===== verification/DeadLetter.thy ===== *)
theory DeadLetter
  imports Topic Postgres Metrics
begin

text \<open>
  internal/deadletter/deadletter.go: the S3 sink for messages that exhausted their retries. The S3
  client is the record \<open>s3_api\<close> of operations on a world \<open>'w\<close>; \<open>json.Marshal\<close> of an envelope,
  \<open>uuid.UUID.String\<close> and the text of an error are arguments. The civil date of a key is computed as
  the time package does.
\<close>

subsection \<open>Dates\<close>

definition civil_date :: "time \<Rightarrow> int \<times> int \<times> int" where
  \<comment> \<open>year, month and day of an instant, in UTC (proleptic Gregorian calendar)\<close>
  "civil_date t =
     (let z = t div (86400 * second) + 719468;
          era = z div 146097; doe = z mod 146097;
          yoe = (doe - doe div 1460 + doe div 36524 - doe div 146096) div 365;
          doy = doe - (365 * yoe + yoe div 4 - yoe div 100);
          mp = (5 * doy + 2) div 153;
          m = (if mp < 10 then mp + 3 else mp - 9)
      in (yoe + era * 400 + (if m \<le> 2 then 1 else 0), m, doy - (153 * mp + 2) div 5 + 1))"

definition pad_left :: "nat \<Rightarrow> string \<Rightarrow> string" where
  "pad_left w s = replicate (w - length s) (CHR ''0'') @ s"

definition show_year :: "int \<Rightarrow> string" where
  "show_year y = (if y < 0 then CHR ''-'' # pad_left 4 (show_nat (nat (- y))) else pad_left 4 (show_nat (nat y)))"

definition date_text :: "time \<Rightarrow> string" where
  \<comment> \<open>\<open>Format("2006-01-02")\<close>\<close>
  "date_text t = (case civil_date t of (y, m, d) \<Rightarrow>
     show_year y @ ''-'' @ pad_left 2 (show_nat (nat m)) @ ''-'' @ pad_left 2 (show_nat (nat d)))"

lemma date_text_examples:
  "date_text 0 = ''1970-01-01''" "date_text (951782400 * second) = ''2000-02-29''"
  "date_text (1767225599 * second) = ''2025-12-31''" "date_text zero_time = ''0001-01-01''"
  by code_simp+

subsection \<open>The sink\<close>

record envelope =
  env_timestamp :: time
  env_tenant_id :: string
  env_device_uuid :: string
  env_topic :: string
  env_payload :: bytes
  env_received_at :: time
  env_dedup_key :: string
  env_last_error :: string

record put_input =
  pi_bucket :: string
  pi_key :: string
  pi_body :: "byte list"
  pi_content_type :: string

record 'w s3_api =
  put_object :: "put_input \<Rightarrow> 'w \<Rightarrow> go_error option \<times> 'w"
  head_bucket :: "string \<Rightarrow> 'w \<Rightarrow> go_error option \<times> 'w"

record sink =
  sk_cfg :: s3_config
  sk_m :: deadletter_metrics
  sk_seq :: "64 word"

record s3_options =
  so_region :: string
  so_static_creds :: "(string \<times> string) option"
  so_base_endpoint :: "string option"
  so_path_style :: bool

definition endpoint_url :: "s3_config \<Rightarrow> string" where
  "endpoint_url cfg =
     (if \<not> contains_sub (s3_endpoint cfg) ''://''
      then (if use_ssl cfg then ''https://'' @ s3_endpoint cfg else ''http://'' @ s3_endpoint cfg)
      else s3_endpoint cfg)"

definition new_sink ::
  "(string \<Rightarrow> (string \<times> string) option \<Rightarrow> go_error option) \<Rightarrow> s3_config \<Rightarrow> deadletter_metrics option
   \<Rightarrow> go_error + sink \<times> s3_options" where
  \<comment> \<open>\<open>load_default\<close> is \<open>LoadDefaultConfig\<close>; the options are those of the client NewSink builds\<close>
  "new_sink load_default cfg m =
     (if s3_bucket cfg = '''' then Inl (ErrText ''deadletter: bucket required'')
      else
        let cfg1 = (if s3_region cfg = '''' then cfg\<lparr>s3_region := ''us-east-1''\<rparr> else cfg)
        in (case m of
              None \<Rightarrow> Inl (ErrText ''deadletter: metrics required'')
            | Some dm \<Rightarrow>
                let creds = (if access_key cfg1 \<noteq> '''' \<and> secret_key cfg1 \<noteq> ''''
                             then Some (access_key cfg1, secret_key cfg1) else None)
                in (case load_default (s3_region cfg1) creds of
                      Some e \<Rightarrow> Inl (Wrapped ''aws config'' e)
                    | None \<Rightarrow>
                        Inr (\<lparr>sk_cfg = cfg1, sk_m = dm, sk_seq = 0\<rparr>,
                          \<lparr>so_region = s3_region cfg1, so_static_creds = creds,
                           so_base_endpoint =
                             (if s3_endpoint cfg1 \<noteq> '''' then Some (endpoint_url cfg1) else None),
                           so_path_style = use_path_style cfg1\<rparr>))))"

definition sink_health_check :: "'w s3_api \<Rightarrow> sink \<Rightarrow> 'w \<Rightarrow> go_error option \<times> 'w" where
  "sink_health_check api s w = head_bucket api (s3_bucket (sk_cfg s)) w"

definition dead_key :: "(uuid \<Rightarrow> string) \<Rightarrow> message \<Rightarrow> time \<Rightarrow> sink \<Rightarrow> string \<times> sink" where
  "dead_key uuid_string msg now s =
     (let tenant = (if tenant_id msg = '''' then ''unknown'' else tenant_id msg);
          device = (if uuid_string (device_uuid msg) = ''00000000-0000-0000-0000-000000000000''
                    then ''unknown'' else uuid_string (device_uuid msg));
          seq = sk_seq s + 1
      in (''dead-letter/'' @ date_text now @ ''/'' @ tenant @ ''/'' @ device @ ''/''
            @ show_int (unix_nano (received_at msg)) @ ''-'' @ show_nat (unat seq) @ ''.json'',
          s\<lparr>sk_seq := seq\<rparr>))"

definition envelope_of ::
  "(uuid \<Rightarrow> string) \<Rightarrow> (go_error \<Rightarrow> string) \<Rightarrow> time \<Rightarrow> message \<Rightarrow> go_error option \<Rightarrow> envelope" where
  "envelope_of uuid_string err_text now msg last_err =
     \<lparr>env_timestamp = now, env_tenant_id = tenant_id msg, env_device_uuid = uuid_string (device_uuid msg),
      env_topic = topic msg, env_payload = payload msg, env_received_at = received_at msg,
      env_dedup_key = dedup_key msg,
      env_last_error = (case last_err of None \<Rightarrow> '''' | Some e \<Rightarrow> err_text e)\<rparr>"

record clock3 =
  \<comment> \<open>the three readings of the clock Write takes: for the envelope, before and after the upload\<close>
  ck_now :: time
  ck_start :: time
  ck_end :: time

definition sink_write ::
  "(uuid \<Rightarrow> string) \<Rightarrow> (go_error \<Rightarrow> string) \<Rightarrow> (envelope \<Rightarrow> go_error + byte list) \<Rightarrow> 'w s3_api
   \<Rightarrow> clock3 \<Rightarrow> message \<Rightarrow> go_error option \<Rightarrow> sink \<times> 'w \<Rightarrow> go_error option \<times> sink \<times> 'w" where
  "sink_write uuid_string err_text marshal api ck msg last_err sw =
     (case sw of (s, w) \<Rightarrow>
        (case marshal (envelope_of uuid_string err_text (ck_now ck) msg last_err) of
           Inl e \<Rightarrow> (Some (Wrapped ''marshal envelope'' e),
             s\<lparr>sk_m := (sk_m s)\<lparr>dm_errors := dm_errors (sk_m s) + 1\<rparr>\<rparr>, w)
         | Inr body \<Rightarrow>
             (case dead_key uuid_string msg (ck_now ck) s of
                (key, s1) \<Rightarrow>
                  (case put_object api \<lparr>pi_bucket = s3_bucket (sk_cfg s1), pi_key = key, pi_body = body,
                      pi_content_type = ''application/json''\<rparr> w of
                     (r, w1) \<Rightarrow>
                       let s2 = s1\<lparr>sk_m := (sk_m s1)\<lparr>dm_latency :=
                             dm_latency (sk_m s1) @ [time_sub (ck_end ck) (ck_start ck)]\<rparr>\<rparr>
                       in (case r of
                             Some e \<Rightarrow> (Some (Wrapped (''put '' @ key) e),
                               s2\<lparr>sk_m := (sk_m s2)\<lparr>dm_errors := dm_errors (sk_m s2) + 1\<rparr>\<rparr>, w1)
                           | None \<Rightarrow> (None,
                               s2\<lparr>sk_m := (sk_m s2)\<lparr>dm_written := dm_written (sk_m s2) + 1\<rparr>\<rparr>, w1))))))"

subsection \<open>Keys\<close>

lemma last_segment:
  "CHR ''/'' \<notin> set a \<Longrightarrow> CHR ''/'' \<notin> set b \<Longrightarrow> p @ CHR ''/'' # a = q @ CHR ''/'' # b \<longleftrightarrow> p = q \<and> a = b"
  using append_inj_sep [of "CHR ''/''" "rev a" "rev b" "rev p" "rev q"]
  by (metis rev_append rev_rev_ident rev.simps(2) append.assoc append_Cons append_Nil set_rev)

lemma dash_file_inj:
  "show_int n @ ''-'' @ show_nat s @ ''.json'' = show_int n' @ ''-'' @ show_nat s' @ ''.json''
   \<longleftrightarrow> n = n' \<and> s = s'"
proof
  assume eq: "show_int n @ ''-'' @ show_nat s @ ''.json'' = show_int n' @ ''-'' @ show_nat s' @ ''.json''"
  then have "rev (show_nat s) @ CHR ''-'' # rev (show_int n) = rev (show_nat s') @ CHR ''-'' # rev (show_int n')"
    using arg_cong [OF eq, of rev] by simp
  moreover have "CHR ''-'' \<notin> set (show_nat x)" for x
    using show_nat_digits minus_not_digit by blast
  ultimately have "rev (show_nat s) = rev (show_nat s')" "rev (show_int n) = rev (show_int n')"
    using append_inj_sep [of "CHR ''-''" "rev (show_nat s)" "rev (show_nat s')"] by simp_all
  then show "n = n' \<and> s = s'" by (simp add: show_nat_inj show_int_inj)
qed simp

lemma file_no_slash: "CHR ''/'' \<notin> set (show_int n @ ''-'' @ show_nat s @ ''.json'')"
proof -
  have "\<not> is_digit CHR ''/''" by (simp add: is_digit_def)
  then show ?thesis using show_int_chars [of "CHR ''/''" n] show_nat_digits [of "CHR ''/''" s] by auto
qed

lemma dead_key_fields [simp]:
  "sk_seq (snd (dead_key us m now s)) = sk_seq s + 1" "sk_cfg (snd (dead_key us m now s)) = sk_cfg s"
  "sk_m (snd (dead_key us m now s)) = sk_m s"
  by (simp_all add: dead_key_def Let_def)

lemma dead_key_file:
  "\<exists>p. fst (dead_key us m now s) = p @ CHR ''/'' # show_int (unix_nano (received_at m)) @ ''-''
     @ show_nat (unat (sk_seq s + 1)) @ ''.json''"
  by (simp add: dead_key_def Let_def)


subsection \<open>The dead-letter interface of the flusher\<close>

text \<open>
  \<open>sv_puts\<close> lists the uploads a bucket has taken. An upload that reports no error was taken; one that
  reports an error may have been. A letter holds a message when its body is the marshalled envelope of
  this message, for some time stamp and error.
\<close>

definition s3_contract :: "'w s3_api \<Rightarrow> ('w \<Rightarrow> put_input list) \<Rightarrow> bool" where
  "s3_contract api puts \<longleftrightarrow>
     (\<forall>inp w w'. put_object api inp w = (None, w') \<longrightarrow> puts w' = puts w @ [inp])
     \<and> (\<forall>inp w w' e. put_object api inp w = (Some e, w') \<longrightarrow> puts w' = puts w \<or> puts w' = puts w @ [inp])"

definition letter_holds ::
  "(uuid \<Rightarrow> string) \<Rightarrow> (go_error \<Rightarrow> string) \<Rightarrow> (envelope \<Rightarrow> go_error + byte list) \<Rightarrow> put_input \<Rightarrow> message \<Rightarrow> bool"
where
  "letter_holds us et marshal x m \<longleftrightarrow>
     (\<exists>now e. marshal (envelope_of us et now m e) = Inr (pi_body x))"

locale dead_letters =
  fixes put :: "message \<Rightarrow> go_error option \<Rightarrow> 'd \<Rightarrow> go_error option \<times> 'd"
    and letters :: "'d \<Rightarrow> 'l list"
    and holds :: "'l \<Rightarrow> message \<Rightarrow> bool"
    and inv :: "'d \<Rightarrow> bool"
  assumes put_ok: "inv d \<Longrightarrow> put m e d = (None, d') \<Longrightarrow>
      inv d' \<and> (\<exists>x. letters d' = letters d @ [x] \<and> holds x m)"
    and put_err: "inv d \<Longrightarrow> put m e d = (Some err, d') \<Longrightarrow>
      inv d' \<and> (letters d' = letters d \<or> (\<exists>x. letters d' = letters d @ [x] \<and> holds x m))"
begin

lemma put_grows:
  assumes "inv d" "put m e d = (r, d')"
  shows "inv d' \<and> set (letters d) \<subseteq> set (letters d') \<and> (r = None \<longrightarrow> (\<exists>x \<in> set (letters d'). holds x m))"
  using assms put_ok [of d m e d'] put_err [of d m e _ d'] by (cases r) fastforce+

end

lemma sink_write_cases:
  assumes "sink_write us et marshal api ck m le (s, w) = (r, s', w')"
  obtains e where "marshal (envelope_of us et (ck_now ck) m le) = Inl e" "w' = w"
      "r = Some (Wrapped ''marshal envelope'' e)" "sk_seq s' = sk_seq s" "sk_cfg s' = sk_cfg s"
      "sk_m s' = (sk_m s)\<lparr>dm_errors := dm_errors (sk_m s) + 1\<rparr>"
  | body res where "marshal (envelope_of us et (ck_now ck) m le) = Inr body"
      "put_object api \<lparr>pi_bucket = s3_bucket (sk_cfg s), pi_key = fst (dead_key us m (ck_now ck) s),
         pi_body = body, pi_content_type = ''application/json''\<rparr> w = (res, w')"
      "r = map_option (Wrapped (''put '' @ fst (dead_key us m (ck_now ck) s))) res"
      "sk_seq s' = sk_seq s + 1" "sk_cfg s' = sk_cfg s"
      "sk_m s' = (sk_m s)\<lparr>dm_latency := dm_latency (sk_m s) @ [time_sub (ck_end ck) (ck_start ck)],
         dm_errors := dm_errors (sk_m s) + (if res = None then 0 else 1),
         dm_written := dm_written (sk_m s) + (if res = None then 1 else 0)\<rparr>"
proof (cases "marshal (envelope_of us et (ck_now ck) m le)")
  case (Inl e)
  with assms that(1) show ?thesis by (auto simp: sink_write_def)
next
  case (Inr body)
  obtain res w1 where p: "put_object api \<lparr>pi_bucket = s3_bucket (sk_cfg s),
      pi_key = fst (dead_key us m (ck_now ck) s), pi_body = body, pi_content_type = ''application/json''\<rparr> w
      = (res, w1)" by (metis surj_pair)
  show ?thesis
    by (rule that(2) [OF Inr, of res])
      (use assms p Inr in \<open>cases res; simp add: sink_write_def case_prod_beta Let_def; auto\<close>)+
qed

interpretation dl: dead_letters "\<lambda>m e d. sink_write us et marshal api (ckf d) m e d" "\<lambda>d. puts (snd d)"
    "letter_holds us et marshal" "\<lambda>d. s3_contract api puts"
  for us et marshal api ckf puts
proof
  fix m e and d d' :: "sink \<times> 'a"
  assume c: "s3_contract api puts" and w: "sink_write us et marshal api (ckf d) m e d = (None, d')"
  obtain s w0 s' w' where d: "d = (s, w0)" "d' = (s', w')" by (metis surj_pair)
  from w [unfolded d] show "s3_contract api puts \<and> (\<exists>x. puts (snd d') = puts (snd d) @ [x]
      \<and> letter_holds us et marshal x m)"
    by (rule sink_write_cases) (use c d in \<open>auto simp: s3_contract_def letter_holds_def\<close>)
next
  fix m e err and d d' :: "sink \<times> 'a"
  assume c: "s3_contract api puts" and w: "sink_write us et marshal api (ckf d) m e d = (Some err, d')"
  obtain s w0 s' w' where d: "d = (s, w0)" "d' = (s', w')" by (metis surj_pair)
  from w [unfolded d] show "s3_contract api puts \<and> (puts (snd d') = puts (snd d)
      \<or> (\<exists>x. puts (snd d') = puts (snd d) @ [x] \<and> letter_holds us et marshal x m))"
  proof (rule sink_write_cases)
    assume "w' = w0"
    then show ?thesis using c d by simp
  next
    fix body res
    let ?inp = "\<lparr>pi_bucket = s3_bucket (sk_cfg s), pi_key = fst (dead_key us m (ck_now (ckf d)) s),
         pi_body = body, pi_content_type = ''application/json''\<rparr>"
    assume b: "marshal (envelope_of us et (ck_now (ckf (s, w0))) m e) = Inr body"
      and p: "put_object api \<lparr>pi_bucket = s3_bucket (sk_cfg s),
         pi_key = fst (dead_key us m (ck_now (ckf (s, w0))) s), pi_body = body,
         pi_content_type = ''application/json''\<rparr> w0 = (res, w')"
      and r: "Some err = map_option (Wrapped (''put '' @ fst (dead_key us m (ck_now (ckf (s, w0))) s))) res"
    from r obtain e' where "res = Some e'" by (cases res) auto
    with p d c have "puts w' = puts w0 \<or> puts w' = puts w0 @ [?inp]"
      unfolding s3_contract_def by blast
    moreover have "letter_holds us et marshal ?inp m" using b by (auto simp: letter_holds_def)
    ultimately show ?thesis using c d by auto
  qed
qed


subsection \<open>Properties\<close>

lemma date_no_slash: "CHR ''/'' \<notin> set (date_text t)"
proof -
  have d: "\<not> is_digit CHR ''/''" by (simp add: is_digit_def)
  then have n: "CHR ''/'' \<notin> set (show_nat x)" for x using show_nat_digits by blast
  then have "CHR ''/'' \<notin> set (pad_left w (show_nat x))" for w x by (simp add: pad_left_def)
  then show ?thesis by (auto simp: date_text_def show_year_def split: prod.splits)
qed

text \<open>No traversal. For a message whose tenant the topic parser let through (or is empty) and whose device
  prints without a slash, the object key has exactly the five segments dead-letter, date, tenant, device
  and file name, with the stand-in unknown where the tenant is empty or the device is the nil UUID.\<close>
lemma dead_key_segments:
  assumes "tenant_id m = '''' \<or> valid_tenant (tenant_id m)" "CHR ''/'' \<notin> set (uuid_string (device_uuid m))"
  shows "split_on CHR ''/'' (fst (dead_key uuid_string m now s)) =
    [''dead-letter'', date_text now,
     if tenant_id m = '''' then ''unknown'' else tenant_id m,
     if uuid_string (device_uuid m) = ''00000000-0000-0000-0000-000000000000'' then ''unknown''
       else uuid_string (device_uuid m),
     show_int (unix_nano (received_at m)) @ ''-'' @ show_nat (unat (sk_seq s + 1)) @ ''.json'']"
proof -
  let ?tn = "if tenant_id m = '''' then ''unknown'' else tenant_id m"
  let ?dv = "if uuid_string (device_uuid m) = ''00000000-0000-0000-0000-000000000000'' then ''unknown''
       else uuid_string (device_uuid m)"
  let ?file = "show_int (unix_nano (received_at m)) @ ''-'' @ show_nat (unat (sk_seq s + 1)) @ ''.json''"
  let ?ps = "[''dead-letter'', date_text now, ?tn, ?dv, ?file]"
  have "CHR ''/'' \<notin> set ?tn" "CHR ''/'' \<notin> set ?dv"
    using assms valid_tenant_no_slash [of "tenant_id m"] by auto
  then have "\<forall>p \<in> set ?ps. CHR ''/'' \<notin> set p"
    using date_no_slash [of now] file_no_slash [of "unix_nano (received_at m)" "unat (sk_seq s + 1)"]
    by (simp only: list.set ball_simps) simp
  then have "split_on CHR ''/'' (join_with CHR ''/'' ?ps) = ?ps" by (intro split_join) simp_all
  moreover have "fst (dead_key uuid_string m now s) = join_with CHR ''/'' ?ps"
    by (simp add: dead_key_def Let_def)
  ultimately show ?thesis by (simp only:)
qed

lemma dead_key_segments_witness:
  "let s = \<lparr>sk_cfg = c_dead_letter new_default, sk_m = \<lparr>dm_written = 0, dm_errors = 0, dm_latency = []\<rparr>, sk_seq = 0\<rparr>
   in length (split_on CHR ''/'' (fst (dead_key (\<lambda>u. ''cafe'') zero_message 0 s))) = 5"
  unfolding Let_def by (subst dead_key_segments) (simp_all add: zero_message_def)

fun sink_keys :: "(uuid \<Rightarrow> string) \<Rightarrow> (message \<times> time) list \<Rightarrow> sink \<Rightarrow> string list" where
  \<comment> \<open>the keys of successive writes of one sink\<close>
  "sink_keys us [] s = []"
| "sink_keys us ((m, t) # ms) s = (case dead_key us m t s of (k, s') \<Rightarrow> k # sink_keys us ms s')"

lemma sink_keys_files:
  "k \<in> set (sink_keys us ms s) \<Longrightarrow> \<exists>p n i. i < length ms
     \<and> k = p @ CHR ''/'' # show_int n @ ''-'' @ show_nat (unat (sk_seq s + 1 + of_nat i)) @ ''.json''"
proof (induction us ms s rule: sink_keys.induct)
  case (2 us m t ms s)
  have k: "k = fst (dead_key us m t s) \<or> k \<in> set (sink_keys us ms (snd (dead_key us m t s)))"
    using 2(2) by (simp add: case_prod_beta)
  then show ?case
  proof
    assume k: "k = fst (dead_key us m t s)"
    obtain p where "fst (dead_key us m t s) = p @ CHR ''/'' # show_int (unix_nano (received_at m)) @ ''-''
        @ show_nat (unat (sk_seq s + 1)) @ ''.json''"
      using dead_key_file [of us m t s] by blast
    then show ?thesis unfolding k
      by (intro exI [of _ p] exI [of _ "unix_nano (received_at m)"] exI [of _ 0]) simp
  next
    assume "k \<in> set (sink_keys us ms (snd (dead_key us m t s)))"
    from 2(1) [OF prod.collapse this] obtain p n i where
      "i < length ms" "k = p @ CHR ''/'' # show_int n @ ''-''
        @ show_nat (unat (sk_seq s + 1 + 1 + of_nat i)) @ ''.json''" by auto
    then show ?thesis
      by (intro exI [of _ p] exI [of _ n] exI [of _ "Suc i"]) (simp add: add.assoc)
  qed
qed simp

text \<open>Letters do not overwrite each other. The object keys of fewer than 2 ^ 64 successive writes of one
  sink are distinct, whatever the messages and the clock.\<close>
lemma dead_keys_distinct:
  assumes "length ms < 2 ^ 64"
  shows "distinct (sink_keys uuid_string ms s)"
  using assms
proof (induction uuid_string ms s rule: sink_keys.induct)
  case (2 us m t ms s)
  have "fst (dead_key us m t s) \<notin> set (sink_keys us ms (snd (dead_key us m t s)))"
  proof
    assume "fst (dead_key us m t s) \<in> set (sink_keys us ms (snd (dead_key us m t s)))"
    from sink_keys_files [OF this] obtain p n i where i: "i < length ms" and
      "fst (dead_key us m t s) = p @ CHR ''/'' # show_int n @ ''-''
        @ show_nat (unat (sk_seq s + 1 + 1 + of_nat i)) @ ''.json''" by auto
    with dead_key_file [of us m t s] obtain q where
      "q @ CHR ''/'' # show_int (unix_nano (received_at m)) @ ''-'' @ show_nat (unat (sk_seq s + 1)) @ ''.json''
       = p @ CHR ''/'' # show_int n @ ''-'' @ show_nat (unat (sk_seq s + 1 + 1 + of_nat i)) @ ''.json''"
      by auto
    then have "unat (sk_seq s + 1) = unat (sk_seq s + 1 + 1 + of_nat i)"
      using last_segment [OF file_no_slash file_no_slash] dash_file_inj by blast
    then have "sk_seq s + 1 = sk_seq s + 1 + 1 + of_nat i" unfolding word_unat_eq_iff .
    also have "\<dots> = sk_seq s + 1 + of_nat (Suc i)" by (simp only: of_nat_Suc add.assoc)
    finally have "(of_nat (Suc i) :: 64 word) = 0" by (metis add.right_neutral add_left_imp_eq)
    then have "2 ^ LENGTH(64) dvd Suc i" by (simp only: word_of_nat_eq_0_iff)
    then have "2 ^ 64 \<le> Suc i" by (intro dvd_imp_le) simp_all
    with i 2(2) show False by simp
  qed
  moreover have "distinct (sink_keys us ms (snd (dead_key us m t s)))"
    using 2(1) [OF prod.collapse] 2(2) by simp
  ultimately show ?case by (simp add: case_prod_beta)
qed simp

lemma dead_keys_distinct_witness:
  "let s = \<lparr>sk_cfg = c_dead_letter new_default, sk_m = \<lparr>dm_written = 0, dm_errors = 0, dm_latency = []\<rparr>, sk_seq = - 1\<rparr>
   in distinct (sink_keys (\<lambda>u. ''cafe'') [(zero_message, 0), (zero_message, 0)] s)"
  unfolding Let_def by (rule dead_keys_distinct) simp


text \<open>C31: Write is honest. It reports success only after one upload of the marshalled envelope of this
  message (every field of the row, and the text of the error that killed it) to the configured bucket was
  taken; each call counts exactly once, as written or as an error, and an envelope that cannot be
  marshalled uploads nothing and consumes no key.\<close>
theorem sink_write_honest:
  assumes "s3_contract api puts" "sink_write us et marshal api ck m le (s, w) = (r, s', w')"
  shows "(r = None \<longrightarrow> (\<exists>body. marshal (envelope_of us et (ck_now ck) m le) = Inr body
            \<and> puts w' = puts w @ [\<lparr>pi_bucket = s3_bucket (sk_cfg s),
                 pi_key = fst (dead_key us m (ck_now ck) s), pi_body = body,
                 pi_content_type = ''application/json''\<rparr>]))
    \<and> dm_written (sk_m s') = dm_written (sk_m s) + (if r = None then 1 else 0)
    \<and> dm_errors (sk_m s') = dm_errors (sk_m s) + (if r = None then 0 else 1)
    \<and> (isl (marshal (envelope_of us et (ck_now ck) m le)) \<longrightarrow> r \<noteq> None \<and> w' = w \<and> sk_seq s' = sk_seq s)"
  using assms(2)
proof (rule sink_write_cases)
  fix body res
  assume b: "marshal (envelope_of us et (ck_now ck) m le) = Inr body"
    and p: "put_object api \<lparr>pi_bucket = s3_bucket (sk_cfg s), pi_key = fst (dead_key us m (ck_now ck) s),
         pi_body = body, pi_content_type = ''application/json''\<rparr> w = (res, w')"
    and r: "r = map_option (Wrapped (''put '' @ fst (dead_key us m (ck_now ck) s))) res"
    and met: "sk_m s' = (sk_m s)\<lparr>dm_latency := dm_latency (sk_m s) @ [time_sub (ck_end ck) (ck_start ck)],
         dm_errors := dm_errors (sk_m s) + (if res = None then 0 else 1),
         dm_written := dm_written (sk_m s) + (if res = None then 1 else 0)\<rparr>"
  have "r = None \<longleftrightarrow> res = None" using r by simp
  then show ?thesis using assms(1) b p met unfolding s3_contract_def by simp
qed simp_all

definition mem_s3 :: "put_input list s3_api" where
  "mem_s3 = \<lparr>put_object = (\<lambda>x w. (None, w @ [x])), head_bucket = (\<lambda>x w. (None, w))\<rparr>"

definition demo_sink :: sink where
  "demo_sink = \<lparr>sk_cfg = (c_dead_letter new_default)\<lparr>s3_bucket := ''dlq''\<rparr>,
     sk_m = \<lparr>dm_written = 0, dm_errors = 0, dm_latency = []\<rparr>, sk_seq = 0\<rparr>"

lemma mem_s3_contract: "s3_contract mem_s3 (\<lambda>w. w)"
  by (simp add: s3_contract_def mem_s3_def)

lemma sink_write_honest_witness:
  "case sink_write (\<lambda>u. ''cafe'') (\<lambda>e. ''boom'') (\<lambda>env. Inr [1]) mem_s3
      \<lparr>ck_now = 0, ck_start = 0, ck_end = 5\<rparr> zero_message (Some ErrFull) (demo_sink, []) of
     (r, s', w') \<Rightarrow> map pi_bucket w' = [''dlq''] \<and> dm_written (sk_m s') = 1"
proof -
  let ?c = "sink_write (\<lambda>u. ''cafe'') (\<lambda>e. ''boom'') (\<lambda>env. Inr [1]) mem_s3
      \<lparr>ck_now = 0, ck_start = 0, ck_end = 5\<rparr> zero_message (Some ErrFull) (demo_sink, [])"
  obtain r s' w' where c: "?c = (r, s', w')" by (metis prod_cases3)
  have "fst ?c = None"
    by (simp add: sink_write_def mem_s3_def case_prod_beta Let_def)
  with c have "r = None" by simp
  with sink_write_honest [OF mem_s3_contract c] c show ?thesis by (auto simp: demo_sink_def)
qed

lemma new_sink_Some:
  "new_sink load_default cfg (Some dm) =
     (if s3_bucket cfg = '''' then Inl (ErrText ''deadletter: bucket required'')
      else let R = (if s3_region cfg = '''' then ''us-east-1'' else s3_region cfg);
               C = (if access_key cfg = '''' \<or> secret_key cfg = '''' then None
                    else Some (access_key cfg, secret_key cfg));
               E = (if s3_endpoint cfg = '''' then None
                    else Some ((if contains_sub (s3_endpoint cfg) ''://'' then ''''
                                else if use_ssl cfg then ''https://'' else ''http://'') @ s3_endpoint cfg))
           in (case load_default R C of
                 Some e \<Rightarrow> Inl (Wrapped ''aws config'' e)
               | None \<Rightarrow> Inr (\<lparr>sk_cfg = cfg\<lparr>s3_region := R\<rparr>, sk_m = dm, sk_seq = 0\<rparr>,
                   \<lparr>so_region = R, so_static_creds = C, so_base_endpoint = E,
                    so_path_style = use_path_style cfg\<rparr>)))"
proof -
  have r: "(if s3_region cfg = '''' then cfg\<lparr>s3_region := ''us-east-1''\<rparr> else cfg)
      = cfg\<lparr>s3_region := (if s3_region cfg = '''' then ''us-east-1'' else s3_region cfg)\<rparr>" by simp
  have e: "endpoint_url (cfg\<lparr>s3_region := R\<rparr>) = (if contains_sub (s3_endpoint cfg) ''://'' then ''''
      else if use_ssl cfg then ''https://'' else ''http://'') @ s3_endpoint cfg" for R
    by (simp add: endpoint_url_def)
  show ?thesis unfolding new_sink_def Let_def r option.case e by (simp cong: option.case_cong)
qed

text \<open>The client NewSink builds. It needs a bucket and metrics; the region defaults to us-east-1, static
  credentials are used only when both keys are set, and a configured endpoint always reaches the client
  with a scheme, https exactly when it had none and SSL is on.\<close>

lemma new_sink_options:
  assumes "new_sink load_default cfg m = Inr (s, opts)"
  shows "s3_bucket cfg \<noteq> '''' \<and> m = Some (sk_m s) \<and> sk_seq s = 0
     \<and> sk_cfg s = cfg\<lparr>s3_region := so_region opts\<rparr>
     \<and> so_region opts = (if s3_region cfg = '''' then ''us-east-1'' else s3_region cfg)
     \<and> so_static_creds opts = (if access_key cfg = '''' \<or> secret_key cfg = '''' then None
          else Some (access_key cfg, secret_key cfg))
     \<and> so_base_endpoint opts = (if s3_endpoint cfg = '''' then None
          else Some ((if contains_sub (s3_endpoint cfg) ''://'' then ''''
                      else if use_ssl cfg then ''https://'' else ''http://'') @ s3_endpoint cfg))
     \<and> so_path_style opts = use_path_style cfg
     \<and> load_default (so_region opts) (so_static_creds opts) = None"
proof (cases m)
  case None
  with assms show ?thesis by (simp add: new_sink_def Let_def split: if_splits)
next
  case (Some dm)
  let ?R = "if s3_region cfg = '''' then ''us-east-1'' else s3_region cfg"
  let ?C = "if access_key cfg = '''' \<or> secret_key cfg = '''' then None
    else Some (access_key cfg, secret_key cfg)"
  let ?E = "if s3_endpoint cfg = '''' then None
    else Some ((if contains_sub (s3_endpoint cfg) ''://'' then ''''
                else if use_ssl cfg then ''https://'' else ''http://'') @ s3_endpoint cfg)"
  have b: "s3_bucket cfg \<noteq> ''''" using assms Some by (auto simp: new_sink_def)
  with assms have eq: "(case load_default ?R ?C of Some e \<Rightarrow> Inl (Wrapped ''aws config'' e)
      | None \<Rightarrow> Inr (\<lparr>sk_cfg = cfg\<lparr>s3_region := ?R\<rparr>, sk_m = dm, sk_seq = 0\<rparr>,
         \<lparr>so_region = ?R, so_static_creds = ?C, so_base_endpoint = ?E,
          so_path_style = use_path_style cfg\<rparr>)) = Inr (s, opts)"
    unfolding Some new_sink_Some Let_def by (simp only: if_False)
  then have l: "load_default ?R ?C = None" by (cases "load_default ?R ?C") simp_all
  with eq have s: "s = \<lparr>sk_cfg = cfg\<lparr>s3_region := ?R\<rparr>, sk_m = dm, sk_seq = 0\<rparr>"
    and o: "opts = \<lparr>so_region = ?R, so_static_creds = ?C, so_base_endpoint = ?E,
          so_path_style = use_path_style cfg\<rparr>"
    by (simp_all only: option.case sum.inject prod.inject)
  show ?thesis using b l Some unfolding s o by simp
qed

lemma new_sink_options_witness:
  "case new_sink (\<lambda>r c. None) ((c_dead_letter new_default)\<lparr>s3_bucket := ''dlq'', s3_endpoint := ''rustfs:9000''\<rparr>)
     (Some \<lparr>dm_written = 0, dm_errors = 0, dm_latency = []\<rparr>) of
     Inr (s, opts) \<Rightarrow> so_base_endpoint opts = Some ''https://rustfs:9000''"
proof -
  let ?cfg = "(c_dead_letter new_default)\<lparr>s3_bucket := ''dlq'', s3_endpoint := ''rustfs:9000''\<rparr>"
  let ?m = "Some \<lparr>dm_written = 0, dm_errors = 0, dm_latency = []\<rparr> :: deadletter_metrics option"
  obtain s opts where n: "new_sink (\<lambda>r c. None) ?cfg ?m = Inr (s, opts)"
    by (simp add: new_sink_def new_default_def Let_def)
  from new_sink_options [OF n] n show ?thesis by (simp add: new_default_def has_prefix_def)
qed

end
