(* ===== verification/Flusher.thy ===== *)
theory Flusher
  imports Postgres Metrics
begin

text \<open>
  internal/flusher/flusher.go: the adaptive flush loop. The adaptive state (mode, recovery marker,
  critical gate, latency window) and the metrics are the record \<open>flusher\<close>; Postgres, the ring, the
  optional WAL, the dead-letter sink, the clock and the wait between attempts are the fields of
  \<open>deps\<close>, operations on a world \<open>'w\<close>. Each method that locks \<open>f.mu\<close> is one step. Where
  flushWithRetry returns, the model also names the way it returned.
\<close>

subsection \<open>Modes, state and dependencies\<close>

datatype mode = ModeNormal | ModeElevated | ModeCritical

fun mode_string :: "mode \<Rightarrow> string" where
  "mode_string ModeNormal = ''normal''"
| "mode_string ModeElevated = ''elevated''"
| "mode_string ModeCritical = ''critical''"

fun mode_int :: "mode \<Rightarrow> int" where
  "mode_int ModeNormal = 0"
| "mode_int ModeElevated = 1"
| "mode_int ModeCritical = 2"

instantiation mode :: linorder
begin

definition less_eq_mode :: "mode \<Rightarrow> mode \<Rightarrow> bool" where
  "less_eq_mode a b \<longleftrightarrow> mode_int a \<le> mode_int b"

definition less_mode :: "mode \<Rightarrow> mode \<Rightarrow> bool" where
  "less_mode a b \<longleftrightarrow> mode_int a < mode_int b"

instance
proof
  fix a b c :: mode
  show "a < b \<longleftrightarrow> a \<le> b \<and> \<not> b \<le> a" by (auto simp: less_mode_def less_eq_mode_def)
  show "a \<le> a" by (simp add: less_eq_mode_def)
  show "a \<le> b \<Longrightarrow> b \<le> c \<Longrightarrow> a \<le> c" by (simp add: less_eq_mode_def)
  show "a \<le> b \<Longrightarrow> b \<le> a \<Longrightarrow> a = b" by (cases a; cases b) (simp_all add: less_eq_mode_def)
  show "a \<le> b \<or> b \<le> a" by (auto simp: less_eq_mode_def)
qed

end

record flusher =
  fl_cfg :: flusher_config
  fl_mode :: mode
  below_since :: time
  critical_until :: time
  latency_window :: "duration list"
  window_capacity :: nat
  fl_m :: flusher_metrics

record 'w wal_source =
  src_drain :: "int \<Rightarrow> 'w \<Rightarrow> (go_error + message list) \<times> 'w"
  src_append :: "message \<Rightarrow> 'w \<Rightarrow> (go_error + string) \<times> 'w"

record 'w deps =
  fd_copy :: "message list \<Rightarrow> 'w \<Rightarrow> (go_error + int) \<times> 'w"
  fd_dequeue :: "int \<Rightarrow> 'w \<Rightarrow> message list \<times> 'w"
  fd_wal :: "'w wal_source option"
  fd_write :: "message \<Rightarrow> go_error option \<Rightarrow> 'w \<Rightarrow> go_error option \<times> 'w"
  fd_now :: "'w \<Rightarrow> time \<times> 'w"
  fd_wait :: "duration \<Rightarrow> 'w \<Rightarrow> bool \<times> 'w"
    \<comment> \<open>wait this long; True when the context was cancelled first\<close>

definition new_flusher ::
  "flusher_config \<Rightarrow> bool \<Rightarrow> bool \<Rightarrow> bool \<Rightarrow> flusher_metrics option \<Rightarrow> go_error + flusher" where
  \<comment> \<open>the three flags say whether the inserter, the source and the sink are there\<close>
  "new_flusher cfg has_pg has_src has_dl m =
     (if \<not> has_pg then Inl (ErrText ''flusher: postgres inserter required'')
      else if \<not> has_src then Inl (ErrText ''flusher: source required'')
      else if \<not> has_dl then Inl (ErrText ''flusher: dead-letter sink required'')
      else (case m of
          None \<Rightarrow> Inl (ErrText ''flusher: metrics required'')
        | Some fm \<Rightarrow> Inr \<lparr>fl_cfg = cfg, fl_mode = ModeNormal, below_since = zero_time,
            critical_until = zero_time, latency_window = [], window_capacity = 64, fl_m = fm\<rparr>))"

subsection \<open>The latency window\<close>

fun sift :: "nat \<Rightarrow> duration list \<Rightarrow> duration list" where
  \<comment> \<open>the inner loop of insertionSort, from index \<open>j\<close> down\<close>
  "sift 0 d = d"
| "sift (Suc j) d = (if d ! j > d ! Suc j then sift j (d[j := d ! Suc j, Suc j := d ! j]) else d)"

fun sort_loop :: "nat \<Rightarrow> nat \<Rightarrow> duration list \<Rightarrow> duration list" where
  \<comment> \<open>the outer loop, \<open>k\<close> more rounds from index \<open>i\<close>\<close>
  "sort_loop i 0 d = d"
| "sort_loop i (Suc k) d = sort_loop (Suc i) k (sift i d)"

definition insertion_sort :: "duration list \<Rightarrow> duration list" where
  "insertion_sort d = sort_loop 1 (length d - 1) d"

definition p95_locked :: "flusher \<Rightarrow> duration" where
  "p95_locked f =
     (let n = length (latency_window f)
      in if n = 0 then 0
         else let cp = insertion_sort (latency_window f);
                  idx = f64_scale 0 (int n) f64_lit_095
              in if idx \<ge> int n then cp ! (n - 1) else cp ! nat idx)"

subsection \<open>Mode transitions\<close>

definition set_mode_locked :: "mode \<Rightarrow> flusher \<Rightarrow> flusher" where
  "set_mode_locked m f =
     (if fl_mode f = m then f
      else f\<lparr>fl_mode := m, fl_m := (fl_m f)\<lparr>fm_mode := mode_int m,
             fm_batch_size := (case m of ModeNormal \<Rightarrow> batch_size (fl_cfg f)
               | _ \<Rightarrow> elevated_batch_size (fl_cfg f))\<rparr>\<rparr>)"

definition push_latency :: "duration \<Rightarrow> flusher \<Rightarrow> flusher" where
  "push_latency d f =
     (let w = latency_window f @ [d]
      in f\<lparr>latency_window := (if length w > window_capacity f
             then drop (length w - window_capacity f) w else w)\<rparr>)"

definition record_latency :: "('w \<Rightarrow> time \<times> 'w) \<Rightarrow> duration \<Rightarrow> flusher \<times> 'w \<Rightarrow> flusher \<times> 'w" where
  "record_latency now d fw =
     (case fw of (f0, w) \<Rightarrow>
        let f = push_latency d f0; p95 = p95_locked f; cfg = fl_cfg f
        in (case fl_mode f of
              ModeNormal \<Rightarrow>
                (if p95 \<ge> elevated_latency_threshold cfg then (set_mode_locked ModeElevated f, w) else (f, w))
            | ModeElevated \<Rightarrow>
                (if p95 \<ge> critical_latency_threshold cfg then (set_mode_locked ModeCritical f, w)
                 else if p95 < elevated_latency_threshold cfg then
                   (case now w of (t, w1) \<Rightarrow>
                      if below_since f = zero_time then (f\<lparr>below_since := t\<rparr>, w1)
                      else if time_sub t (below_since f) \<ge> recovery_window cfg
                        then ((set_mode_locked ModeNormal f)\<lparr>below_since := zero_time\<rparr>, w1)
                      else (f, w1))
                 else (f\<lparr>below_since := zero_time\<rparr>, w))
            | ModeCritical \<Rightarrow>
                (if p95 < elevated_latency_threshold cfg then (set_mode_locked ModeElevated f, w) else (f, w))))"

definition maybe_recover :: "flusher \<Rightarrow> flusher" where
  "maybe_recover f = (if fl_mode f = ModeCritical then set_mode_locked ModeElevated f else f)"

definition enter_critical :: "('w \<Rightarrow> time \<times> 'w) \<Rightarrow> flusher \<times> 'w \<Rightarrow> flusher \<times> 'w" where
  "enter_critical now fw =
     (case fw of (f, w) \<Rightarrow>
        let f1 = set_mode_locked ModeCritical f
        in (case now w of (t, w1) \<Rightarrow>
              (f1\<lparr>critical_until := t + recovery_window (fl_cfg f1)\<rparr>, w1)))"

definition batch_size_for_mode :: "flusher \<Rightarrow> int" where
  "batch_size_for_mode f =
     (if fl_mode f = ModeNormal then batch_size (fl_cfg f) else elevated_batch_size (fl_cfg f))"

definition flush_interval_for_mode :: "flusher \<Rightarrow> duration" where
  "flush_interval_for_mode f =
     (if fl_mode f = ModeNormal then flush_interval (fl_cfg f) else elevated_flush_interval (fl_cfg f))"

definition is_poison_error :: "go_error option \<Rightarrow> bool" where
  "is_poison_error err =
     (case err of
        None \<Rightarrow> False
      | Some e \<Rightarrow> (case as_pg_error e of
            None \<Rightarrow> False
          | Some code \<Rightarrow> has_prefix code ''22'' \<or> has_prefix code ''23''))"

subsection \<open>pullBatch\<close>

definition pull_batch :: "'w deps \<Rightarrow> flusher \<times> 'w \<Rightarrow> message list \<times> 'w" where
  "pull_batch D fw =
     (case fw of (f, w) \<Rightarrow>
        let n = batch_size_for_mode f
        in (case fd_dequeue D n w of (out, w1) \<Rightarrow>
              (case fd_wal D of
                 None \<Rightarrow> (out, w1)
               | Some wal \<Rightarrow>
                   (if int (length out) < n
                    then (case src_drain wal (n - int (length out)) w1 of
                        (Inl e, w2) \<Rightarrow> (out, w2)
                      | (Inr ms, w2) \<Rightarrow> (out @ ms, w2))
                    else (out, w1)))))"

subsection \<open>flushWithRetry\<close>

datatype loop_result = LoopFlushed | LoopCancelled | LoopExhausted "go_error option"
datatype flush_outcome = Flushed | Cancelled | Requeued | DeadLettered | Panicked

definition attempt ::
  "'w deps \<Rightarrow> message list \<Rightarrow> flusher \<times> 'w \<Rightarrow> go_error option \<times> flusher \<times> 'w" where
  \<comment> \<open>one pass through the loop body after the wait\<close>
  "attempt D batch fw =
     (case fw of (f, w) \<Rightarrow>
        (case fd_now D w of (start, w1) \<Rightarrow>
           (case fd_copy D batch w1 of (r, w2) \<Rightarrow>
              (case fd_now D w2 of (stop, w3) \<Rightarrow>
                 let latency = time_sub stop start;
                     f1 = f\<lparr>fl_m := (fl_m f)\<lparr>fm_flush_latency := fm_flush_latency (fl_m f) @ [latency]\<rparr>\<rparr>
                 in (case r of
                       Inr inserted \<Rightarrow>
                         let f2 = f1\<lparr>fl_m := (fl_m f1)\<lparr>fm_flushed := fm_flushed (fl_m f1) + 1,
                               fm_inserted := fm_inserted (fl_m f1) + inserted\<rparr>\<rparr>
                         in (None, record_latency (fd_now D) latency (maybe_recover f2, w3))
                     | Inl e \<Rightarrow>
                         let f2 = f1\<lparr>fl_m := (fl_m f1)\<lparr>fm_flush_errors := fm_flush_errors (fl_m f1) + 1\<rparr>\<rparr>
                         in (Some e, enter_critical (fd_now D) (f2, w3)))))))"

fun attempt_loop ::
  "'w deps \<Rightarrow> message list \<Rightarrow> nat \<Rightarrow> nat \<Rightarrow> duration \<Rightarrow> go_error option \<Rightarrow> flusher \<times> 'w
   \<Rightarrow> loop_result \<times> flusher \<times> 'w" where
  \<comment> \<open>attempt number \<open>a\<close>, \<open>k\<close> attempts left\<close>
  "attempt_loop D batch a 0 delay last_err fw = (LoopExhausted last_err, fw)"
| "attempt_loop D batch a (Suc k) delay last_err fw =
     (case fw of (f, w) \<Rightarrow>
        (if a = 0 then
           (case attempt D batch (f, w) of
              (None, fw1) \<Rightarrow> (LoopFlushed, fw1)
            | (Some e, fw1) \<Rightarrow> attempt_loop D batch (Suc a) k delay (Some e) fw1)
         else
           let f0 = f\<lparr>fl_m := (fl_m f)\<lparr>fm_retries_total := fm_retries_total (fl_m f) + int (length batch)\<rparr>\<rparr>
           in (case fd_wait D delay w of
                 (True, w1) \<Rightarrow> (LoopCancelled, f0, w1)
               | (False, w1) \<Rightarrow>
                   (case attempt D batch (f0, w1) of
                      (None, fw1) \<Rightarrow> (LoopFlushed, fw1)
                    | (Some e, fw1) \<Rightarrow> attempt_loop D batch (Suc a) k (i64 (delay * 2)) (Some e) fw1))))"

fun requeue_loop ::
  "'w wal_source \<Rightarrow> message list \<Rightarrow> flusher \<times> 'w \<Rightarrow> go_error option \<times> flusher \<times> 'w" where
  "requeue_loop wal [] fw = (None, fw)"
| "requeue_loop wal (m # ms) fw =
     (case fw of (f, w) \<Rightarrow>
        (case src_append wal m w of
           (Inl e, w1) \<Rightarrow> (Some e, f, w1)
         | (Inr k, w1) \<Rightarrow>
             requeue_loop wal ms (f\<lparr>fl_m := (fl_m f)\<lparr>fm_requeued := fm_requeued (fl_m f) + 1\<rparr>\<rparr>, w1)))"

fun dead_loop :: "'w deps \<Rightarrow> go_error option \<Rightarrow> message list \<Rightarrow> flusher \<times> 'w \<Rightarrow> flusher \<times> 'w" where
  "dead_loop D last_err [] fw = fw"
| "dead_loop D last_err (m # ms) fw =
     (case fw of (f, w) \<Rightarrow>
        (case fd_write D m last_err w of
           (Some e, w1) \<Rightarrow> dead_loop D last_err ms (f, w1)
         | (None, w1) \<Rightarrow>
             dead_loop D last_err ms (f\<lparr>fl_m := (fl_m f)\<lparr>fm_dead_lettered := fm_dead_lettered (fl_m f) + 1\<rparr>\<rparr>, w1)))"

definition flush_with_retry ::
  "'w deps \<Rightarrow> message list \<Rightarrow> flusher \<times> 'w \<Rightarrow> flush_outcome \<times> flusher \<times> 'w" where
  \<comment> \<open>with a negative retry count the loop body never runs and the nil error is dereferenced\<close>
  "flush_with_retry D batch fw =
     (case attempt_loop D batch 0 (nat (max_retries (fl_cfg (fst fw)) + 1)) second None fw of
        (LoopFlushed, fw1) \<Rightarrow> (Flushed, fw1)
      | (LoopCancelled, fw1) \<Rightarrow> (Cancelled, fw1)
      | (LoopExhausted None, fw1) \<Rightarrow> (Panicked, fw1)
      | (LoopExhausted (Some e), fw1) \<Rightarrow>
          (case (if is_poison_error (Some e) then None else fd_wal D) of
             Some wal \<Rightarrow>
               (case requeue_loop wal batch fw1 of
                  (None, fw2) \<Rightarrow> (Requeued, fw2)
                | (Some e', fw2) \<Rightarrow> (DeadLettered, dead_loop D (Some e) batch fw2))
           | None \<Rightarrow> (DeadLettered, dead_loop D (Some e) batch fw1)))"

subsection \<open>The worker loop and Run\<close>

datatype tick = Gated | Idle | Ran flush_outcome

definition worker_tick :: "'w deps \<Rightarrow> flusher \<times> 'w \<Rightarrow> tick \<times> flusher \<times> 'w" where
  \<comment> \<open>one round of workerLoop after the timer fired\<close>
  "worker_tick D fw =
     (case fw of (f, w) \<Rightarrow>
        let go = (\<lambda>w. (case pull_batch D (f, w) of (batch, w1) \<Rightarrow>
               if batch = [] then (Idle, f, w1)
               else (case flush_with_retry D batch (f, w1) of (r, fw1) \<Rightarrow> (Ran r, fw1))))
        in (if fl_mode f = ModeCritical then
              (case fd_now D w of (t, w0) \<Rightarrow>
                 if t < critical_until f then (Gated, f, w0) else go w0)
            else go w))"

fun worker_loop :: "nat \<Rightarrow> 'w deps \<Rightarrow> flusher \<times> 'w \<Rightarrow> tick list \<times> bool \<times> flusher \<times> 'w" where
  \<comment> \<open>at most \<open>n\<close> rounds; the flag says that the loop returned because the context was cancelled\<close>
  "worker_loop 0 D fw = ([], False, fw)"
| "worker_loop (Suc n) D fw =
     (case fw of (f, w) \<Rightarrow>
        (case fd_wait D (flush_interval_for_mode f) w of
           (True, w1) \<Rightarrow> ([], True, f, w1)
         | (False, w1) \<Rightarrow>
             (case worker_tick D (f, w1) of (t, fw1) \<Rightarrow>
                (case worker_loop n D fw1 of (ts, stopped, fw2) \<Rightarrow> (t # ts, stopped, fw2)))))"

definition run_start :: "flusher \<Rightarrow> nat \<times> flusher" where
  \<comment> \<open>how many workers Run starts, and the gauges it sets first\<close>
  "run_start f =
     (if workers (fl_cfg f) \<le> 0 then 1 else nat (workers (fl_cfg f)),
      f\<lparr>fl_m := (fl_m f)\<lparr>fm_mode := mode_int ModeNormal, fm_batch_size := batch_size (fl_cfg f)\<rparr>\<rparr>)"


subsection \<open>insertionSort sorts\<close>

lemma sift_frame:
  "i < length d \<Longrightarrow> length (sift i d) = length d \<and> mset (sift i d) = mset d
    \<and> (\<forall>j. i < j \<and> j < length d \<longrightarrow> sift i d ! j = d ! j)"
proof (induction i d rule: sift.induct)
  case (2 j d)
  let ?d = "d[j := d ! Suc j, Suc j := d ! j]"
  show ?case
  proof (cases "d ! j > d ! Suc j")
    case True
    have "mset ?d = mset d" using 2(2) mset_swap [of "Suc j" d j] by simp
    with 2(1) [OF True] 2(2) True show ?thesis by auto
  qed simp
qed simp

lemma sift_take_mset:
  assumes "i < length d" shows "mset (take (Suc i) (sift i d)) = mset (take (Suc i) d)"
proof -
  have fr: "length (sift i d) = length d" "mset (sift i d) = mset d"
    "\<And>j. i < j \<Longrightarrow> j < length d \<Longrightarrow> sift i d ! j = d ! j"
    using sift_frame [OF assms] by auto
  have "drop (Suc i) (sift i d) = drop (Suc i) d"
    by (rule nth_equalityI) (use fr in auto)
  then show ?thesis using fr(2)
    by (metis append_take_drop_id mset_append add_right_cancel)
qed

lemma sift_sorted:
  "i < length d \<Longrightarrow> sorted (take i d) \<Longrightarrow> sorted (take (Suc i) (sift i d))"
proof (induction i d rule: sift.induct)
  case (1 d)
  then show ?case by (cases d) auto
next
  case (2 j d)
  let ?d = "d[j := d ! Suc j, Suc j := d ! j]"
  have take_Suc: "take (Suc j) d = take j d @ [d ! j]" using 2(2) by (simp add: take_Suc_conv_app_nth)
  show ?case
  proof (cases "d ! j > d ! Suc j")
    case True
    have td: "take j ?d = take j d" by simp
    have so: "sorted (take j d)" "\<forall>x \<in> set (take j d). x \<le> d ! j"
      using 2(3) unfolding take_Suc by (simp_all add: sorted_append)
    have IH: "sorted (take (Suc j) (sift j ?d))" using 2(1) [OF True] 2(2) so td by simp
    have len: "Suc j < length (sift j ?d)" using sift_frame [of j ?d] 2(2) by simp
    have last: "sift j ?d ! Suc j = d ! j" using sift_frame [of j ?d] 2(2) by simp
    have "take (Suc j) ?d = take j d @ [d ! Suc j]" using 2(2) by (simp add: take_Suc_conv_app_nth)
    then have "set (take (Suc j) (sift j ?d)) = insert (d ! Suc j) (set (take j d))"
      using sift_take_mset [of j ?d] 2(2) by (metis Suc_lessD length_list_update list.set(1,2) set_append
        set_mset_mset Un_insert_right sup_bot_right)
    then have "\<forall>x \<in> set (take (Suc j) (sift j ?d)). x \<le> d ! j" using so(2) True by auto
    then have "sorted (take (Suc j) (sift j ?d) @ [d ! j])" using IH by (simp add: sorted_append)
    moreover have "take (Suc (Suc j)) (sift j ?d) = take (Suc j) (sift j ?d) @ [d ! j]"
      using take_Suc_conv_app_nth [OF len] last by simp
    ultimately show ?thesis using True by simp
  next
    case False
    have "take (Suc (Suc j)) d = take (Suc j) d @ [d ! Suc j]" using 2(2) by (simp add: take_Suc_conv_app_nth)
    moreover have "\<forall>x \<in> set (take (Suc j) d). x \<le> d ! Suc j"
      using 2(3) False unfolding take_Suc by (fastforce simp: sorted_append)
    ultimately have "sorted (take (Suc (Suc j)) d)" using 2(3) by (simp add: sorted_append)
    then show ?thesis using False by simp
  qed
qed

lemma sort_loop_sorted:
  "1 \<le> i \<Longrightarrow> i + k \<le> length d \<Longrightarrow> sorted (take i d) \<Longrightarrow>
    sorted (take (i + k) (sort_loop i k d)) \<and> mset (sort_loop i k d) = mset d"
proof (induction i k d rule: sort_loop.induct)
  case (2 i k d)
  have "i < length d" using 2(3) by simp
  with sift_sorted [OF this 2(4)] sift_frame [OF this] 2(1) [of] 2(2,3) show ?case by simp
qed simp

lemma insertion_sort_sort: "insertion_sort d = sort d"
proof (cases d)
  case (Cons x xs)
  have "sorted (take 1 d)" using Cons by simp
  from sort_loop_sorted [OF _ _ this, of "length d - 1"] Cons
  have "sorted (take (length d) (insertion_sort d))" and m: "mset (insertion_sort d) = mset d"
    by (simp_all add: insertion_sort_def)
  moreover have "length (insertion_sort d) = length d" using m by (rule mset_eq_length)
  ultimately have "sorted (insertion_sort d)" by simp
  with m show ?thesis by (metis properties_for_sort)
qed (simp add: insertion_sort_def)


text \<open>\<open>int(0.95 * float64(n))\<close> is the exact 19 n / 20, rounded down, for every size of the window.\<close>

lemma p95_round_multiple:
  "round53 (20 * 8556839292003942) = 19 * 2 ^ 53" "round53 (40 * 8556839292003942) = 38 * 2 ^ 53"
  "round53 (60 * 8556839292003942) = 57 * 2 ^ 53"
  by (simp_all add: round53_def round_half_even_def bit_len.simps Let_def)

lemma p95_sandwich:
  fixes n q r :: nat
  assumes "19 * n = 20 * q + r" "r < 20" "n \<le> 64"
  shows "n * 8556839292003942 \<le> (128 * q + 127) * 70368744177664"
    and "r \<noteq> 0 \<Longrightarrow> q * 9007199254740992 \<le> n * 8556839292003942"
proof -
  have "n * 8556839292003942 \<le> q * 9007199254740992 + 8936830510563328" using assms by linarith
  then show "n * 8556839292003942 \<le> (128 * q + 127) * 70368744177664" by (simp add: distrib_right)
  show "q * 9007199254740992 \<le> n * 8556839292003942" if "r \<noteq> 0"
  proof -
    have "1 \<le> r" using that by simp
    then show ?thesis using assms by linarith
  qed
qed

lemma p95_index:
  assumes "1 \<le> n" "n \<le> 64"
  shows "f64_scale 0 (int n) f64_lit_095 = int (19 * n div 20)"
proof -
  define q r where "q = 19 * n div 20" and "r = 19 * n mod 20"
  have qr: "19 * n = 20 * q + r" "r < 20" unfolding q_def r_def by simp_all
  then have q64: "q \<le> 61" using assms by linarith
  let ?N = "n * 8556839292003942 :: nat"
  have n53: "round53 n = n" using assms by (intro round53_small) simp
  have "f64_scale 0 (int n) f64_lit_095 = int (round53 ?N div 2 ^ 53)"
    unfolding f64_lit_095_def by (subst f64_scale_nat) (use n53 assms in simp_all)
  moreover have "round53 ?N div 2 ^ 53 = q"
  proof (rule div_nat_eqI)
    have "?N \<le> (128 * q + 127) * 2 ^ 46" using p95_sandwich(1) [OF qr assms(2)] by simp
    then have "round53 ?N \<le> round53 ((128 * q + 127) * 2 ^ 46)" by (rule round53_mono)
    also have "\<dots> = (128 * q + 127) * 2 ^ 46" using q64 by (intro round53_idem_mult) simp
    also have "\<dots> < 2 ^ 53 * Suc q" by simp
    finally show "round53 ?N < 2 ^ 53 * Suc q" .
    show "2 ^ 53 * q \<le> round53 ?N"
    proof (cases "r = 0")
      case True
      with qr have "20 dvd n * 19" by (metis add.right_neutral dvd_triv_left mult.commute)
      then have "20 dvd n" by presburger
      then obtain m where "n = 20 * m" by (rule dvdE)
      with assms have m: "n = 20 \<or> n = 40 \<or> n = 60" by auto
      with True qr have "n = 20 \<and> q = 19 \<or> n = 40 \<and> q = 38 \<or> n = 60 \<and> q = 57" by auto
      then show ?thesis using p95_round_multiple by (elim disjE conjE) simp_all
    next
      case False
      have "q * 2 ^ 53 = round53 (q * 2 ^ 53)"
        using q64 by (intro round53_idem_mult [symmetric]) simp
      also have "\<dots> \<le> round53 ?N"
        using p95_sandwich(2) [OF qr assms(2) False] by (intro round53_mono) simp
      finally show ?thesis by simp
    qed
  qed
  ultimately show ?thesis by (simp add: q_def)
qed

lemma p95_locked_eq:
  assumes "latency_window f \<noteq> []" "length (latency_window f) \<le> 64"
  shows "p95_locked f = sort (latency_window f) ! (19 * length (latency_window f) div 20)"
proof -
  let ?n = "length (latency_window f)"
  have n: "1 \<le> ?n" using assms(1) by (cases "latency_window f") auto
  then have "19 * ?n div 20 < ?n" by simp
  then show ?thesis
    using assms n by (simp add: p95_locked_def Let_def p95_index insertion_sort_sort)
qed

end
