(* ===== verification/FlusherLaws.thy ===== *)
theory FlusherLaws
  imports Flusher
begin

text \<open>
  What the flush loop guarantees on its own: the percentile, the adaptive state machine and its gauges,
  the schedule of attempts and waits, and which outcome a batch can have. What it guarantees together
  with its database, log and sink is in Delivery.
\<close>

subsection \<open>The percentile\<close>

definition demo_flusher :: flusher where
  "demo_flusher = \<lparr>fl_cfg = c_flusher new_default, fl_mode = ModeNormal, below_since = zero_time,
     critical_until = zero_time, latency_window = [], window_capacity = 64,
     fl_m = \<lparr>fm_batch_size = 1000, fm_mode = 0, fm_flush_latency = [], fm_flushed = 0, fm_inserted = 0,
       fm_flush_errors = 0, fm_retries_total = 0, fm_dead_lettered = 0, fm_requeued = 0\<rparr>\<rparr>"

lemma length_filter_above:
  assumes "sorted xs" "i < length xs"
  shows "length (filter (\<lambda>x. xs ! i < x) xs) \<le> length xs - Suc i"
proof -
  have "filter (\<lambda>x. xs ! i < x) (take (Suc i) xs) = []"
    using sorted_nth_mono [OF assms(1)] assms(2)
    by (auto simp: filter_empty_conv in_set_conv_nth not_less less_Suc_eq_le)
  then have "filter (\<lambda>x. xs ! i < x) xs = filter (\<lambda>x. xs ! i < x) (drop (Suc i) xs)"
    by (metis append_Nil append_take_drop_id filter_append)
  then show ?thesis by (metis length_drop length_filter_le)
qed

text \<open>C22: the percentile is the percentile. On a window of 1 to 64 latencies p95Locked is the element of rank
  19 n / 20 of the sorted window (the float product 0.95 n rounds to it for every such n), so it is one of
  the latencies and at most a twentieth of them lie above it.\<close>
theorem p95_percentile:
  assumes "latency_window f \<noteq> []" "length (latency_window f) \<le> 64"
  shows "p95_locked f = sort (latency_window f) ! (19 * length (latency_window f) div 20)
    \<and> p95_locked f \<in> set (latency_window f)
    \<and> 20 * length (filter (\<lambda>x. p95_locked f < x) (latency_window f)) \<le> length (latency_window f)"
proof -
  let ?w = "latency_window f" and ?s = "sort (latency_window f)"
  let ?i = "19 * length ?w div 20"
  have p: "p95_locked f = ?s ! ?i" by (rule p95_locked_eq [OF assms])
  have i: "?i < length ?s" using assms(1) by (cases ?w) auto
  have "length (filter (\<lambda>x. ?s ! ?i < x) ?w) = length (filter (\<lambda>x. ?s ! ?i < x) ?s)"
    by (metis mset_filter mset_sort size_mset)
  also have "\<dots> \<le> length ?s - Suc ?i" by (rule length_filter_above [OF _ i]) simp
  finally have "20 * length (filter (\<lambda>x. ?s ! ?i < x) ?w) \<le> length ?w" by simp
  moreover have "?s ! ?i \<in> set ?w" using nth_mem [OF i] by simp
  ultimately show ?thesis unfolding p by simp
qed

lemma p95_percentile_witness:
  "p95_locked (demo_flusher\<lparr>latency_window := [9, 4, 7]\<rparr>) = 9"
proof -
  let ?f = "demo_flusher\<lparr>latency_window := [9, 4, 7]\<rparr>"
  have "p95_locked ?f = sort [9, 4, 7] ! (19 * length [9, 4, 7 :: int] div 20)"
    using p95_percentile [of ?f] by simp
  then show ?thesis by simp
qed

subsection \<open>The adaptive state machine\<close>

text \<open>
  The adaptive state moves at two points: after a flush that succeeded (recover, then record its
  latency) and after one that failed (enter critical mode).
\<close>

inductive adaptive_step :: "('w \<Rightarrow> time \<times> 'w) \<Rightarrow> flusher \<times> 'w \<Rightarrow> flusher \<times> 'w \<Rightarrow> bool"
  for now where
  flushed: "adaptive_step now (f, w) (record_latency now d (maybe_recover f, w'))"
| failed: "adaptive_step now (f, w) (enter_critical now (f, w'))"
| counted: "fl_mode f' = fl_mode f \<Longrightarrow> fl_cfg f' = fl_cfg f \<Longrightarrow> latency_window f' = latency_window f
    \<Longrightarrow> window_capacity f' = window_capacity f \<Longrightarrow> fm_mode (fl_m f') = fm_mode (fl_m f)
    \<Longrightarrow> fm_batch_size (fl_m f') = fm_batch_size (fl_m f) \<Longrightarrow> adaptive_step now (f, w) (f', w')"

inductive_cases adaptive_stepE: "adaptive_step now fw fw'"

definition flusher_inv :: "flusher \<Rightarrow> bool" where
  "flusher_inv f \<longleftrightarrow>
     fm_mode (fl_m f) = mode_int (fl_mode f) \<and> fm_batch_size (fl_m f) = batch_size_for_mode f
     \<and> length (latency_window f) \<le> window_capacity f"

lemma set_mode_inv: "flusher_inv f \<Longrightarrow> flusher_inv (set_mode_locked m f)"
  by (cases m) (auto simp: flusher_inv_def set_mode_locked_def batch_size_for_mode_def)

lemma set_mode_fields [simp]:
  "fl_mode (set_mode_locked m f) = m" "fl_cfg (set_mode_locked m f) = fl_cfg f"
  "latency_window (set_mode_locked m f) = latency_window f"
  "window_capacity (set_mode_locked m f) = window_capacity f"
  "critical_until (set_mode_locked m f) = critical_until f"
  "below_since (set_mode_locked m f) = below_since f"
  by (auto simp: set_mode_locked_def)

lemma push_latency_inv: "flusher_inv f \<Longrightarrow> flusher_inv (push_latency d f)"
  by (auto simp: flusher_inv_def push_latency_def Let_def batch_size_for_mode_def)

lemma flusher_inv_marks [simp]:
  "flusher_inv (f\<lparr>below_since := t\<rparr>) = flusher_inv f" "flusher_inv (f\<lparr>critical_until := t\<rparr>) = flusher_inv f"
  by (simp_all add: flusher_inv_def batch_size_for_mode_def)

lemma record_latency_inv: "flusher_inv f \<Longrightarrow> flusher_inv (fst (record_latency now d (f, w)))"
  using push_latency_inv [of f d] set_mode_inv
  by (auto simp: record_latency_def Let_def split: mode.splits prod.splits)

lemma maybe_recover_inv: "flusher_inv f \<Longrightarrow> flusher_inv (maybe_recover f)"
  by (simp add: maybe_recover_def set_mode_inv)

lemma enter_critical_inv: "flusher_inv f \<Longrightarrow> flusher_inv (fst (enter_critical now (f, w)))"
  by (simp add: enter_critical_def Let_def set_mode_inv split: prod.splits)

lemma adaptive_step_inv: "adaptive_step now fw fw' \<Longrightarrow> flusher_inv (fst fw) \<Longrightarrow> flusher_inv (fst fw')"
proof (induction rule: adaptive_step.induct)
  case (flushed f w d w')
  then show ?case by (simp add: record_latency_inv maybe_recover_inv)
next
  case (failed f w w')
  then show ?case by (simp add: enter_critical_inv)
next
  case (counted f' f w w')
  then show ?case by (simp add: flusher_inv_def batch_size_for_mode_def)
qed

lemma attempt_steps:
  "\<exists>fw1. adaptive_step (fd_now D) (f, w) fw1 \<and> adaptive_step (fd_now D) fw1 (snd (attempt D batch (f, w)))"
proof -
  obtain t1 w1 where 1: "fd_now D w = (t1, w1)" by (metis surj_pair)
  obtain r w2 where 2: "fd_copy D batch w1 = (r, w2)" by (metis surj_pair)
  obtain t2 w3 where 3: "fd_now D w2 = (t2, w3)" by (metis surj_pair)
  show ?thesis
  proof (cases r)
    case (Inl e)
    let ?f = "f\<lparr>fl_m := (fl_m f)\<lparr>fm_flush_latency := fm_flush_latency (fl_m f) @ [time_sub t2 t1],
      fm_flush_errors := fm_flush_errors (fl_m f) + 1\<rparr>\<rparr>"
    have "adaptive_step (fd_now D) (f, w) (?f, w3)" by (rule adaptive_step.counted) simp_all
    moreover have "adaptive_step (fd_now D) (?f, w3) (enter_critical (fd_now D) (?f, w3))"
      by (rule adaptive_step.failed)
    ultimately show ?thesis using 1 2 3 Inl by (auto simp: attempt_def Let_def)
  next
    case (Inr n)
    let ?f = "f\<lparr>fl_m := (fl_m f)\<lparr>fm_flush_latency := fm_flush_latency (fl_m f) @ [time_sub t2 t1],
      fm_flushed := fm_flushed (fl_m f) + 1, fm_inserted := fm_inserted (fl_m f) + n\<rparr>\<rparr>"
    have "adaptive_step (fd_now D) (f, w) (?f, w3)" by (rule adaptive_step.counted) simp_all
    moreover have "adaptive_step (fd_now D) (?f, w3)
        (record_latency (fd_now D) (time_sub t2 t1) (maybe_recover ?f, w3))"
      by (rule adaptive_step.flushed)
    ultimately show ?thesis using 1 2 3 Inr by (auto simp: attempt_def Let_def)
  qed
qed

abbreviation adaptive_steps :: "('w \<Rightarrow> time \<times> 'w) \<Rightarrow> flusher \<times> 'w \<Rightarrow> flusher \<times> 'w \<Rightarrow> bool" where
  "adaptive_steps now \<equiv> (adaptive_step now)\<^sup>*\<^sup>*"

lemma adaptive_steps_counted:
  "fl_mode f' = fl_mode f \<Longrightarrow> fl_cfg f' = fl_cfg f \<Longrightarrow> latency_window f' = latency_window f
    \<Longrightarrow> window_capacity f' = window_capacity f \<Longrightarrow> fm_mode (fl_m f') = fm_mode (fl_m f)
    \<Longrightarrow> fm_batch_size (fl_m f') = fm_batch_size (fl_m f) \<Longrightarrow> adaptive_steps now (f, w) (f', w')"
  by (rule r_into_rtranclp) (rule adaptive_step.counted)

lemma attempt_adaptive: "adaptive_steps (fd_now D) (f, w) (snd (attempt D batch (f, w)))"
  using attempt_steps [of D f w batch] by (meson converse_rtranclp_into_rtranclp r_into_rtranclp)

lemma attempt_loop_adaptive:
  "adaptive_steps (fd_now D) fw (snd (attempt_loop D batch a k delay le fw))"
proof (induction k arbitrary: a delay le fw)
  case (Suc k)
  obtain f w where fw: "fw = (f, w)" by (cases fw)
  have go: "adaptive_steps (fd_now D) (f1, w1)
      (snd (case attempt D batch (f1, w1) of (None, fw1) \<Rightarrow> (LoopFlushed, fw1)
         | (Some e, fw1) \<Rightarrow> attempt_loop D batch (Suc a) k d (Some e) fw1))" for f1 w1 d
    using attempt_adaptive [of D f1 w1 batch] Suc.IH
    by (auto split: prod.split option.split intro: rtranclp_trans)
  show ?case
  proof (cases "a = 0")
    case True
    show ?thesis using go [of f w delay, unfolded True] fw True by simp
  next
    case False
    let ?f0 = "f\<lparr>fl_m := (fl_m f)\<lparr>fm_retries_total := fm_retries_total (fl_m f) + int (length batch)\<rparr>\<rparr>"
    have start: "adaptive_steps (fd_now D) (f, w) (?f0, w1)" for w1
      by (rule adaptive_steps_counted) simp_all
    obtain c w1 where wait: "fd_wait D delay w = (c, w1)" by (metis surj_pair)
    show ?thesis
    proof (cases c)
      case True
      then show ?thesis using False fw wait start by (simp add: Let_def)
    next
      case nc: False
      have "adaptive_steps (fd_now D) (f, w)
        (snd (case attempt D batch (?f0, w1) of (None, fw1) \<Rightarrow> (LoopFlushed, fw1)
           | (Some e, fw1) \<Rightarrow> attempt_loop D batch (Suc a) k (i64 (delay * 2)) (Some e) fw1))"
        by (rule rtranclp_trans [OF start go])
      then show ?thesis using False nc fw wait by (simp add: Let_def)
    qed
  qed
qed simp

lemma requeue_loop_adaptive: "adaptive_steps now fw (snd (requeue_loop wal ms fw))"
proof (induction ms arbitrary: fw)
  case (Cons m ms)
  obtain f w where fw: "fw = (f, w)" by (cases fw)
  obtain r w1 where r: "src_append wal m w = (r, w1)" by (metis surj_pair)
  let ?f = "f\<lparr>fl_m := (fl_m f)\<lparr>fm_requeued := fm_requeued (fl_m f) + 1\<rparr>\<rparr>"
  have "adaptive_steps now (f, w) (f, w1)" "adaptive_steps now (f, w) (?f, w1)"
    by (rule adaptive_steps_counted; simp)+
  with Cons r fw show ?case
    by (cases r) (auto intro: rtranclp_trans)
qed simp

lemma dead_loop_adaptive: "adaptive_steps now fw (dead_loop D le ms fw)"
proof (induction ms arbitrary: fw)
  case (Cons m ms)
  obtain f w where fw: "fw = (f, w)" by (cases fw)
  obtain r w1 where r: "fd_write D m le w = (r, w1)" by (metis surj_pair)
  let ?f = "f\<lparr>fl_m := (fl_m f)\<lparr>fm_dead_lettered := fm_dead_lettered (fl_m f) + 1\<rparr>\<rparr>"
  have "adaptive_steps now (f, w) (f, w1)" "adaptive_steps now (f, w) (?f, w1)"
    by (rule adaptive_steps_counted; simp)+
  with Cons r fw show ?case
    by (cases r) (auto intro: rtranclp_trans)
qed simp

lemma flush_with_retry_adaptive: "adaptive_steps (fd_now D) fw (snd (flush_with_retry D batch fw))"
proof -
  obtain lr fw1 where l: "attempt_loop D batch 0 (nat (max_retries (fl_cfg (fst fw)) + 1)) second None fw = (lr, fw1)"
    by (metis surj_pair)
  have a: "adaptive_steps (fd_now D) fw fw1"
    using attempt_loop_adaptive [of D fw batch 0 "nat (max_retries (fl_cfg (fst fw)) + 1)" second None] l by simp
  have d: "adaptive_steps (fd_now D) fw (dead_loop D le batch fw1)" for le
    by (rule rtranclp_trans [OF a dead_loop_adaptive])
  have r: "adaptive_steps (fd_now D) fw fw2" if "requeue_loop wal batch fw1 = (e, fw2)" for wal e fw2
    using rtranclp_trans [OF a requeue_loop_adaptive [of "fd_now D" fw1 wal batch]] that by simp
  have rd: "adaptive_steps (fd_now D) fw (dead_loop D le batch fw2)"
    if "requeue_loop wal batch fw1 = (e, fw2)" for wal e fw2 le
    by (rule rtranclp_trans [OF r [OF that] dead_loop_adaptive])
  show ?thesis
    using a d r rd l by (auto simp: flush_with_retry_def split: loop_result.split option.split prod.split if_split)
qed

lemma worker_tick_adaptive: "adaptive_steps (fd_now D) fw (snd (worker_tick D fw))"
proof -
  obtain f w where fw: "fw = (f, w)" by (cases fw)
  have w: "adaptive_steps (fd_now D) (f, w) (f, w1)" for w1 by (rule adaptive_steps_counted) simp_all
  have "adaptive_steps (fd_now D) (f, w) (snd (flush_with_retry D batch (f, w1)))" for batch w1
    by (rule rtranclp_trans [OF w flush_with_retry_adaptive])
  then show ?thesis using w fw
    by (auto simp: worker_tick_def Let_def split: prod.split if_split)
      (metis snd_conv)+
qed

lemma worker_loop_adaptive: "adaptive_steps (fd_now D) fw (snd (snd (worker_loop n D fw)))"
proof (induction n arbitrary: fw)
  case (Suc n)
  obtain f w where fw: "fw = (f, w)" by (cases fw)
  have w: "adaptive_steps (fd_now D) (f, w) (f, w1)" for w1 by (rule adaptive_steps_counted) simp_all
  have "adaptive_steps (fd_now D) (f, w) (snd (snd (worker_loop n D (snd (worker_tick D (f, w1))))))" for w1
    by (rule rtranclp_trans [OF rtranclp_trans [OF w worker_tick_adaptive] Suc])
  then show ?case using w fw by (auto split: prod.split bool.split) (metis snd_conv)+
qed simp


lemma push_latency_frame [simp]:
  "fl_cfg (push_latency d f) = fl_cfg f" "window_capacity (push_latency d f) = window_capacity f"
  "critical_until (push_latency d f) = critical_until f"
  by (simp_all add: push_latency_def Let_def)

lemma record_latency_frame:
  "fl_cfg (fst (record_latency now d (f, w))) = fl_cfg f"
  "window_capacity (fst (record_latency now d (f, w))) = window_capacity f"
  "critical_until (fst (record_latency now d (f, w))) = critical_until f"
  by (cases "fl_mode (push_latency d f)"; simp add: record_latency_def Let_def split: prod.split)+

lemma maybe_recover_frame [simp]:
  "fl_cfg (maybe_recover f) = fl_cfg f" "window_capacity (maybe_recover f) = window_capacity f"
  "critical_until (maybe_recover f) = critical_until f"
  by (simp_all add: maybe_recover_def)

lemma adaptive_step_frame:
  "adaptive_step now fw fw' \<Longrightarrow> fl_cfg (fst fw') = fl_cfg (fst fw)
    \<and> window_capacity (fst fw') = window_capacity (fst fw)"
  by (induction rule: adaptive_step.induct)
    (simp_all add: record_latency_frame enter_critical_def Let_def split: prod.split)

lemma adaptive_steps_inv:
  "adaptive_steps now fw fw' \<Longrightarrow> flusher_inv (fst fw) \<Longrightarrow> flusher_inv (fst fw')
    \<and> fl_cfg (fst fw') = fl_cfg (fst fw) \<and> window_capacity (fst fw') = window_capacity (fst fw)"
  by (induction rule: rtranclp_induct) (auto dest: adaptive_step_inv adaptive_step_frame)

text \<open>C40: the gauges tell the mode. Whatever the database, the sources, the sink and the clock do, after any
  number of rounds of a worker that Run started on a new flusher, the mode gauge is the mode, the batch
  size gauge is the batch size the next pull will use, the latency window holds at most 64 values, and the
  configuration is the one the flusher was built with.\<close>
theorem worker_gauges:
  assumes "new_flusher cfg True True True (Some m) = Inr f0"
    and "worker_loop n D (snd (run_start f0), w) = (ticks, stopped, f, w')"
  shows "fm_mode (fl_m f) = mode_int (fl_mode f) \<and> fm_batch_size (fl_m f) = batch_size_for_mode f
    \<and> length (latency_window f) \<le> 64 \<and> fl_cfg f = cfg"
proof -
  let ?f1 = "snd (run_start f0)"
  have "flusher_inv ?f1" "fl_cfg ?f1 = cfg" "window_capacity ?f1 = 64"
    using assms(1) by (auto simp: new_flusher_def run_start_def flusher_inv_def batch_size_for_mode_def)
  moreover have "adaptive_steps (fd_now D) (?f1, w) (f, w')"
    using worker_loop_adaptive [of D "(?f1, w)" n] assms(2) by simp
  ultimately show ?thesis using adaptive_steps_inv [of "fd_now D" "(?f1, w)" "(f, w')"]
    by (auto simp: flusher_inv_def)
qed

definition idle_deps :: "unit deps" where
  "idle_deps = \<lparr>fd_copy = (\<lambda>ms w. (Inr (int (length ms)), w)), fd_dequeue = (\<lambda>n w. ([], w)), fd_wal = None,
     fd_write = (\<lambda>m e w. (None, w)), fd_now = (\<lambda>w. (0, w)), fd_wait = (\<lambda>d w. (False, w))\<rparr>"

lemma worker_gauges_witness:
  "case worker_loop 1 idle_deps (snd (run_start demo_flusher), ()) of
     (ticks, stopped, f, w) \<Rightarrow> fm_batch_size (fl_m f) = batch_size_for_mode f \<and> ticks = [Idle]"
proof -
  have new: "new_flusher (c_flusher new_default) True True True (Some (fl_m demo_flusher)) = Inr demo_flusher"
    by (simp add: new_flusher_def demo_flusher_def)
  obtain ticks stopped f w where run: "worker_loop 1 idle_deps (snd (run_start demo_flusher), ()) = (ticks, stopped, f, w)"
    by (metis prod_cases4)
  have "fst (worker_loop 1 idle_deps (snd (run_start demo_flusher), ())) = [Idle]"
    by (simp add: worker_tick_def idle_deps_def pull_batch_def Let_def demo_flusher_def run_start_def)
  with run worker_gauges [OF new run] show ?thesis by simp
qed

subsection \<open>Outcomes\<close>

lemma attempt_result:
  "fst (attempt D batch (f, w)) = (case fst (fd_copy D batch (snd (fd_now D w))) of Inl e \<Rightarrow> Some e | Inr n \<Rightarrow> None)"
  by (simp add: attempt_def Let_def split: prod.split sum.split)

definition attempt_then ::
  "'w deps \<Rightarrow> message list \<Rightarrow> nat \<Rightarrow> nat \<Rightarrow> duration \<Rightarrow> flusher \<times> 'w \<Rightarrow> loop_result \<times> flusher \<times> 'w" where
  \<comment> \<open>attempt number \<open>a\<close> and what follows it\<close>
  "attempt_then D batch a k delay fw =
     (case attempt D batch fw of
        (None, fw1) \<Rightarrow> (LoopFlushed, fw1)
      | (Some e, fw1) \<Rightarrow> attempt_loop D batch (Suc a) k delay (Some e) fw1)"

lemma attempt_loop_Suc:
  "attempt_loop D batch a (Suc k) delay le (f, w) =
     (if a = 0 then attempt_then D batch 0 k delay (f, w)
      else
        let f0 = f\<lparr>fl_m := (fl_m f)\<lparr>fm_retries_total := fm_retries_total (fl_m f) + int (length batch)\<rparr>\<rparr>
        in (case fd_wait D delay w of
              (True, w1) \<Rightarrow> (LoopCancelled, f0, w1)
            | (False, w1) \<Rightarrow> attempt_then D batch a k (i64 (delay * 2)) (f0, w1)))"
  by (cases "a = 0") (simp_all add: attempt_then_def Let_def split: prod.split bool.split)

lemma attempt_loop_last:
  assumes "attempt_loop D batch a k delay le fw = (LoopExhausted last_err, fw')"
  shows "(k = 0 \<and> last_err = le \<and> fw' = fw)
    \<or> (k \<noteq> 0 \<and> (\<exists>e w w'. last_err = Some e \<and> fd_copy D batch w = (Inl e, w')))"
  using assms
proof (induction k arbitrary: a delay le fw)
  case (Suc k)
  obtain f w where fw: "fw = (f, w)" by (cases fw)
  have go: "\<exists>e w w'. last_err = Some e \<and> fd_copy D batch w = (Inl e, w')"
    if ex: "attempt_then D batch b k d (f1, w1) = (LoopExhausted last_err, fw')"
    for f1 w1 d b
  proof -
    obtain e fw1 where at: "attempt D batch (f1, w1) = (Some e, fw1)"
      "attempt_loop D batch (Suc b) k d (Some e) fw1 = (LoopExhausted last_err, fw')"
      using ex by (auto simp: attempt_then_def split: prod.splits option.splits)
    have "\<exists>w w'. fd_copy D batch w = (Inl e, w')"
      using attempt_result [of D batch f1 w1] at(1) by (auto split: sum.splits intro: prod_eqI)
        (metis prod.collapse)
    with Suc.IH [OF at(2)] show ?thesis by auto
  qed
  show ?case
  proof (cases "a = 0")
    case True
    then have "attempt_then D batch 0 k delay (f, w) = (LoopExhausted last_err, fw')"
      using Suc.prems fw by (simp add: attempt_loop_Suc del: attempt_loop.simps)
    from go [OF this] show ?thesis by simp
  next
    case False
    obtain c w1 where "fd_wait D delay w = (c, w1)" by (metis surj_pair)
    with Suc.prems fw False have "\<exists>f0. attempt_then D batch a k (i64 (delay * 2)) (f0, w1)
        = (LoopExhausted last_err, fw')"
      by (cases c) (auto simp: attempt_loop_Suc Let_def simp del: attempt_loop.simps)
    then show ?thesis using go by blast
  qed
qed simp

lemma flush_cases:
  assumes "flush_with_retry D batch (f, w) = (out, fw')" "0 \<le> max_retries (fl_cfg f)"
  obtains (flushed) "out = Flushed" | (cancelled) "out = Cancelled"
  | (requeued) wal e w1 w2 fw1 where "out = Requeued" "fd_wal D = Some wal" "\<not> is_poison_error (Some e)"
      "fd_copy D batch w1 = (Inl e, w2)" "requeue_loop wal batch fw1 = (None, fw')"
  | (dead) e w1 w2 where "out = DeadLettered" "fd_copy D batch w1 = (Inl e, w2)"
      "is_poison_error (Some e) \<or> fd_wal D = None
        \<or> (\<exists>wal fw1 e' fw2. fd_wal D = Some wal \<and> requeue_loop wal batch fw1 = (Some e', fw2))"
proof -
  have k: "nat (max_retries (fl_cfg f) + 1) \<noteq> 0" using assms(2) by simp
  obtain lr fw1 where l: "attempt_loop D batch 0 (nat (max_retries (fl_cfg f) + 1)) second None (f, w) = (lr, fw1)"
    by (metis surj_pair)
  show ?thesis
  proof (cases lr)
    case LoopFlushed
    then show ?thesis using assms(1) l flushed by (simp add: flush_with_retry_def)
  next
    case LoopCancelled
    then show ?thesis using assms(1) l cancelled by (simp add: flush_with_retry_def)
  next
    case (LoopExhausted le)
    from attempt_loop_last [OF l [unfolded LoopExhausted]] k obtain e w1 w2 where
      e: "le = Some e" "fd_copy D batch w1 = (Inl e, w2)" by auto
    show ?thesis
    proof (cases "is_poison_error (Some e)")
      case True
      then show ?thesis using assms(1) l LoopExhausted e dead by (simp add: flush_with_retry_def)
    next
      case np: False
      show ?thesis
      proof (cases "fd_wal D")
        case None
        then show ?thesis using assms(1) l LoopExhausted e np dead by (simp add: flush_with_retry_def)
      next
        case (Some wal)
        obtain r fw2 where q: "requeue_loop wal batch fw1 = (r, fw2)" by (metis surj_pair)
        show ?thesis
        proof (cases r)
          case None
          then show ?thesis using assms(1) l LoopExhausted e np Some q requeued
            by (simp add: flush_with_retry_def)
        next
          case (Some e')
          then have "out = DeadLettered" using assms(1) l LoopExhausted e np \<open>fd_wal D = Some wal\<close> q
            by (simp add: flush_with_retry_def)
          then show ?thesis using dead [OF _ e(2)] \<open>fd_wal D = Some wal\<close> q \<open>r = Some e'\<close> by blast
        qed
      qed
    qed
  qed
qed


lemma requeue_loop_ok:
  "(\<And>m w. \<exists>k w'. src_append wal m w = (Inr k, w')) \<Longrightarrow> fst (requeue_loop wal ms fw) = None"
proof (induction ms arbitrary: fw)
  case (Cons m ms)
  obtain f w where fw: "fw = (f, w)" by (cases fw)
  obtain k w' where "src_append wal m w = (Inr k, w')" using Cons.prems by blast
  with Cons fw show ?case by simp
qed simp

lemma negative_retries_panic:
  "max_retries (fl_cfg (fst fw)) < 0 \<Longrightarrow> flush_with_retry D batch fw = (Panicked, fw)"
  by (simp add: flush_with_retry_def)

text \<open>C19: what becomes of a batch. flushWithRetry panics exactly under a negative retry count, which
  Validate rejects. A batch whose every failure is a per-row error (SQLSTATE class 22 or 23) is never sent
  back to the WAL; one whose failures are all transient is never dead-lettered while a WAL takes it, so a
  connection outage alone cannot move messages to the dead-letter bucket.\<close>
theorem flush_outcomes:
  assumes "flush_with_retry D batch (f, w) = (out, fw')"
  shows "(out = Panicked \<longleftrightarrow> max_retries (fl_cfg f) < 0)
    \<and> ((\<forall>w e w'. fd_copy D batch w = (Inl e, w') \<longrightarrow> is_poison_error (Some e)) \<longrightarrow> out \<noteq> Requeued)
    \<and> ((\<forall>w e w'. fd_copy D batch w = (Inl e, w') \<longrightarrow> \<not> is_poison_error (Some e))
         \<and> (\<exists>wal. fd_wal D = Some wal \<and> (\<forall>m w. \<exists>k w'. src_append wal m w = (Inr k, w')))
       \<longrightarrow> out \<noteq> DeadLettered)"
proof (cases "max_retries (fl_cfg f) < 0")
  case True
  with assms negative_retries_panic [of "(f, w)" D batch] show ?thesis by auto
next
  case False
  then have pos: "0 \<le> max_retries (fl_cfg f)" by simp
  have ok: "fst (requeue_loop wal batch fw1) = None"
    if "\<forall>m w. \<exists>k w'. src_append wal m w = (Inr k, w')" for wal fw1
    by (rule requeue_loop_ok) (use that in blast)
  from assms pos show ?thesis
  proof (cases rule: flush_cases)
    case (dead e w1 w2)
    have "\<not> (\<exists>wal. fd_wal D = Some wal \<and> (\<forall>m w. \<exists>k w'. src_append wal m w = (Inr k, w')))"
      if np: "\<not> is_poison_error (Some e)"
    proof
      assume "\<exists>wal. fd_wal D = Some wal \<and> (\<forall>m w. \<exists>k w'. src_append wal m w = (Inr k, w'))"
      then obtain wal where wal: "fd_wal D = Some wal" "\<forall>m w. \<exists>k w'. src_append wal m w = (Inr k, w')"
        by blast
      with dead(3) np obtain fw1 e' fw2 where "requeue_loop wal batch fw1 = (Some e', fw2)" by auto
      with ok [OF wal(2), of fw1] show False by simp
    qed
    with dead(1,2) False show ?thesis by blast
  qed (use False in auto)
qed

text \<open>
  A database for the witnesses: it is down for a number of attempts, which the world counts down.
\<close>

definition outage_deps :: "go_error \<Rightarrow> nat deps" where
  "outage_deps e =
     \<lparr>fd_copy = (\<lambda>ms n. if n = 0 then (Inr (int (length ms)), n) else (Inl e, n - 1)),
      fd_dequeue = (\<lambda>k n. ([], n)),
      fd_wal = Some \<lparr>src_drain = (\<lambda>k n. (Inr [], n)), src_append = (\<lambda>m n. (Inr ''k'', n))\<rparr>,
      fd_write = (\<lambda>m err n. (None, n)), fd_now = (\<lambda>n. (0, n)), fd_wait = (\<lambda>d n. (False, n))\<rparr>"


lemma flush_outcomes_witness:
  "fst (flush_with_retry (outage_deps (PgError ''08006'' ''connection failure'')) [zero_message]
      (demo_flusher, 9)) \<notin> {Panicked, DeadLettered}
   \<and> fst (flush_with_retry (outage_deps (PgError ''23502'' ''null value'')) [zero_message]
      (demo_flusher, 9)) \<notin> {Panicked, Requeued}"
proof -
  have pos: "\<not> max_retries (fl_cfg demo_flusher) < 0" by (simp add: demo_flusher_def new_default_def)
  have copies: "fd_copy (outage_deps e) b w = (Inl e', w') \<Longrightarrow> e' = e" for e b w e' w'
    by (auto simp: outage_deps_def split: if_splits)
  have wal: "\<exists>wal. fd_wal (outage_deps e) = Some wal \<and> (\<forall>m w. \<exists>k w'. src_append wal m w = (Inr k, w'))" for e
    by (auto simp: outage_deps_def)
  have kinds: "\<not> is_poison_error (Some (PgError ''08006'' x))" "is_poison_error (Some (PgError ''23502'' x))" for x
    by (simp_all add: is_poison_error_def has_prefix_def)
  obtain o1 fw1 where 1: "flush_with_retry (outage_deps (PgError ''08006'' ''connection failure''))
      [zero_message] (demo_flusher, 9) = (o1, fw1)" by (metis surj_pair)
  obtain o2 fw2 where 2: "flush_with_retry (outage_deps (PgError ''23502'' ''null value''))
      [zero_message] (demo_flusher, 9) = (o2, fw2)" by (metis surj_pair)
  show ?thesis
    using flush_outcomes [OF 1] flush_outcomes [OF 2] 1 2 pos copies wal kinds by (auto dest!: copies)
qed

subsection \<open>The schedule of attempts and waits\<close>

datatype io_event = EvCopy | EvWait duration

definition traced :: "'w deps \<Rightarrow> ('w \<times> io_event list) deps" where
  \<comment> \<open>the same dependencies, with a log of the CopyMessages calls and of the waits\<close>
  "traced D =
     \<lparr>fd_copy = (\<lambda>ms we. (case fd_copy D ms (fst we) of (r, w1) \<Rightarrow> (r, (w1, snd we @ [EvCopy])))),
      fd_dequeue = (\<lambda>n we. (case fd_dequeue D n (fst we) of (r, w1) \<Rightarrow> (r, (w1, snd we)))),
      fd_wal = map_option (\<lambda>wal.
        \<lparr>src_drain = (\<lambda>n we. (case src_drain wal n (fst we) of (r, w1) \<Rightarrow> (r, (w1, snd we)))),
         src_append = (\<lambda>m we. (case src_append wal m (fst we) of (r, w1) \<Rightarrow> (r, (w1, snd we))))\<rparr>) (fd_wal D),
      fd_write = (\<lambda>m e we. (case fd_write D m e (fst we) of (r, w1) \<Rightarrow> (r, (w1, snd we)))),
      fd_now = (\<lambda>we. (case fd_now D (fst we) of (r, w1) \<Rightarrow> (r, (w1, snd we)))),
      fd_wait = (\<lambda>d we. (case fd_wait D d (fst we) of (r, w1) \<Rightarrow> (r, (w1, snd we @ [EvWait d]))))\<rparr>"

definition backoff_from :: "nat \<Rightarrow> nat \<Rightarrow> io_event list" where
  \<comment> \<open>the retries numbered \<open>i\<close> up to \<open>r\<close>, exclusive: retry \<open>i\<close> waits \<open>2 ^ i\<close> seconds\<close>
  "backoff_from i r = concat (map (\<lambda>j. [EvWait (second * 2 ^ j), EvCopy]) [i..<r])"

lemma backoff_from_step: "i < r \<Longrightarrow> backoff_from i r = EvWait (second * 2 ^ i) # EvCopy # backoff_from (Suc i) r"
  by (simp add: backoff_from_def upt_conv_Cons del: upt_Suc)

lemma traced_now: "snd (snd (fd_now (traced D) we)) = snd we"
  by (simp add: traced_def split: prod.split)

lemma record_latency_trace: "snd (snd (record_latency (fd_now (traced D)) d (f, we))) = snd we"
  using traced_now [of D we]
  by (auto simp: record_latency_def Let_def split: mode.split prod.split)

lemma enter_critical_trace: "snd (snd (enter_critical (fd_now (traced D)) (f, we))) = snd we"
  using traced_now [of D we] by (auto simp: enter_critical_def Let_def split: prod.split)

lemma attempt_trace: "snd (snd (snd (attempt (traced D) batch (f, we)))) = snd we @ [EvCopy]"
proof -
  obtain t1 we1 where 1: "fd_now (traced D) we = (t1, we1)" by (metis surj_pair)
  obtain r we2 where 2: "fd_copy (traced D) batch we1 = (r, we2)" by (metis surj_pair)
  obtain t2 we3 where 3: "fd_now (traced D) we2 = (t2, we3)" by (metis surj_pair)
  have "snd we1 = snd we" "snd we3 = snd we2"
    using traced_now [of D we] traced_now [of D we2] 1 3 by simp_all
  moreover have "snd we2 = snd we1 @ [EvCopy]" using 2 by (auto simp: traced_def split: prod.splits)
  ultimately show ?thesis using 1 2 3
    by (cases r) (simp_all add: attempt_def Let_def record_latency_trace enter_critical_trace)
qed


lemma traced_wait: "snd (snd (fd_wait (traced D) d we)) = snd we @ [EvWait d]"
  by (simp add: traced_def split: prod.split)

lemma backoff_delay: "Suc i < 34 \<Longrightarrow> i64 (second * 2 ^ i * 2) = second * 2 ^ Suc i"
proof -
  assume "Suc i < 34"
  then have "(2::int) ^ Suc i \<le> 2 ^ 33" by (intro power_increasing) auto
  then have "second * 2 ^ Suc i < 2 ^ 63" by simp
  moreover have "0 \<le> second * (2::int) ^ Suc i" by simp
  ultimately have "in_i64 (second * 2 ^ Suc i)" unfolding in_i64_def by linarith
  then show ?thesis using i64_id [of "second * 2 ^ Suc i"] by (simp add: mult.assoc mult.commute)
qed

lemma prefix_step:
  "\<exists>n. es = take n xs \<Longrightarrow> \<exists>n. x # y # es = take n (x # y # xs)"
  by (metis take_Suc_Cons)

definition trace_end :: "loop_result \<Rightarrow> io_event list \<Rightarrow> io_event list \<Rightarrow> bool" where
  \<comment> \<open>how the log of a loop that returned this way ends; \<open>full\<close> is the log of all its attempts\<close>
  "trace_end lr es full \<longleftrightarrow>
     (case lr of LoopExhausted x \<Rightarrow> es = full
       | LoopFlushed \<Rightarrow> \<exists>es1. es = es1 @ [EvCopy] | LoopCancelled \<Rightarrow> \<exists>es1 d. es = es1 @ [EvWait d])"

lemma trace_end_Cons: "trace_end lr es full \<Longrightarrow> trace_end lr (x # es) (x # full)"
  by (cases lr) (auto simp: trace_end_def)

lemma attempt_loop_trace:
  assumes "a + k = Suc r" "1 \<le> a" "r \<le> 34" "k \<noteq> 0 \<Longrightarrow> delay = second * 2 ^ (a - 1)"
    and "attempt_loop (traced D) batch a k delay le (f, we) = (lr, f', we')"
  shows "\<exists>es. snd we' = snd we @ es \<and> (\<exists>n. es = take n (backoff_from (a - 1) r))
    \<and> trace_end lr es (backoff_from (a - 1) r)"
  using assms
proof (induction k arbitrary: a delay le f we)
  case 0
  then show ?case by (intro exI [of _ "[]"]) (auto simp: backoff_from_def trace_end_def)
next
  case (Suc k)
  let ?d = "second * 2 ^ (a - 1)"
  have step: "backoff_from (a - 1) r = EvWait ?d # EvCopy # backoff_from (Suc a - 1) r"
    using backoff_from_step [of "a - 1" r] Suc.prems(1,2) by simp
  obtain c we1 where w: "fd_wait (traced D) ?d we = (c, we1)" by (metis surj_pair)
  have we1: "snd we1 = snd we @ [EvWait ?d]" using traced_wait [of D ?d we] w by simp
  have a0: "a \<noteq> 0" and d: "delay = ?d" using Suc.prems(2,4) by auto
  define f0 where "f0 = f\<lparr>fl_m := (fl_m f)\<lparr>fm_retries_total := fm_retries_total (fl_m f) + int (length batch)\<rparr>\<rparr>"
  have run: "attempt_loop (traced D) batch a (Suc k) delay le (f, we)
      = (if c then (LoopCancelled, f0, we1) else attempt_then (traced D) batch a k (i64 (?d * 2)) (f0, we1))"
    using a0 w unfolding d attempt_loop_Suc f0_def by (cases c) (simp_all add: Let_def)
  show ?case
  proof (cases c)
    case True
    then have "lr = LoopCancelled" "snd we' = snd we @ [EvWait ?d]"
      using run Suc.prems(5) we1 by auto
    moreover have "\<exists>n. [EvWait ?d] = take n (backoff_from (a - 1) r)"
      unfolding step by (intro exI [of _ 1]) simp
    moreover have "\<exists>es1 d. [EvWait ?d] = es1 @ [EvWait d]" by (metis append_Nil)
    ultimately show ?thesis by (intro exI [of _ "[EvWait ?d]"]) (simp add: trace_end_def)
  next
    case nc: False
    obtain x f2 we2 where at: "attempt (traced D) batch (f0, we1) = (x, f2, we2)" by (metis prod_cases3)
    have we2: "snd we2 = snd we @ [EvWait ?d, EvCopy]" using attempt_trace [of D batch f0 we1] at we1 by simp
    show ?thesis
    proof (cases x)
      case None
      then have "lr = LoopFlushed" "snd we' = snd we @ [EvWait ?d, EvCopy]"
        using run Suc.prems(5) nc at we2 by (auto simp: attempt_then_def)
      moreover have "\<exists>n. [EvWait ?d, EvCopy] = take n (backoff_from (a - 1) r)"
        unfolding step by (intro exI [of _ 2]) simp
      moreover have "\<exists>es1. [EvWait ?d, EvCopy] = es1 @ [EvCopy]" by simp
      ultimately show ?thesis by (intro exI [of _ "[EvWait ?d, EvCopy]"]) (simp add: trace_end_def)
    next
      case (Some e)
      have go: "attempt_loop (traced D) batch (Suc a) k (i64 (?d * 2)) (Some e) (f2, we2) = (lr, f', we')"
        using run Suc.prems(5) nc at Some by (simp add: attempt_then_def)
      have "i64 (?d * 2) = second * 2 ^ (Suc a - 1)" if "k \<noteq> 0"
        using backoff_delay [of "a - 1"] Suc.prems(1,2,3) that by simp
      from Suc.IH [OF _ _ Suc.prems(3) this go] Suc.prems(1) obtain es where es:
        "snd we' = snd we2 @ es" "\<exists>n. es = take n (backoff_from (Suc a - 1) r)"
        "trace_end lr es (backoff_from (Suc a - 1) r)" by auto
      then show ?thesis
        using we2 prefix_step [of es "backoff_from (Suc a - 1) r" "EvWait ?d" EvCopy]
          trace_end_Cons [OF trace_end_Cons, of lr es "backoff_from (Suc a - 1) r" "EvWait ?d" EvCopy] unfolding step
        by (intro exI [of _ "EvWait ?d # EvCopy # es"]) simp
    qed
  qed
qed


lemma traced_wal: "fd_wal (traced D) = Some wal \<Longrightarrow> snd (snd (src_append wal m we)) = snd we"
  by (auto simp: traced_def split: prod.split)

lemma traced_write: "snd (snd (fd_write (traced D) m e we)) = snd we"
  by (simp add: traced_def split: prod.split)

lemma requeue_loop_trace:
  "(\<And>m we. snd (snd (src_append wal m we)) = snd we) \<Longrightarrow>
    snd (snd (snd (requeue_loop wal ms (f, we)))) = snd we"
proof (induction ms arbitrary: f we)
  case (Cons m ms)
  obtain r we1 where a: "src_append wal m we = (r, we1)" by (metis surj_pair)
  with Cons.prems [of m we] have "snd we1 = snd we" by simp
  with a Cons.IH [OF Cons.prems] show ?case by (cases r) simp_all
qed simp

lemma dead_loop_trace: "snd (snd (dead_loop (traced D) le ms (f, we))) = snd we"
proof (induction ms arbitrary: f we)
  case (Cons m ms)
  obtain r we1 where a: "fd_write (traced D) m le we = (r, we1)" by (metis surj_pair)
  with traced_write [of D m le we] have "snd we1 = snd we" by simp
  with a Cons.IH show ?case by (cases r) simp_all
qed simp

lemma flush_trace_end:
  assumes "attempt_loop D batch 0 (nat (max_retries (fl_cfg f) + 1)) second None (f, we) = (lr, fw1)"
    and "flush_with_retry D batch (f, we) = (out, fw')"
  shows "(lr = LoopFlushed \<longleftrightarrow> out = Flushed) \<and> (lr = LoopCancelled \<longleftrightarrow> out = Cancelled)
    \<and> (lr = LoopFlushed \<or> lr = LoopCancelled \<longrightarrow> fw' = fw1)"
  using assms by (auto simp: flush_with_retry_def split: loop_result.splits option.splits prod.splits if_splits)

lemma flush_trace_after:
  assumes "attempt_loop (traced D) batch 0 (nat (max_retries (fl_cfg f) + 1)) second None (f, we) = (lr, fw1)"
    and "flush_with_retry (traced D) batch (f, we) = (out, fw')"
  shows "snd (snd fw') = snd (snd fw1)"
proof -
  obtain f1 w1 es1 where fw1: "fw1 = (f1, w1, es1)" by (metis prod_cases3)
  have rq: "snd (snd fw2) = es1"
    if "fd_wal (traced D) = Some wal" "requeue_loop wal batch (f1, w1, es1) = (e, fw2)" for wal e fw2
    using requeue_loop_trace [OF traced_wal [OF that(1)], of batch f1 "(w1, es1)"] that(2) by simp
  have "snd (snd (dead_loop (traced D) le batch fw2)) = snd (snd fw2)" for le fw2
    using dead_loop_trace [of D le batch "fst fw2" "snd fw2"] by simp
  with rq assms fw1 show ?thesis
    by (auto simp: flush_with_retry_def split: loop_result.splits option.splits prod.splits if_splits)
qed


lemma backoff_last: "last (EvCopy # backoff_from i r) = EvCopy"
  by (induction r) (auto simp: backoff_from_def)

lemma flush_not_panicked:
  assumes "flush_with_retry D batch (f, w) = (out, fw')" "0 \<le> max_retries (fl_cfg f)"
  shows "out \<noteq> Panicked"
  using assms by (cases rule: flush_cases) auto

text \<open>C20: the schedule. With at most 34 retries flushWithRetry calls CopyMessages, then waits 1, 2, 4, ...
  seconds before each further call. It follows this schedule up to the call that succeeded or to the wait in
  which the context was done; it gives up (the batch goes to the WAL or to the sink) only after the
  whole of it, and when the whole of it is over it has given up or the last call was the one that succeeded.\<close>
theorem backoff_schedule:
  assumes "0 \<le> max_retries (fl_cfg f)" "max_retries (fl_cfg f) \<le> 34"
    and "flush_with_retry (traced D) batch (f, w, []) = (out, f', w', es)"
  shows "(\<exists>n. es = take n (EvCopy # backoff_from 0 (nat (max_retries (fl_cfg f)))))
    \<and> (out = Requeued \<or> out = DeadLettered \<longrightarrow> es = EvCopy # backoff_from 0 (nat (max_retries (fl_cfg f))))
    \<and> (es = EvCopy # backoff_from 0 (nat (max_retries (fl_cfg f))) \<longrightarrow> out = Requeued \<or> out = DeadLettered \<or> out = Flushed)
    \<and> (out = Flushed \<longrightarrow> last es = EvCopy) \<and> (out = Cancelled \<longrightarrow> (\<exists>d. last es = EvWait d))"
proof -
  define r where "r = nat (max_retries (fl_cfg f))"
  have k: "nat (max_retries (fl_cfg f) + 1) = Suc r" and r: "r \<le> 34" using assms(1,2) by (auto simp: r_def)
  let ?full = "EvCopy # backoff_from 0 r"
  obtain lr f1 we1 where l: "attempt_loop (traced D) batch 0 (Suc r) second None (f, w, []) = (lr, f1, we1)"
    by (metis prod_cases3)
  obtain x f2 we2 where at: "attempt (traced D) batch (f, w, []) = (x, f2, we2)" by (metis prod_cases3)
  have we2: "snd we2 = [EvCopy]" using attempt_trace [of D batch f "(w, [])"] at by simp
  have loop: "(\<exists>n. snd we1 = take n ?full) \<and> trace_end lr (snd we1) ?full"
  proof (cases x)
    case None
    then have "lr = LoopFlushed" "snd we1 = [EvCopy]"
      using l at we2 by (auto simp: attempt_loop_Suc attempt_then_def simp del: attempt_loop.simps)
    moreover have "\<exists>n. [EvCopy] = take n ?full" by (intro exI [of _ 1]) simp
    ultimately show ?thesis by (simp add: trace_end_def)
  next
    case (Some e)
    then have "attempt_loop (traced D) batch 1 r second (Some e) (f2, we2) = (lr, f1, we1)"
      using l at by (simp add: attempt_loop_Suc attempt_then_def del: attempt_loop.simps)
    from attempt_loop_trace [OF _ _ r _ this] obtain es1 n where "snd we1 = snd we2 @ es1"
      "es1 = take n (backoff_from 0 r)" "trace_end lr es1 (backoff_from 0 r)" by auto
    moreover from this(3) have "trace_end lr (EvCopy # es1) ?full" by (rule trace_end_Cons)
    ultimately show ?thesis using we2 by (auto intro: exI [of _ "Suc n"])
  qed
  have "es = snd we1"
    using flush_trace_after [of D batch f "(w, [])" lr "(f1, we1)" out "(f', w', es)"] l assms(3) k by simp
  moreover have "(lr = LoopFlushed \<longleftrightarrow> out = Flushed) \<and> (lr = LoopCancelled \<longleftrightarrow> out = Cancelled)"
    using flush_trace_end [of "traced D" batch f "(w, [])" lr "(f1, we1)" out] l assms(3) k by simp
  moreover have "trace_end lr (snd we1) ?full \<Longrightarrow> lr = LoopFlushed \<Longrightarrow> last (snd we1) = EvCopy"
    "trace_end lr (snd we1) ?full \<Longrightarrow> lr = LoopCancelled \<Longrightarrow> \<exists>d. last (snd we1) = EvWait d"
    "trace_end lr (snd we1) ?full \<Longrightarrow> lr \<noteq> LoopFlushed \<Longrightarrow> lr \<noteq> LoopCancelled \<Longrightarrow> snd we1 = ?full"
    by (cases lr; auto simp: trace_end_def)+
  ultimately have ends: "(\<exists>n. es = take n ?full) \<and> (out = Requeued \<or> out = DeadLettered \<longrightarrow> es = ?full)
      \<and> (out = Flushed \<longrightarrow> last es = EvCopy) \<and> (out = Cancelled \<longrightarrow> (\<exists>d. last es = EvWait d))"
    using loop by (elim conjE) blast
  have "out = Requeued \<or> out = DeadLettered \<or> out = Flushed" if "es = ?full"
    using ends that backoff_last [of 0 r] flush_not_panicked [OF assms(3,1)] by (cases out) auto
  with ends show ?thesis unfolding r_def by blast
qed


definition retry_flusher :: "int \<Rightarrow> flusher" where
  "retry_flusher r = demo_flusher\<lparr>fl_cfg := (fl_cfg demo_flusher)\<lparr>max_retries := r\<rparr>\<rparr>"

lemma backoff_schedule_witness:
  "\<exists>f' w' es. flush_with_retry (traced (outage_deps (PgError ''08006'' ''''))) [zero_message]
      (retry_flusher 2, 9, []) = (Requeued, f', w', es)
    \<and> es = [EvCopy, EvWait second, EvCopy, EvWait (2 * second), EvCopy]"
proof -
  let ?D = "traced (outage_deps (PgError ''08006'' ''''))"
  have r: "max_retries (fl_cfg (retry_flusher 2)) = 2" by (simp add: retry_flusher_def)
  obtain out f' w' es where run: "flush_with_retry ?D [zero_message] (retry_flusher 2, 9, []) = (out, f', w', es)"
    by (metis prod_cases4)
  have o: "fst (attempt_loop ?D b 0 3 second None (f, 9, [])) = LoopExhausted (Some (PgError ''08006'' ''''))" for b f
    by (simp add: eval_nat_numeral traced_def outage_deps_def attempt_def enter_critical_def Let_def)
  have "fst (flush_with_retry ?D [zero_message] (retry_flusher 2, 9, [])) = Requeued"
    using o [of "[zero_message]" "retry_flusher 2"]
    by (auto simp: flush_with_retry_def r traced_def outage_deps_def is_poison_error_def has_prefix_def
        split: loop_result.splits option.splits prod.splits)
  with run have out: "out = Requeued" by simp
  have "0 \<le> max_retries (fl_cfg (retry_flusher 2))" "max_retries (fl_cfg (retry_flusher 2)) \<le> 34"
    using r by auto
  from backoff_schedule [OF this run] run out r show ?thesis
    by (auto simp: backoff_from_def eval_nat_numeral)
qed


subsection \<open>The critical gate\<close>

definition gate :: "flusher \<Rightarrow> mode \<times> time \<times> flusher_config" where
  "gate f = (fl_mode f, critical_until f, fl_cfg f)"

lemma gate_counted [simp]: "gate (f\<lparr>fl_m := x\<rparr>) = gate f"
  by (simp add: gate_def)

lemma requeue_loop_gate: "gate (fst (snd (requeue_loop wal ms (f, w)))) = gate f"
proof (induction ms arbitrary: f w)
  case (Cons m ms)
  obtain r w1 where "src_append wal m w = (r, w1)" by (metis surj_pair)
  with Cons show ?case by (cases r) simp_all
qed simp

lemma dead_loop_gate: "gate (fst (dead_loop D le ms (f, w))) = gate f"
proof (induction ms arbitrary: f w)
  case (Cons m ms)
  obtain r w1 where "fd_write D m le w = (r, w1)" by (metis surj_pair)
  with Cons show ?case by (cases r) simp_all
qed simp

definition gated_from :: "'w deps \<Rightarrow> message list \<Rightarrow> go_error \<Rightarrow> flusher_config \<Rightarrow> flusher \<Rightarrow> 'w \<Rightarrow> bool" where
  \<comment> \<open>a copy of the batch failed with \<open>e\<close>, the clock was read twice after it and nothing else happened
     up to \<open>w\<close>: critical, until one recovery window after the second of these readings\<close>
  "gated_from D batch e cfg f w \<longleftrightarrow> (\<exists>u u1 t1 u2 t. fd_copy D batch u = (Inl e, u1) \<and> fd_now D u1 = (t1, u2)
     \<and> fd_now D u2 = (t, w) \<and> gate f = (ModeCritical, t + recovery_window cfg, cfg))"

lemma attempt_gate:
  assumes "attempt D batch (f, w) = (r, f', w')"
  shows "(case r of Some e \<Rightarrow> gated_from D batch e (fl_cfg f) f' w'
    | None \<Rightarrow> critical_until f' = critical_until f \<and> fl_cfg f' = fl_cfg f)"
proof -
  obtain t1 w1 where 1: "fd_now D w = (t1, w1)" by (metis surj_pair)
  obtain x w2 where 2: "fd_copy D batch w1 = (x, w2)" by (metis surj_pair)
  obtain t2 w3 where 3: "fd_now D w2 = (t2, w3)" by (metis surj_pair)
  show ?thesis
  proof (cases x)
    case (Inl e)
    let ?f = "f\<lparr>fl_m := (fl_m f)\<lparr>fm_flush_latency := fm_flush_latency (fl_m f) @ [time_sub t2 t1],
      fm_flush_errors := fm_flush_errors (fl_m f) + 1\<rparr>\<rparr>"
    have "r = Some e" "(f', w') = enter_critical (fd_now D) (?f, w3)"
      using assms 1 2 3 Inl by (simp_all add: attempt_def Let_def)
    moreover obtain t u where "fd_now D w3 = (t, u)" by (metis surj_pair)
    ultimately show ?thesis using 2 3 Inl
      by (auto simp: gated_from_def gate_def enter_critical_def Let_def)
  next
    case (Inr n)
    let ?f = "f\<lparr>fl_m := (fl_m f)\<lparr>fm_flush_latency := fm_flush_latency (fl_m f) @ [time_sub t2 t1],
      fm_flushed := fm_flushed (fl_m f) + 1, fm_inserted := fm_inserted (fl_m f) + n\<rparr>\<rparr>"
    have "r = None" "(f', w') = record_latency (fd_now D) (time_sub t2 t1) (maybe_recover ?f, w3)"
      using assms 1 2 3 Inr by (simp_all add: attempt_def Let_def)
    then show ?thesis using record_latency_frame [of "fd_now D" "time_sub t2 t1" "maybe_recover ?f" w3]
      by (cases "record_latency (fd_now D) (time_sub t2 t1) (maybe_recover ?f, w3)") simp
  qed
qed

lemma attempt_loop_gate:
  assumes "attempt_loop D batch a k delay le (f, w) = (LoopExhausted x, f', w')" "k \<noteq> 0"
  shows "\<exists>e. x = Some e \<and> gated_from D batch e (fl_cfg f) f' w'"
  using assms
proof (induction k arbitrary: a delay le f w)
  case (Suc k)
  have go: "\<exists>e. x = Some e \<and> gated_from D batch e (fl_cfg g) f' w'"
    if ex: "attempt_then D batch b k d (g, u) = (LoopExhausted x, f', w')" for g u d b
  proof -
    obtain e g1 u1 where at: "attempt D batch (g, u) = (Some e, g1, u1)"
      and r: "attempt_loop D batch (Suc b) k d (Some e) (g1, u1) = (LoopExhausted x, f', w')"
      using ex by (auto simp: attempt_then_def split: prod.splits option.splits)
    have g: "gated_from D batch e (fl_cfg g) g1 u1" using attempt_gate [OF at] by simp
    then have c: "fl_cfg g1 = fl_cfg g" by (auto simp: gated_from_def gate_def)
    show ?thesis
    proof (cases "k = 0")
      case True
      then show ?thesis using r g by auto
    next
      case False
      from Suc.IH [OF r False] c show ?thesis by simp
    qed
  qed
  show ?case
  proof (cases "a = 0")
    case True
    then show ?thesis using go [of 0 delay f w] Suc.prems(1) by (simp add: attempt_loop_Suc del: attempt_loop.simps)
  next
    case False
    let ?f0 = "f\<lparr>fl_m := (fl_m f)\<lparr>fm_retries_total := fm_retries_total (fl_m f) + int (length batch)\<rparr>\<rparr>"
    obtain c w1 where "fd_wait D delay w = (c, w1)" by (metis surj_pair)
    with Suc.prems(1) False have "attempt_then D batch a k (i64 (delay * 2)) (?f0, w1) = (LoopExhausted x, f', w')"
      by (cases c) (auto simp: attempt_loop_Suc Let_def simp del: attempt_loop.simps)
    from go [OF this] show ?thesis by simp
  qed
qed simp


text \<open>C21: errors close the gate. When flushWithRetry gives up on a batch (it goes back to the WAL or to the
  sink), the retry loop has ended with a copy that failed followed by two readings of the clock, the second
  one by enterCritical. The flusher is left in critical mode with the gate one recovery window after that
  last reading, and until then every round of the worker returns without touching ring, WAL or database.\<close>
theorem failed_flush_gates:
  assumes "flush_with_retry D batch (f, w) = (out, f', w')" "out = Requeued \<or> out = DeadLettered"
  shows "\<exists>e f1 w1 u u1 t1 u2 t.
    attempt_loop D batch 0 (nat (max_retries (fl_cfg f) + 1)) second None (f, w) = (LoopExhausted (Some e), f1, w1)
    \<and> fd_copy D batch u = (Inl e, u1) \<and> fd_now D u1 = (t1, u2) \<and> fd_now D u2 = (t, w1)
    \<and> fl_mode f' = ModeCritical \<and> critical_until f' = t + recovery_window (fl_cfg f)
    \<and> (\<forall>v s v'. fd_now D v = (s, v') \<and> s < t + recovery_window (fl_cfg f) \<longrightarrow>
         worker_tick D (f', v) = (Gated, f', v'))"
proof -
  let ?n = "nat (max_retries (fl_cfg f) + 1)"
  obtain lr f1 w1 where l: "attempt_loop D batch 0 ?n second None (f, w) = (lr, f1, w1)"
    by (metis prod_cases3)
  have ne: "out \<noteq> Flushed" "out \<noteq> Cancelled" "out \<noteq> Panicked" using assms(2) by auto
  then obtain e where lr: "lr = LoopExhausted (Some e)"
    using assms(1) l by (auto simp: flush_with_retry_def split: loop_result.splits option.splits)
  then have "?n \<noteq> 0" using l by (cases ?n) auto
  from attempt_loop_gate [OF l [unfolded lr] this] have g: "gated_from D batch e (fl_cfg f) f1 w1" by simp
  have rq: "gate (fst fw2) = gate f1" if "requeue_loop wal batch (f1, w1) = (x, fw2)" for wal x fw2
    using requeue_loop_gate [of wal batch f1 w1] that by simp
  have dl: "gate (fst (dead_loop D le batch fw2)) = gate (fst fw2)" for le fw2
    using dead_loop_gate [of D le batch "fst fw2" "snd fw2"] by simp
  have same: "gate f' = gate f1"
    using assms(1) l lr rq dl [of "Some e"] dl [of "Some e" "(f1, w1)"]
    by (auto simp: flush_with_retry_def split: option.splits prod.splits if_splits) (metis fst_conv)+
  from g obtain u u1 t1 u2 t where t: "fd_copy D batch u = (Inl e, u1)" "fd_now D u1 = (t1, u2)"
    "fd_now D u2 = (t, w1)" "gate f1 = (ModeCritical, t + recovery_window (fl_cfg f), fl_cfg f)"
    by (auto simp: gated_from_def)
  then have f': "fl_mode f' = ModeCritical" "critical_until f' = t + recovery_window (fl_cfg f)"
    using same by (simp_all add: gate_def)
  then have "worker_tick D (f', v) = (Gated, f', v')"
    if "fd_now D v = (s, v')" "s < t + recovery_window (fl_cfg f)" for v s v'
    using that by (simp add: worker_tick_def)
  then show ?thesis using l [unfolded lr] t(1-3) f' by blast
qed

lemma failed_flush_gates_witness:
  "fl_mode (fst (snd (flush_with_retry (outage_deps (PgError ''08006'' '''')) [zero_message]
     (retry_flusher 0, 9)))) = ModeCritical"
proof -
  let ?D = "outage_deps (PgError ''08006'' '''')"
  obtain out f' w' where run: "flush_with_retry ?D [zero_message] (retry_flusher 0, 9) = (out, f', w')"
    by (metis prod_cases3)
  have "fst (flush_with_retry ?D [zero_message] (retry_flusher 0, 9)) = Requeued"
    by (simp add: flush_with_retry_def retry_flusher_def outage_deps_def attempt_def enter_critical_def
        Let_def is_poison_error_def has_prefix_def)
  with run have "out = Requeued" by simp
  with failed_flush_gates [OF run] run show ?thesis by auto
qed

lemma flush_ok:
  assumes "\<exists>n u'. fd_copy D batch (snd (fd_now D w)) = (Inr n, u')"
  shows "0 \<le> max_retries (fl_cfg f) \<Longrightarrow> \<exists>g u. attempt D batch (f, w) = (None, g, u)
      \<and> flush_with_retry D batch (f, w) = (Flushed, g, u)"
    and "critical_until (fst (snd (flush_with_retry D batch (f, w)))) = critical_until f"
proof -
  obtain r g u where a: "attempt D batch (f, w) = (r, g, u)" by (metis prod_cases3)
  have r: "r = None" using attempt_result [of D batch f w] assms a by (metis fst_conv sum.simps(6))
  have fl: "flush_with_retry D batch (f, w) = (Flushed, g, u)" if "0 \<le> max_retries (fl_cfg f)"
  proof -
    have "nat (max_retries (fl_cfg f) + 1) = Suc (nat (max_retries (fl_cfg f)))" using that by simp
    then show ?thesis using a r by (simp add: flush_with_retry_def)
  qed
  then show "0 \<le> max_retries (fl_cfg f) \<Longrightarrow> \<exists>g u. attempt D batch (f, w) = (None, g, u)
      \<and> flush_with_retry D batch (f, w) = (Flushed, g, u)" using a r by blast
  show "critical_until (fst (snd (flush_with_retry D batch (f, w)))) = critical_until f"
  proof (cases "max_retries (fl_cfg f) < 0")
    case True
    then show ?thesis by (simp add: flush_with_retry_def)
  next
    case False
    then show ?thesis using fl attempt_gate [OF a] r by simp
  qed
qed

lemma tick_ok_gate:
  assumes "\<And>ms u. \<exists>n u'. fd_copy D ms u = (Inr n, u')" "\<And>u. critical_until f \<le> fst (fd_now D u)"
  shows "fst (worker_tick D (f, u)) \<noteq> Gated \<and> critical_until (fst (snd (worker_tick D (f, u)))) = critical_until f"
proof -
  obtain t u0 where now: "fd_now D u = (t, u0)" by (metis surj_pair)
  define u1 where "u1 = (if fl_mode f = ModeCritical then u0 else u)"
  have "\<not> t < critical_until f" using assms(2) [of u] now by simp
  then have run: "worker_tick D (f, u) = (case pull_batch D (f, u1) of (batch, u2) \<Rightarrow>
      if batch = [] then (Idle, f, u2)
      else (case flush_with_retry D batch (f, u2) of (r, fw1) \<Rightarrow> (Ran r, fw1)))"
    unfolding worker_tick_def Let_def prod.case u1_def
    by (cases "fl_mode f = ModeCritical") (simp_all only: now prod.case if_True if_False simp_thms)
  obtain batch u2 where "pull_batch D (f, u1) = (batch, u2)" by (metis surj_pair)
  moreover obtain r g u3 where "flush_with_retry D batch (f, u2) = (r, g, u3)" by (metis prod_cases3)
  moreover have "critical_until (fst (snd (flush_with_retry D batch (f, u2)))) = critical_until f"
    by (rule flush_ok(2)) (rule assms(1))
  ultimately show ?thesis using run by simp
qed

text \<open>C39: slowness never closes it. As long as every CopyMessages succeeds, however slowly, the gate stays
  where it was: a flusher whose latencies alone drove it into critical mode goes on pulling from ring and
  WAL in every round, and no round is skipped.\<close>
theorem latency_never_gates:
  assumes "\<And>ms u. \<exists>n u'. fd_copy D ms u = (Inr n, u')" "\<And>u. critical_until f \<le> fst (fd_now D u)"
    and "worker_loop n D (f, w) = (ticks, stopped, f', w')"
  shows "Gated \<notin> set ticks \<and> critical_until f' = critical_until f"
  using assms(2,3)
proof (induction n arbitrary: f w ticks stopped)
  case (Suc n)
  obtain c w1 where wait: "fd_wait D (flush_interval_for_mode f) w = (c, w1)" by (metis surj_pair)
  show ?case
  proof (cases c)
    case True
    then show ?thesis using Suc.prems(2) wait by auto
  next
    case False
    obtain t f1 w2 where t: "worker_tick D (f, w1) = (t, f1, w2)" by (metis prod_cases3)
    obtain ts s' where r: "worker_loop n D (f1, w2) = (ts, s', f', w')" "ticks = t # ts"
      using Suc.prems(2) wait False t by (auto split: prod.splits)
    have "critical_until f1 = critical_until f" "t \<noteq> Gated"
      using tick_ok_gate [where u = w1, OF assms(1) Suc.prems(1)] t by simp_all
    with Suc.IH [OF _ r(1)] Suc.prems(1) r(2) show ?thesis by simp
  qed
qed simp

lemma latency_never_gates_witness:
  "Gated \<notin> set (fst (worker_loop 3 idle_deps (demo_flusher\<lparr>fl_mode := ModeCritical\<rparr>, ())))"
proof -
  let ?f = "demo_flusher\<lparr>fl_mode := ModeCritical\<rparr>"
  obtain ticks stopped f' w' where run: "worker_loop 3 idle_deps (?f, ()) = (ticks, stopped, f', w')"
    by (metis prod_cases4)
  have "Gated \<notin> set ticks \<and> critical_until f' = critical_until ?f"
    by (rule latency_never_gates [OF _ _ run]) (simp_all add: idle_deps_def demo_flusher_def zero_time_def)
  with run show ?thesis by simp
qed

subsection \<open>What a flush does not touch\<close>

definition keeps :: "('w \<Rightarrow> bool) \<Rightarrow> 'w deps \<Rightarrow> message list \<Rightarrow> bool" where
  \<comment> \<open>every call a flush of this batch makes keeps \<open>P\<close>, and no copy of the batch succeeds where it holds\<close>
  "keeps P D batch \<longleftrightarrow>
     (\<forall>w. P w \<longrightarrow> P (snd (fd_now D w)) \<and> (\<forall>d. P (snd (fd_wait D d w))) \<and> (\<forall>m e. P (snd (fd_write D m e w)))
        \<and> (\<forall>wal m. fd_wal D = Some wal \<longrightarrow> P (snd (src_append wal m w)))
        \<and> P (snd (fd_copy D batch w)) \<and> isl (fst (fd_copy D batch w)))"

lemma keepsD:
  assumes "keeps P D batch" "P w"
  shows "P (snd (fd_now D w))" "P (snd (fd_wait D d w))" "P (snd (fd_write D m e w))"
    "fd_wal D = Some wal \<Longrightarrow> P (snd (src_append wal m w))" "P (snd (fd_copy D batch w))" "isl (fst (fd_copy D batch w))"
  using assms unfolding keeps_def by blast+

lemma attempt_keeps:
  assumes k: "keeps P D batch" and P: "P w" and a: "attempt D batch (f, w) = (r, f', w')"
  shows "r \<noteq> None \<and> P w'"
proof -
  obtain t1 w1 where 1: "fd_now D w = (t1, w1)" by (metis surj_pair)
  obtain x w2 where 2: "fd_copy D batch w1 = (x, w2)" by (metis surj_pair)
  obtain t2 w3 where 3: "fd_now D w2 = (t2, w3)" by (metis surj_pair)
  obtain t3 w4 where 4: "fd_now D w3 = (t3, w4)" by (metis surj_pair)
  have "P w1" using keepsD(1) [OF k P] 1 by simp
  then have "P w2" "isl x" using keepsD(5,6) [OF k] 2 by (metis snd_conv, metis fst_conv)
  then have "P w4" using keepsD(1) [OF k] 3 4 by (metis snd_conv)
  with \<open>isl x\<close> a 1 2 3 4 show ?thesis by (auto simp: attempt_def enter_critical_def Let_def split: sum.splits)
qed

lemma attempt_loop_keeps:
  assumes "keeps P D batch" "P w" "attempt_loop D batch a k delay le (f, w) = (lr, f', w')"
  shows "lr \<noteq> LoopFlushed \<and> P w'"
  using assms(2,3)
proof (induction k arbitrary: a delay le f w)
  case (Suc k)
  have go: "lr \<noteq> LoopFlushed \<and> P w'" if at: "attempt_then D batch b k d (g, u) = (lr, f', w')" and u: "P u" for b d g u
  proof -
    obtain r g1 u1 where a: "attempt D batch (g, u) = (r, g1, u1)" by (metis prod_cases3)
    with attempt_keeps [OF assms(1) u a] obtain e where "r = Some e" "P u1" by auto
    with Suc.IH [of u1 "Suc b" d "Some e" g1] a at show ?thesis by (simp add: attempt_then_def)
  qed
  show ?case
  proof (cases "a = 0")
    case True
    with Suc.prems(2) have "attempt_then D batch 0 k delay (f, w) = (lr, f', w')"
      by (simp only: attempt_loop_Suc if_True refl)
    from go [OF this Suc.prems(1)] show ?thesis .
  next
    case False
    obtain c u where w: "fd_wait D delay w = (c, u)" by (metis surj_pair)
    have u: "P u" using keepsD(2) [OF assms(1) Suc.prems(1), of delay] w by simp
    show ?thesis
    proof (cases c)
      case True
      then show ?thesis using Suc.prems(2) False w u by (auto simp: attempt_loop_Suc Let_def simp del: attempt_loop.simps)
    next
      case nc: False
      with Suc.prems(2) False w obtain g where "attempt_then D batch a k (i64 (delay * 2)) (g, u) = (lr, f', w')"
        by (auto simp: attempt_loop_Suc Let_def simp del: attempt_loop.simps)
      from go [OF this u] show ?thesis .
    qed
  qed
qed auto

lemma requeue_loop_keeps:
  assumes "keeps P D batch" "fd_wal D = Some wal"
  shows "P w \<Longrightarrow> P (snd (snd (requeue_loop wal ms (f, w))))"
proof (induction ms arbitrary: f w)
  case (Cons m ms)
  obtain r w1 where "src_append wal m w = (r, w1)" by (metis surj_pair)
  with keepsD(4) [OF assms(1) Cons.prems assms(2), of m] Cons.IH show ?case by (cases r) simp_all
qed simp

lemma dead_loop_keeps:
  assumes "keeps P D batch"
  shows "P w \<Longrightarrow> P (snd (dead_loop D le ms (f, w)))"
proof (induction ms arbitrary: f w)
  case (Cons m ms)
  obtain r w1 where "fd_write D m le w = (r, w1)" by (metis surj_pair)
  with keepsD(3) [OF assms Cons.prems, of m le] Cons.IH show ?case by (cases r) simp_all
qed simp

lemma flush_keeps:
  assumes k: "keeps P D batch" and P: "P w" and fl: "flush_with_retry D batch (f, w) = (out, f', w')"
  shows "out \<noteq> Flushed \<and> P w'"
proof -
  obtain lr f1 w1 where l: "attempt_loop D batch 0 (nat (max_retries (fl_cfg f) + 1)) second None (f, w) = (lr, f1, w1)"
    by (metis prod_cases3)
  note 1 = attempt_loop_keeps [OF k P l]
  have dead: "P (snd (dead_loop D le ms (g, u)))" if "P u" for le ms g u by (rule dead_loop_keeps [OF k that])
  show ?thesis
  proof (cases lr)
    case (LoopExhausted le)
    show ?thesis
    proof (cases "\<exists>e wal. le = Some e \<and> \<not> is_poison_error (Some e) \<and> fd_wal D = Some wal")
      case True
      then obtain e wal where e: "le = Some e" "\<not> is_poison_error (Some e)" "fd_wal D = Some wal" by blast
      obtain r f2 w2 where rq: "requeue_loop wal batch (f1, w1) = (r, f2, w2)" by (metis prod_cases3)
      have "P w2" using requeue_loop_keeps [OF k e(3), of w1 batch f1] 1 rq by simp
      then show ?thesis using fl l LoopExhausted e rq dead [of w2 "Some e" batch f2]
        by (auto simp: flush_with_retry_def split: option.splits)
    next
      case False
      then show ?thesis using fl l LoopExhausted 1 dead [of w1 le batch f1]
        by (auto simp: flush_with_retry_def split: option.splits if_splits)
    qed
  qed (use fl l 1 in \<open>auto simp: flush_with_retry_def\<close>)
qed

end
