(* ===== verification/Ledger.thy ===== *)
theory Ledger
  imports Postgres
begin

text \<open>
  The abstract specification of the delivery path, above ring, WAL, database and dead-letter bucket:
  where every message the service took over is. A step is one operation of one party, so a run is any
  interleaving of the subscriber with any number of flush workers. \<open>lg_flight i\<close> is what worker
  \<open>i\<close> has in hand, \<open>lg_lost\<close> what it let go of, \<open>lg_taken\<close> everything taken over so far.
\<close>

record ledger =
  lg_queue :: "message list"
  lg_log :: "message list"
  lg_rows :: "sql_row list"
  lg_letters :: "message multiset"
  lg_flight :: "nat \<Rightarrow> message multiset"
  lg_lost :: "message multiset"
  lg_taken :: "message multiset"

inductive ledger_step :: "nat \<Rightarrow> ledger \<Rightarrow> ledger \<Rightarrow> bool" for i where
  queued: "ledger_step i g (g\<lparr>lg_queue := lg_queue g @ [m], lg_taken := add_mset m (lg_taken g)\<rparr>)"
| spilled: "ledger_step i g (g\<lparr>lg_log := lg_log g @ [m], lg_taken := add_mset m (lg_taken g)\<rparr>)"
| pulled: "lg_queue g = ms @ q \<Longrightarrow>
    ledger_step i g (g\<lparr>lg_queue := q, lg_flight := (lg_flight g)(i := lg_flight g i + mset ms)\<rparr>)"
| drained: "lg_log g = ms @ l \<Longrightarrow>
    ledger_step i g (g\<lparr>lg_log := l, lg_flight := (lg_flight g)(i := lg_flight g i + mset ms)\<rparr>)"
| stored: "lg_flight g i = mset batch \<Longrightarrow>
    ledger_step i g (g\<lparr>lg_rows := lg_rows g @ new_rows (lg_rows g) (map copy_row batch),
      lg_flight := (lg_flight g)(i := {#})\<rparr>)"
| unsure: "lg_flight g i = mset batch \<Longrightarrow>
    ledger_step i g (g\<lparr>lg_rows := lg_rows g @ new_rows (lg_rows g) (map copy_row batch)\<rparr>)"
| requeued: "lg_flight g i = add_mset m fl \<Longrightarrow>
    ledger_step i g (g\<lparr>lg_log := lg_log g @ [m], lg_flight := (lg_flight g)(i := fl)\<rparr>)"
| copied: "ledger_step i g (g\<lparr>lg_log := lg_log g @ [m]\<rparr>)" if "m \<in># lg_flight g i"
| lettered: "lg_flight g i = add_mset m fl \<Longrightarrow>
    ledger_step i g (g\<lparr>lg_letters := add_mset m (lg_letters g), lg_flight := (lg_flight g)(i := fl)\<rparr>)"
| relettered: "m \<in># lg_taken g \<Longrightarrow> ledger_step i g (g\<lparr>lg_letters := add_mset m (lg_letters g)\<rparr>)"
| dropped: "lg_flight g i = ms + fl \<Longrightarrow>
    ledger_step i g (g\<lparr>lg_lost := lg_lost g + ms, lg_flight := (lg_flight g)(i := fl)\<rparr>)"

inductive_cases ledger_stepE: "ledger_step i g g'"

abbreviation ledger_steps :: "nat \<Rightarrow> ledger \<Rightarrow> ledger \<Rightarrow> bool" where
  "ledger_steps i \<equiv> (ledger_step i)\<^sup>*\<^sup>*"

inductive ledger_run :: "ledger \<Rightarrow> ledger \<Rightarrow> bool" where
  \<comment> \<open>steps of any workers, in any order\<close>
  start: "ledger_run g g"
| then_step: "ledger_run g h \<Longrightarrow> ledger_step i h k \<Longrightarrow> ledger_run g k"

lemma ledger_run_trans: "ledger_run h k \<Longrightarrow> ledger_run g h \<Longrightarrow> ledger_run g k"
  by (induction rule: ledger_run.induct) (auto intro: ledger_run.intros)

lemma ledger_steps_run: "ledger_steps i g h \<Longrightarrow> ledger_run g h"
  by (induction rule: rtranclp_induct) (auto intro: ledger_run.intros)

subsection \<open>Every message is somewhere\<close>

definition in_table :: "message \<Rightarrow> sql_row list \<Rightarrow> bool" where
  "in_table m rows \<longleftrightarrow> SqlText (dedup_key m) \<in> row_key ` set rows"

definition accounted :: "ledger \<Rightarrow> message \<Rightarrow> bool" where
  "accounted g m \<longleftrightarrow> m \<in> set (lg_queue g) \<or> m \<in> set (lg_log g) \<or> (\<exists>i. m \<in># lg_flight g i)
     \<or> in_table m (lg_rows g) \<or> m \<in># lg_letters g \<or> m \<in># lg_lost g"

definition held :: "ledger \<Rightarrow> message \<Rightarrow> bool" where
  "held g m \<longleftrightarrow> m \<in> set (lg_queue g) \<or> m \<in> set (lg_log g) \<or> (\<exists>i. m \<in># lg_flight g i)
     \<or> m \<in># lg_letters g \<or> m \<in># lg_lost g"

definition ledger_inv :: "sql_row set \<Rightarrow> ledger \<Rightarrow> bool" where
  \<comment> \<open>what was taken over is accounted for, what is held or stored was taken over (or is one of the rows
    the table held before), keys are unique\<close>
  "ledger_inv base g \<longleftrightarrow> (\<forall>m \<in># lg_taken g. accounted g m) \<and> (\<forall>m. held g m \<longrightarrow> m \<in># lg_taken g)
     \<and> set (lg_rows g) \<subseteq> base \<union> copy_row ` set_mset (lg_taken g) \<and> distinct (map row_key (lg_rows g))"

lemma row_key_copy [simp]: "row_key (copy_row m) = SqlText (dedup_key m)"
  by (simp add: row_key_def copy_row_def)

lemma in_table_stored:
  "in_table m (rows @ new_rows rows (map copy_row batch)) \<longleftrightarrow> in_table m rows \<or> (\<exists>n \<in> set batch. dedup_key n = dedup_key m)"
proof -
  have "row_key ` set (map copy_row batch) = (\<lambda>n. SqlText (dedup_key n)) ` set batch"
    by (simp add: image_image)
  moreover have "SqlText (dedup_key m) \<in> (\<lambda>n. SqlText (dedup_key n)) ` set batch
      \<longleftrightarrow> (\<exists>n \<in> set batch. dedup_key n = dedup_key m)"
    unfolding image_iff by (simp add: eq_commute [of "dedup_key m"])
  ultimately show ?thesis unfolding in_table_def new_rows_keys Un_iff by simp
qed

lemma flight_split: "(\<exists>j. m \<in># fl j) \<longleftrightarrow> m \<in># fl i \<or> (\<exists>j. j \<noteq> i \<and> m \<in># fl j)"
  by metis

lemma flight_upd: "(\<exists>j. m \<in># (fl(i := x)) j) \<longleftrightarrow> m \<in># x \<or> (\<exists>j. j \<noteq> i \<and> m \<in># fl j)"
  by (auto split: if_splits)

lemma ledger_step_accounted: "ledger_step i g h \<Longrightarrow> accounted g m \<Longrightarrow> accounted h m"
proof (induction rule: ledger_step.induct)
  case (stored g batch)
  then show ?case unfolding accounted_def
    by (simp add: flight_upd flight_split [where fl = "lg_flight g" and i = i] in_table_stored del: fun_upd_apply)
      (metis set_mset_mset)
next
  case (unsure g batch)
  then show ?case by (auto simp: accounted_def in_table_stored)
next
  case (queued g m)
  then show ?case by (auto simp: accounted_def)
next
  case (spilled g m)
  then show ?case by (auto simp: accounted_def)
next
  case (copied m g)
  then show ?case by (auto simp: accounted_def)
qed (unfold accounted_def, simp_all add: flight_upd flight_split [where i = i] del: fun_upd_apply, auto)


lemma ledger_step_taken: "ledger_step i g h \<Longrightarrow> set_mset (lg_taken g) \<subseteq> set_mset (lg_taken h)"
  by (induction rule: ledger_step.induct) auto

lemma ledger_step_new: "ledger_step i g h \<Longrightarrow> m \<in># lg_taken h \<Longrightarrow> m \<in># lg_taken g \<or> accounted h m"
  by (induction rule: ledger_step.induct) (auto simp: accounted_def)

lemma ledger_step_held: "ledger_step i g h \<Longrightarrow> held h m \<Longrightarrow> held g m \<or> m \<in># lg_taken h"
proof (induction rule: ledger_step.induct)
  case (copied m g)
  then show ?case by (auto simp: held_def)
qed (unfold held_def, simp_all add: flight_upd flight_split [where i = i] del: fun_upd_apply, auto)

lemma ledger_step_rows:
  "ledger_step i g h \<Longrightarrow> lg_rows h = lg_rows g
    \<or> (\<exists>batch. (\<forall>m \<in> set batch. held g m) \<and> lg_rows h = lg_rows g @ new_rows (lg_rows g) (map copy_row batch))"
proof (induction rule: ledger_step.induct)
  case (stored g batch)
  then have "\<forall>m \<in> set batch. held g m" unfolding held_def by (metis set_mset_mset)
  then show ?case by auto
next
  case (unsure g batch)
  then have "\<forall>m \<in> set batch. held g m" unfolding held_def by (metis set_mset_mset)
  then show ?case by auto
qed simp_all

lemma ledger_step_inv: "ledger_step i g h \<Longrightarrow> ledger_inv base g \<Longrightarrow> ledger_inv base h"
proof -
  assume s: "ledger_step i g h" and g: "ledger_inv base g"
  have "\<forall>m \<in># lg_taken h. accounted h m"
    using ledger_step_new [OF s] ledger_step_accounted [OF s] g by (auto simp: ledger_inv_def)
  moreover have "\<forall>m. held h m \<longrightarrow> m \<in># lg_taken h"
    using ledger_step_held [OF s] ledger_step_taken [OF s] g by (auto simp: ledger_inv_def)
  moreover have old: "set (lg_rows g) \<subseteq> base \<union> copy_row ` set_mset (lg_taken h)"
  proof -
    have "set (lg_rows g) \<subseteq> base \<union> copy_row ` set_mset (lg_taken g)" using g by (simp add: ledger_inv_def)
    also have "\<dots> \<subseteq> base \<union> copy_row ` set_mset (lg_taken h)"
      by (intro Un_mono image_mono subset_refl) (rule ledger_step_taken [OF s])
    finally show ?thesis .
  qed
  moreover have dist: "distinct (map row_key (lg_rows g))" using g by (simp add: ledger_inv_def)
  moreover from ledger_step_rows [OF s]
  have "set (lg_rows h) \<subseteq> base \<union> copy_row ` set_mset (lg_taken h) \<and> distinct (map row_key (lg_rows h))"
  proof
    assume "lg_rows h = lg_rows g"
    then show ?thesis using old dist by simp
  next
    assume "\<exists>batch. (\<forall>m \<in> set batch. held g m) \<and> lg_rows h = lg_rows g @ new_rows (lg_rows g) (map copy_row batch)"
    then obtain batch where b: "\<forall>m \<in> set batch. held g m"
      "lg_rows h = lg_rows g @ new_rows (lg_rows g) (map copy_row batch)" by blast
    have "set batch \<subseteq> set_mset (lg_taken h)"
      using b(1) g ledger_step_taken [OF s] by (auto simp: ledger_inv_def)
    then have "copy_row ` set batch \<subseteq> copy_row ` set_mset (lg_taken h)" by (rule image_mono)
    moreover have "set (lg_rows h) \<subseteq> set (lg_rows g) \<union> copy_row ` set batch"
      unfolding b(2) using new_rows_sub [of "lg_rows g" "map copy_row batch"] by auto
    ultimately have "set (lg_rows h) \<subseteq> base \<union> copy_row ` set_mset (lg_taken h)"
      using old by (meson Un_least subset_trans sup.coboundedI2)
    moreover have "distinct (map row_key (lg_rows h))"
      unfolding b(2) by (rule new_rows_distinct) (rule dist)
    ultimately show ?thesis by blast
  qed
  ultimately show "ledger_inv base h" by (simp add: ledger_inv_def)
qed

lemma ledger_run_inv: "ledger_run g h \<Longrightarrow> ledger_inv base g \<Longrightarrow> ledger_inv base h"
  by (induction rule: ledger_run.induct) (auto intro: ledger_step_inv)

lemma ledger_steps_other: "ledger_steps i g h \<Longrightarrow> j \<noteq> i \<Longrightarrow> lg_flight h j = lg_flight g j"
proof (induction rule: rtranclp_induct)
  case (step h k)
  from step(2) have "lg_flight k j = lg_flight h j" using step.prems by (cases rule: ledger_step.cases) auto
  with step show ?case by simp
qed simp

subsection \<open>Groups of steps\<close>

lemma steps_requeue:
  "lg_flight g i = mset ms + fl \<Longrightarrow>
    ledger_steps i g (g\<lparr>lg_log := lg_log g @ ms, lg_flight := (lg_flight g)(i := fl)\<rparr>)"
proof (induction ms arbitrary: g)
  case Nil
  then have "(lg_flight g)(i := fl) = lg_flight g" by auto
  then show ?case by simp
next
  case (Cons m ms)
  let ?h = "g\<lparr>lg_log := lg_log g @ [m], lg_flight := (lg_flight g)(i := mset ms + fl)\<rparr>"
  have "ledger_step i g ?h" by (rule ledger_step.requeued) (use Cons.prems in simp)
  moreover have "ledger_steps i ?h (?h\<lparr>lg_log := lg_log ?h @ ms, lg_flight := (lg_flight ?h)(i := fl)\<rparr>)"
    by (rule Cons.IH) simp
  ultimately show ?case by (simp add: converse_rtranclp_into_rtranclp del: fun_upd_apply)
qed

lemma steps_copied:
  "set ms \<subseteq> set_mset (lg_flight g i) \<Longrightarrow> ledger_steps i g (g\<lparr>lg_log := lg_log g @ ms\<rparr>)"
proof (induction ms arbitrary: g)
  case (Cons m ms)
  let ?h = "g\<lparr>lg_log := lg_log g @ [m]\<rparr>"
  have "ledger_step i g ?h" by (rule ledger_step.copied) (use Cons.prems in simp)
  with Cons.IH [of ?h] Cons.prems show ?case by (simp add: converse_rtranclp_into_rtranclp)
qed simp

lemma steps_lettered:
  "lg_flight g i = mset ms + fl \<Longrightarrow>
    ledger_steps i g (g\<lparr>lg_letters := lg_letters g + mset ms, lg_flight := (lg_flight g)(i := fl)\<rparr>)"
proof (induction ms arbitrary: g)
  case Nil
  then have "(lg_flight g)(i := fl) = lg_flight g" by auto
  then show ?case by simp
next
  case (Cons m ms)
  let ?h = "g\<lparr>lg_letters := add_mset m (lg_letters g), lg_flight := (lg_flight g)(i := mset ms + fl)\<rparr>"
  have "ledger_step i g ?h" by (rule ledger_step.lettered) (use Cons.prems in simp)
  moreover have "ledger_steps i ?h (?h\<lparr>lg_letters := lg_letters ?h + mset ms, lg_flight := (lg_flight ?h)(i := fl)\<rparr>)"
    by (rule Cons.IH) simp
  ultimately show ?case by (simp add: converse_rtranclp_into_rtranclp del: fun_upd_apply)
qed

end
