(* ===== verification/Subscriber.thy ===== *)
theory Subscriber
  imports Buffer Topic
begin

text \<open>
  internal/subscriber/subscriber.go: from an MQTT publish to the acknowledgement. The ring, the
  optional WAL, the optional side-table writer and the clock are the fields of \<open>sub_deps\<close>, operations
  on a world \<open>'w\<close>; uuid.Parse and uuid.String are arguments carried there too. The ack callback,
  which may be nil, is an optional operation on subscriber and world. paho delivers one publish at a
  time, so a call of HandleMessage is one step. Logging is left out.
\<close>

subsection \<open>State and dependencies\<close>

record 'w sub_deps =
  sd_enqueue :: "message \<Rightarrow> 'w \<Rightarrow> (ring_state \<times> go_error option) \<times> 'w"
  sd_mark_spilled :: "'w \<Rightarrow> 'w"
  sd_wal :: "(message \<Rightarrow> 'w \<Rightarrow> (go_error + string) \<times> 'w) option"
  sd_now :: "'w \<Rightarrow> time \<times> 'w"
  sd_uuid_parse :: "string \<Rightarrow> go_error + uuid"
  sd_uuid_string :: "uuid \<Rightarrow> string"

type_synonym 'w unparseable_inserter = "unparseable \<Rightarrow> 'w \<Rightarrow> go_error option \<times> 'w"

record 'w subscriber =
  sb_cfg :: mqtt_config
  sb_unparseable :: "'w unparseable_inserter option"
  sb_m :: subscriber_metrics
  sb_client_id :: string
  sb_paused :: bool

type_synonym 'w ack = "'w subscriber \<times> 'w \<Rightarrow> 'w subscriber \<times> 'w"

definition compute_client_id :: "string \<Rightarrow> (go_error + string) \<Rightarrow> string \<Rightarrow> go_error + string" where
  \<comment> \<open>the HOSTNAME variable, what os.Hostname returns, and the prefix\<close>
  "compute_client_id env_hostname os_hostname prefix =
     (if prefix = '''' then Inl (ErrText ''subscriber: client_id_prefix required'')
      else if env_hostname \<noteq> '''' then Inr (prefix @ ''-'' @ env_hostname)
      else (case os_hostname of
          Inl e \<Rightarrow> Inl (Wrapped ''resolve hostname for client id'' e)
        | Inr host \<Rightarrow>
            if host = '''' then Inl (ErrText ''resolve hostname for client id: %!w(<nil>)'')
            else Inr (prefix @ ''-'' @ host)))"

definition new_subscriber ::
  "string \<Rightarrow> (go_error + string) \<Rightarrow> mqtt_config \<Rightarrow> bool \<Rightarrow> subscriber_metrics option
   \<Rightarrow> go_error + 'w subscriber" where
  \<comment> \<open>the flag says whether the ring is there\<close>
  "new_subscriber env_hostname os_hostname cfg has_ring m =
     (if \<not> has_ring then Inl (ErrText ''subscriber: ring required'')
      else (case m of
          None \<Rightarrow> Inl (ErrText ''subscriber: metrics required'')
        | Some sm \<Rightarrow>
            if brokers cfg = [] then Inl (ErrText ''subscriber: at least one broker URL required'')
            else (case compute_client_id env_hostname os_hostname (client_id_prefix cfg) of
                Inl e \<Rightarrow> Inl e
              | Inr cid \<Rightarrow> Inr \<lparr>sb_cfg = cfg, sb_unparseable = None, sb_m = sm, sb_client_id = cid,
                  sb_paused = False\<rparr>)))"

definition set_unparseable_inserter :: "'w unparseable_inserter option \<Rightarrow> 'w subscriber \<Rightarrow> 'w subscriber" where
  "set_unparseable_inserter u s = s\<lparr>sb_unparseable := u\<rparr>"

definition make_dedup_key :: "(uuid \<Rightarrow> string) \<Rightarrow> uuid \<Rightarrow> time \<Rightarrow> string" where
  "make_dedup_key uuid_string device t = uuid_string device @ '':'' @ show_int (unix_nano t)"

subsection \<open>The pause gauge\<close>

definition mark_paused :: "'w subscriber \<Rightarrow> 'w subscriber" where
  "mark_paused s =
     (if sb_paused s then s
      else s\<lparr>sb_paused := True, sb_m := (sb_m s)\<lparr>sm_paused := 1, sm_pauses := sm_pauses (sb_m s) + 1\<rparr>\<rparr>)"

definition clear_pause :: "'w subscriber \<Rightarrow> 'w subscriber" where
  "clear_pause s =
     (if sb_paused s then s\<lparr>sb_paused := False, sb_m := (sb_m s)\<lparr>sm_paused := 0\<rparr>\<rparr> else s)"

subsection \<open>Routing and acknowledging\<close>

definition route_message ::
  "'w sub_deps \<Rightarrow> message \<Rightarrow> 'w subscriber \<times> 'w \<Rightarrow> bool \<times> 'w subscriber \<times> 'w" where
  "route_message D msg sw =
     (case sw of (s, w) \<Rightarrow>
        (case sd_enqueue D msg w of
           ((state, None), w1) \<Rightarrow>
             (True, if state = StatePause then mark_paused s else clear_pause s, w1)
         | ((state, Some e), w1) \<Rightarrow>
             if \<not> is_err_full e then (False, s, w1)
             else (case sd_wal D of
                 None \<Rightarrow> (False, mark_paused s, w1)
               | Some app \<Rightarrow>
                   (case app msg w1 of
                      (Inr key, w2) \<Rightarrow> (True, clear_pause s, sd_mark_spilled D w2)
                    | (Inl e', w2) \<Rightarrow> (False, mark_paused s, w2)))))"

definition call_ack :: "'w ack option \<Rightarrow> 'w ack" where
  "call_ack ack sw = (case ack of None \<Rightarrow> sw | Some a \<Rightarrow> a sw)"

definition handle_parse_failure ::
  "string \<Rightarrow> bytes \<Rightarrow> go_error \<Rightarrow> time \<Rightarrow> 'w ack option \<Rightarrow> 'w subscriber \<times> 'w \<Rightarrow> 'w subscriber \<times> 'w" where
  "handle_parse_failure topic_name body err at ack sw =
     (case sw of (s, w) \<Rightarrow>
        let s1 = s\<lparr>sb_m := (sb_m s)\<lparr>sm_handler_errors := sm_handler_errors (sb_m s) + 1\<rparr>\<rparr>;
            (class, detail) = (case as_topic_error err of
               None \<Rightarrow> (topic_err_structure, '''') | Some cd \<Rightarrow> cd)
        in call_ack ack
             (case sb_unparseable s1 of
                None \<Rightarrow> (s1, w)
              | Some insert_row \<Rightarrow>
                  (case insert_row \<lparr>u_topic = topic_name, u_payload = clone_bytes body, u_error_class = class,
                       u_error_detail = detail, u_received_at = at\<rparr> w of
                     (None, w1) \<Rightarrow>
                       (s1\<lparr>sb_m := (sb_m s1)\<lparr>sm_unparseable_inserted :=
                           (sm_unparseable_inserted (sb_m s1))
                             (class := sm_unparseable_inserted (sb_m s1) class + 1)\<rparr>\<rparr>, w1)
                   | (Some e, w1) \<Rightarrow>
                       (s1\<lparr>sb_m := (sb_m s1)\<lparr>sm_unparseable_insert_errors :=
                           sm_unparseable_insert_errors (sb_m s1) + 1\<rparr>\<rparr>, w1))))"

definition message_of :: "'w sub_deps \<Rightarrow> parsed_topic \<Rightarrow> string \<Rightarrow> bytes \<Rightarrow> time \<Rightarrow> message" where
  "message_of D parsed topic_name body now =
     \<lparr>tenant_id = pt_tenant parsed, device_uuid = pt_device parsed, topic = topic_name,
      payload = clone_bytes body, received_at = now,
      dedup_key = make_dedup_key (sd_uuid_string D) (pt_device parsed) now\<rparr>"

definition handle_message ::
  "'w sub_deps \<Rightarrow> string \<Rightarrow> bytes \<Rightarrow> 'w ack option \<Rightarrow> 'w subscriber \<times> 'w \<Rightarrow> 'w subscriber \<times> 'w" where
  "handle_message D topic_name body ack sw =
     (case sw of (s, w) \<Rightarrow>
        let s1 = s\<lparr>sb_m := (sb_m s)\<lparr>sm_received := sm_received (sb_m s) + 1\<rparr>\<rparr>
        in (case sd_now D w of (now, w1) \<Rightarrow>
              (case parse_topic (sd_uuid_parse D) topic_name of
                 Inl err \<Rightarrow> handle_parse_failure topic_name body err now ack (s1, w1)
               | Inr parsed \<Rightarrow>
                   (case route_message D (message_of D parsed topic_name body now) (s1, w1) of
                      (False, sw2) \<Rightarrow> sw2
                    | (True, sw2) \<Rightarrow> call_ack ack sw2))))"

definition on_publish ::
  "'w sub_deps \<Rightarrow> ('w \<Rightarrow> go_error option \<times> 'w) \<Rightarrow> string \<Rightarrow> bytes \<Rightarrow> 'w subscriber \<times> 'w
   \<Rightarrow> (bool \<times> go_error option) \<times> 'w subscriber \<times> 'w" where
  \<comment> \<open>\<open>client_ack\<close> is \<open>pr.Client.Ack(pr.Packet)\<close>, whose error is dropped\<close>
  "on_publish D client_ack topic_name body sw =
     (let ack = (\<lambda>(s, w). case client_ack w of (_, w1) \<Rightarrow>
            (s\<lparr>sb_m := (sb_m s)\<lparr>sm_acked := sm_acked (sb_m s) + 1\<rparr>\<rparr>, w1))
      in ((True, None), handle_message D topic_name body (Some ack) sw))"

subsection \<open>The connection\<close>

record 'u client_config =
  cc_server_urls :: "'u list"
  cc_keep_alive :: "16 word"
  cc_connect_retry_delay :: duration
  cc_connect_timeout :: duration
  cc_session_expiry_interval :: "32 word"
  cc_clean_start :: bool
  cc_username :: string
  cc_password :: string
  cc_client_id :: string
  cc_enable_manual_ack :: bool

record subscribe_options =
  so_topic :: string
  so_qos :: "8 word"
  so_no_local :: bool
  so_retain_as_published :: bool

fun parse_brokers :: "(string \<Rightarrow> go_error + 'u) \<Rightarrow> string list \<Rightarrow> 'u list \<Rightarrow> go_error + 'u list" where
  \<comment> \<open>the loop of parseBrokers; \<open>out\<close> is what it has appended\<close>
  "parse_brokers url_parse [] out = Inr out"
| "parse_brokers url_parse (b # bs) out =
     (case url_parse b of
        Inl e \<Rightarrow> Inl (Wrapped ''parse broker %q'' e)
      | Inr u \<Rightarrow> parse_brokers url_parse bs (out @ [u]))"

definition whole_seconds :: "(duration \<Rightarrow> int) \<Rightarrow> nat \<Rightarrow> duration \<Rightarrow> int" where
  \<comment> \<open>the conversion of \<open>d.Seconds()\<close> to an unsigned integer: below \<open>2 ^ b\<close> seconds, \<open>b \<le> 22\<close>, the float
    sum cannot round up to the next integer and the whole seconds remain; outside, \<open>u\<close> is what the
    implementation makes of it\<close>
  "whole_seconds u b d = (if 0 \<le> d \<and> d < 2 ^ b * second then d div second else u d)"

definition client_config_of :: "(duration \<Rightarrow> int) \<Rightarrow> 'u list \<Rightarrow> 'w subscriber \<Rightarrow> 'u client_config" where
  \<comment> \<open>EnableManualAcknowledgment is not set, so it keeps its zero value\<close>
  "client_config_of u urls s =
     \<lparr>cc_server_urls = urls,
      cc_keep_alive = word_of_int (whole_seconds u 16 (keepalive (sb_cfg s))),
      cc_connect_retry_delay = 1 * second, cc_connect_timeout = connect_timeout (sb_cfg s),
      cc_session_expiry_interval = word_of_int (whole_seconds u 22 (max_reconnect_backoff (sb_cfg s))),
      cc_clean_start = clean_session (sb_cfg s), cc_username = mqtt_username (sb_cfg s),
      cc_password = mqtt_password (sb_cfg s), cc_client_id = sb_client_id s, cc_enable_manual_ack = False\<rparr>"

definition on_connect_error :: "'w subscriber \<Rightarrow> 'w subscriber" where
  "on_connect_error s = s\<lparr>sb_m := (sb_m s)\<lparr>sm_reconnects := sm_reconnects (sb_m s) + 1\<rparr>\<rparr>"

definition on_server_disconnect :: "'w subscriber \<Rightarrow> 'w subscriber" where
  "on_server_disconnect s = s\<lparr>sb_m := (sb_m s)\<lparr>sm_connected := 0\<rparr>\<rparr>"

definition on_connection_up ::
  "(subscribe_options list \<Rightarrow> 'w \<Rightarrow> go_error option \<times> 'w) \<Rightarrow> 'w subscriber \<times> 'w \<Rightarrow> 'w subscriber \<times> 'w" where
  \<comment> \<open>a failed Subscribe is only logged\<close>
  "on_connection_up subscribe sw =
     (case sw of (s, w) \<Rightarrow>
        let s1 = s\<lparr>sb_m := (sb_m s)\<lparr>sm_connected := 1, sm_reconnects := sm_reconnects (sb_m s) + 1\<rparr>\<rparr>
        in (case subscribe [\<lparr>so_topic = shared_subscription (sb_cfg s1), so_qos = 1, so_no_local = False,
               so_retain_as_published = True\<rparr>] w of (_, w1) \<Rightarrow> (s1, w1)))"

definition subscriber_start ::
  "(duration \<Rightarrow> int) \<Rightarrow> (string \<Rightarrow> go_error + 'u) \<Rightarrow> ('u client_config \<Rightarrow> 'w \<Rightarrow> (go_error + 'c) \<times> 'w)
   \<Rightarrow> ('c \<Rightarrow> 'w subscriber \<times> 'w \<Rightarrow> 'w subscriber \<times> 'w) \<Rightarrow> ('c \<Rightarrow> 'w \<Rightarrow> 'w)
   \<Rightarrow> 'w subscriber \<times> 'w \<Rightarrow> go_error option \<times> 'w subscriber \<times> 'w" where
  \<comment> \<open>\<open>serve\<close> is what the callbacks do to the subscriber until the context is done\<close>
  "subscriber_start u url_parse new_connection serve disconnect sw =
     (case sw of (s, w) \<Rightarrow>
        (case parse_brokers url_parse (brokers (sb_cfg s)) [] of
           Inl e \<Rightarrow> (Some e, s, w)
         | Inr urls \<Rightarrow>
             (case new_connection (client_config_of u urls s) w of
                (Inl e, w1) \<Rightarrow> (Some (Wrapped ''autopaho.NewConnection'' e), s, w1)
              | (Inr cm, w1) \<Rightarrow>
                  (case serve cm (s, w1) of (s2, w2) \<Rightarrow>
                     (None, s2\<lparr>sb_m := (sb_m s2)\<lparr>sm_connected := 0\<rparr>\<rparr>, disconnect cm w2)))))"


subsection \<open>The pause gauge is the pause flag\<close>

definition pause_inv :: "'w subscriber \<Rightarrow> bool" where
  "pause_inv s \<longleftrightarrow> sm_paused (sb_m s) = (if sb_paused s then 1 else 0)"

definition pause_edge :: "'w subscriber \<Rightarrow> 'w subscriber \<Rightarrow> bool" where
  \<comment> \<open>the gauge follows the flag, and the counter counts the step from unpaused to paused\<close>
  "pause_edge s s' \<longleftrightarrow> (pause_inv s \<longrightarrow> pause_inv s')
     \<and> sm_pauses (sb_m s') = sm_pauses (sb_m s) + (if \<not> sb_paused s \<and> sb_paused s' then 1 else 0)"

lemma pause_edge_mark: "pause_edge s (mark_paused s)"
  by (simp add: pause_edge_def pause_inv_def mark_paused_def)

lemma pause_edge_clear: "pause_edge s (clear_pause s)"
  by (simp add: pause_edge_def pause_inv_def clear_pause_def)

lemma pause_edge_frame:
  "sm_paused (sb_m s') = sm_paused (sb_m s) \<Longrightarrow> sm_pauses (sb_m s') = sm_pauses (sb_m s)
    \<Longrightarrow> sb_paused s' = sb_paused s \<Longrightarrow> pause_edge s s'"
  by (simp add: pause_edge_def pause_inv_def)

definition same_pause :: "'w subscriber \<Rightarrow> 'w subscriber \<Rightarrow> bool" where
  "same_pause s s' \<longleftrightarrow> sm_paused (sb_m s') = sm_paused (sb_m s)
     \<and> sm_pauses (sb_m s') = sm_pauses (sb_m s) \<and> sb_paused s' = sb_paused s"

lemma same_pause_refl [simp]: "same_pause s s"
  by (simp add: same_pause_def)

lemma same_pause_trans: "same_pause a b \<Longrightarrow> same_pause b c \<Longrightarrow> same_pause a c"
  by (simp add: same_pause_def)

lemma pause_edge_same: "same_pause a s \<Longrightarrow> pause_edge s s' \<Longrightarrow> same_pause s' b \<Longrightarrow> pause_edge a b"
  by (auto simp: pause_edge_def pause_inv_def same_pause_def)

lemma route_message_pause: "pause_edge s (fst (snd (route_message D m (s, w))))"
proof -
  have "pause_edge s s" by (simp add: pause_edge_def)
  then show ?thesis
    by (auto simp: route_message_def intro: pause_edge_mark pause_edge_clear
        split: prod.split option.split sum.split)
qed

lemma handle_parse_failure_same:
  assumes "\<And>s w. same_pause s (fst (call_ack ack (s, w)))"
  shows "same_pause s (fst (handle_parse_failure tn b err at ack (s, w)))"
proof -
  have via: "same_pause s (fst (call_ack ack (s1, w1)))" if "same_pause s s1" for s1 w1
    by (rule same_pause_trans [OF that assms])
  have "same_pause s (s\<lparr>sb_m := (sb_m s)\<lparr>sm_handler_errors := x\<rparr>\<rparr>)"
    "same_pause s (s\<lparr>sb_m := (sb_m s)\<lparr>sm_handler_errors := x, sm_unparseable_inserted := y\<rparr>\<rparr>)"
    "same_pause s (s\<lparr>sb_m := (sb_m s)\<lparr>sm_handler_errors := x, sm_unparseable_insert_errors := z\<rparr>\<rparr>)" for x y z
    by (simp_all add: same_pause_def)
  then show ?thesis
    by (auto simp: handle_parse_failure_def Let_def intro!: via split: option.split prod.split)
qed

lemma handle_message_pause:
  assumes ack: "\<And>s w. same_pause s (fst (call_ack ack (s, w)))"
  shows "pause_edge s (fst (handle_message D tn b ack (s, w)))"
proof -
  let ?s1 = "s\<lparr>sb_m := (sb_m s)\<lparr>sm_received := sm_received (sb_m s) + 1\<rparr>\<rparr>"
  have s1: "same_pause s ?s1" by (simp add: same_pause_def)
  obtain now w1 where now: "sd_now D w = (now, w1)" by (metis surj_pair)
  show ?thesis
  proof (cases "parse_topic (sd_uuid_parse D) tn")
    case (Inl e)
    have "same_pause s (fst (handle_parse_failure tn b e now ack (?s1, w1)))"
      by (rule same_pause_trans [OF s1 handle_parse_failure_same [OF ack]])
    then have "pause_edge s (fst (handle_parse_failure tn b e now ack (?s1, w1)))"
      by (simp add: pause_edge_frame same_pause_def)
    then show ?thesis using now Inl by (simp add: handle_message_def Let_def)
  next
    case (Inr p)
    let ?m = "message_of D p tn b now"
    obtain ok s2 w2 where r: "route_message D ?m (?s1, w1) = (ok, s2, w2)" by (metis prod_cases3)
    have e: "pause_edge ?s1 s2" using route_message_pause [of ?s1 D ?m w1] r by simp
    have "fst (handle_message D tn b ack (s, w)) = (if ok then fst (call_ack ack (s2, w2)) else s2)"
      using now Inr r by (simp add: handle_message_def Let_def)
    then show ?thesis using pause_edge_same [OF s1 e ack] pause_edge_same [OF s1 e same_pause_refl] by simp
  qed
qed

fun run_publishes ::
  "'w sub_deps \<Rightarrow> ('w \<Rightarrow> go_error option \<times> 'w) \<Rightarrow> (string \<times> bytes) list \<Rightarrow> 'w subscriber \<times> 'w
   \<Rightarrow> bool list \<times> 'w subscriber \<times> 'w" where
  \<comment> \<open>the pause flag after each publish\<close>
  "run_publishes D client_ack [] sw = ([], sw)"
| "run_publishes D client_ack ((tn, b) # ps) sw =
     (let sw1 = snd (on_publish D client_ack tn b sw)
      in (case run_publishes D client_ack ps sw1 of (flags, sw2) \<Rightarrow> (sb_paused (fst sw1) # flags, sw2)))"

fun rising :: "bool \<Rightarrow> bool list \<Rightarrow> nat" where
  "rising p [] = 0"
| "rising p (q # qs) = (if \<not> p \<and> q then 1 else 0) + rising q qs"

lemma on_publish_pause: "pause_edge (fst sw) (fst (snd (on_publish D client_ack tn b sw)))"
proof -
  obtain s w where sw: "sw = (s, w)" by (metis surj_pair)
  show ?thesis unfolding sw on_publish_def Let_def snd_conv fst_conv
    by (rule handle_message_pause) (simp add: call_ack_def same_pause_def split: prod.split)
qed

text \<open>C26: the pause metrics. Starting from a gauge that agrees with the flag, after any sequence of publishes
  the Paused gauge is 1 exactly when the subscriber is paused, and the Pauses counter has grown by the
  number of times it went from not paused to paused.\<close>
theorem pause_metrics:
  assumes "pause_inv s" "run_publishes D client_ack ps (s, w) = (flags, s', w')"
  shows "pause_inv s' \<and> sm_pauses (sb_m s') = sm_pauses (sb_m s) + int (rising (sb_paused s) flags)
    \<and> sb_paused s' = last (sb_paused s # flags)"
  using assms
proof (induction ps arbitrary: s w flags)
  case (Cons p ps)
  obtain tn b where p: "p = (tn, b)" by (metis surj_pair)
  obtain s1 w1 where 1: "snd (on_publish D client_ack tn b (s, w)) = (s1, w1)" by (metis surj_pair)
  obtain flags1 where r: "run_publishes D client_ack ps (s1, w1) = (flags1, s', w')" "flags = sb_paused s1 # flags1"
    using Cons.prems(2) p 1 by (auto simp: Let_def split: prod.splits)
  have e: "pause_edge s s1" using on_publish_pause [of "(s, w)" D client_ack tn b] 1 by simp
  with Cons.prems(1) have "pause_inv s1" by (simp add: pause_edge_def)
  from Cons.IH [OF this r(1)] e r(2) show ?case by (auto simp: pause_edge_def)
qed simp


text \<open>A ring with a number of free slots, for the witnesses.\<close>

definition slot_deps :: "nat sub_deps" where
  "slot_deps = \<lparr>sd_enqueue = (\<lambda>m n. if n = 0 then ((StatePause, Some ErrFull), n) else ((StateNormal, None), n - 1)),
     sd_mark_spilled = (\<lambda>n. n), sd_wal = None, sd_now = (\<lambda>n. (1000, n)),
     sd_uuid_parse = demo_uuid_parse, sd_uuid_string = (\<lambda>u. ''cafe'')\<rparr>"

definition demo_subscriber :: "'w subscriber" where
  "demo_subscriber = \<lparr>sb_cfg = c_mqtt demo_config, sb_unparseable = None, sb_m = zero_subscriber_metrics,
     sb_client_id = ''mqtt2db-pod0'', sb_paused = False\<rparr>"

definition demo_topic :: string where "demo_topic = ''t/acme/d/0123456789abcdef/evt''"

definition demo_parsed :: parsed_topic where
  "demo_parsed = \<lparr>pt_tenant = ''acme'', pt_device = map (\<lambda>c. of_nat (of_char c)) ''0123456789abcdef''\<rparr>"

lemma demo_topic_parses: "parse_topic demo_uuid_parse demo_topic = Inr demo_parsed"
  by code_simp

lemma pause_metrics_witness:
  "sm_pauses (sb_m (fst (snd (run_publishes slot_deps (\<lambda>w. (None, w))
     [(demo_topic, None), (demo_topic, None), (demo_topic, None)] (demo_subscriber, 1))))) = 1"
proof -
  let ?ps = "[(demo_topic, None), (demo_topic, None), (demo_topic, None)]"
  let ?run = "run_publishes slot_deps (\<lambda>w. (None, w)) ?ps (demo_subscriber, 1)"
  obtain flags s' w' where run: "?run = (flags, s', w')" by (metis prod_cases3)
  have "fst ?run = [False, True, True]"
    by (simp add: on_publish_def handle_message_def slot_deps_def demo_topic_parses route_message_def
        call_ack_def mark_paused_def clear_pause_def demo_subscriber_def Let_def)
  with run have flags: "flags = [False, True, True]" by simp
  have s: "pause_inv (demo_subscriber :: nat subscriber)" "\<not> sb_paused (demo_subscriber :: nat subscriber)"
    "sm_pauses (sb_m (demo_subscriber :: nat subscriber)) = 0"
    by (simp_all add: pause_inv_def demo_subscriber_def zero_subscriber_metrics_def)
  show ?thesis using pause_metrics [OF s(1) run] s run flags by simp
qed

subsection \<open>Topics that do not parse\<close>

definition bad_row :: "string \<Rightarrow> bytes \<Rightarrow> string \<Rightarrow> string \<Rightarrow> time \<Rightarrow> unparseable" where
  "bad_row tn b cls detail at = \<lparr>u_topic = tn, u_payload = clone_bytes b, u_error_class = cls,
     u_error_detail = detail, u_received_at = at\<rparr>"

text \<open>C27: a topic that does not parse. The publish is acknowledged exactly once whatever happens, and touches
  neither ring nor WAL: the side table is handed one row with topic, payload, the class and detail of the
  parse error and the reception time, and the class's counter or the error counter counts the outcome;
  without a writer the message is dropped. A failed insert is acknowledged all the same.\<close>
theorem parse_failure_acked:
  assumes "parse_topic (sd_uuid_parse D) tn = Inl err" "sd_now D w = (now, w1)"
    and "on_publish D client_ack tn b (s, w) = (ret, s', w')"
  shows "ret = (True, None) \<and> sm_acked (sb_m s') = sm_acked (sb_m s) + 1
    \<and> sm_handler_errors (sb_m s') = sm_handler_errors (sb_m s) + 1
    \<and> (\<exists>cls detail. err = TopicParseError cls detail
         \<and> (case sb_unparseable s of
              None \<Rightarrow> w' = snd (client_ack w1)
                \<and> sm_unparseable_inserted (sb_m s') = sm_unparseable_inserted (sb_m s)
            | Some insert_row \<Rightarrow>
                (case insert_row (bad_row tn b cls detail now) w1 of
                   (r, w2) \<Rightarrow> w' = snd (client_ack w2)
                     \<and> sm_unparseable_inserted (sb_m s') cls
                         = sm_unparseable_inserted (sb_m s) cls + (if r = None then 1 else 0)
                     \<and> sm_unparseable_insert_errors (sb_m s')
                         = sm_unparseable_insert_errors (sb_m s) + (if r = None then 0 else 1))))"
proof -
  obtain cls detail where err: "err = TopicParseError cls detail"
    using assms(1) by (rule parse_topic_error_classes) auto
  show ?thesis
  proof (cases "sb_unparseable s")
    case None
    then show ?thesis using assms err
      by (auto simp: on_publish_def handle_message_def handle_parse_failure_def call_ack_def Let_def
          split: prod.splits)
  next
    case (Some ins)
    obtain r w2 where i: "ins (bad_row tn b cls detail now) w1 = (r, w2)" by (metis surj_pair)
    obtain a w3 where a: "client_ack w2 = (a, w3)" by (metis surj_pair)
    show ?thesis using assms err Some i a
      by (cases r) (auto simp: on_publish_def handle_message_def handle_parse_failure_def call_ack_def Let_def
          bad_row_def)
  qed
qed

lemma parse_failure_acked_witness:
  "sm_acked (sb_m (fst (snd (on_publish slot_deps (\<lambda>w. (None, w)) ''bogus'' (Some [1]) (demo_subscriber, 1))))) = 1"
proof -
  obtain ret s' w' where p: "on_publish slot_deps (\<lambda>w. (None, w)) ''bogus'' (Some [1]) (demo_subscriber, 1)
    = (ret, s', w')" by (metis prod_cases3)
  have "parse_topic (sd_uuid_parse slot_deps) ''bogus'' = Inl (TopicParseError ''topic_structure'' '''')"
    by (simp add: slot_deps_def) code_simp
  moreover have "sd_now slot_deps 1 = (1000, 1)" by (simp add: slot_deps_def)
  ultimately have "sm_acked (sb_m s') = sm_acked (sb_m (demo_subscriber :: nat subscriber)) + 1"
    using parse_failure_acked [OF _ _ p] by blast
  then show ?thesis unfolding p by (simp add: demo_subscriber_def zero_subscriber_metrics_def)
qed

subsection \<open>Dedup keys\<close>

text \<open>What a dedup key identifies. Two messages built by HandleMessage have the same key exactly when they
  come from the same printed device and were received at the same nanosecond: the payload and the topic do
  not enter, and a redelivery at another instant has another key.\<close>
lemma dedup_key_identity:
  "dedup_key (message_of D p tn b now) = dedup_key (message_of D p' tn' b' now')
   \<longleftrightarrow> sd_uuid_string D (pt_device p) = sd_uuid_string D (pt_device p') \<and> unix_nano now = unix_nano now'"
proof -
  have no_colon: "CHR '':'' \<notin> set (rev (show_int x))" for x
  proof -
    have "\<not> is_digit CHR '':''" by (simp add: is_digit_def)
    then show ?thesis using show_int_chars [of "CHR '':''" x] by auto
  qed
  have "make_dedup_key us d t = make_dedup_key us d' t'
      \<longleftrightarrow> rev (show_int (unix_nano t)) @ CHR '':'' # rev (us d) = rev (show_int (unix_nano t')) @ CHR '':'' # rev (us d')"
    for us d t d' t'
  proof -
    have "rev (make_dedup_key us d t) = rev (show_int (unix_nano t)) @ CHR '':'' # rev (us d)" for us d t
      by (simp add: make_dedup_key_def)
    then show ?thesis by (metis rev_rev_ident)
  qed
  then show ?thesis
    by (simp add: message_of_def append_inj_sep [OF no_colon no_colon] show_int_inj) blast
qed


subsection \<open>What the subscriber needs of ring, WAL, clock and broker\<close>

text \<open>
  The promises of the operations HandleMessage calls, over a view of the world: the queue the ring
  holds, the log the WAL holds, and the rest. \<open>inv k\<close> is the invariant of the world with \<open>k\<close> more
  Append calls to come; \<open>ok\<close> the shape of the messages for which the promises are made.
\<close>

locale intake =
  fixes S :: "'w sub_deps"
    and ack :: "'w \<Rightarrow> go_error option \<times> 'w"
    and queue :: "'w \<Rightarrow> message list"
    and log :: "'w \<Rightarrow> message list"
    and rest :: "'w \<Rightarrow> 'r"
    and inv :: "nat \<Rightarrow> 'w \<Rightarrow> bool"
    and ok :: "message \<Rightarrow> bool"
  assumes inv_less: "inv (Suc k) w \<Longrightarrow> inv k w"
    and enq_ok: "inv k w \<Longrightarrow> ok m \<Longrightarrow> sd_enqueue S m w = ((st, None), w') \<Longrightarrow>
      inv k w' \<and> queue w' = queue w @ [m] \<and> log w' = log w \<and> rest w' = rest w"
    and enq_err: "inv k w \<Longrightarrow> sd_enqueue S m w = ((st, Some e), w') \<Longrightarrow>
      inv k w' \<and> queue w' = queue w \<and> log w' = log w \<and> rest w' = rest w \<and> is_err_full e"
    and mark: "inv k w \<Longrightarrow> inv k (sd_mark_spilled S w) \<and> queue (sd_mark_spilled S w) = queue w
      \<and> log (sd_mark_spilled S w) = log w \<and> rest (sd_mark_spilled S w) = rest w"
    and app: "sd_wal S = Some a \<Longrightarrow> inv (Suc k) w \<Longrightarrow> ok m \<Longrightarrow> a m w = (r, w') \<Longrightarrow>
      inv k w' \<and> queue w' = queue w \<and> log w' = (if isl r then log w else log w @ [m]) \<and> rest w' = rest w"
    and clock: "inv k w \<Longrightarrow> sd_now S w = (t, w') \<Longrightarrow>
      inv k w' \<and> queue w' = queue w \<and> log w' = log w \<and> rest w' = rest w"
    and acked: "inv k w \<Longrightarrow> ack w = (x, w') \<Longrightarrow>
      inv k w' \<and> queue w' = queue w \<and> log w' = log w \<and> rest w' = rest w"
begin

definition same :: "'w \<Rightarrow> 'w \<Rightarrow> bool" where
  "same w w' \<longleftrightarrow> queue w' = queue w \<and> log w' = log w \<and> rest w' = rest w"

definition took :: "message \<Rightarrow> 'w \<Rightarrow> 'w \<Rightarrow> bool" where
  "took m w w' \<longleftrightarrow> rest w' = rest w
     \<and> (queue w' = queue w @ [m] \<and> log w' = log w \<or> queue w' = queue w \<and> log w' = log w @ [m])"

lemma route_held:
  assumes "inv (Suc k) w" "ok m" "route_message S m (s, w) = (b, s', w')"
  shows "inv k w'" "if b then took m w w' else same w w'"
    "sb_unparseable s' = sb_unparseable s" "sm_acked (sb_m s') = sm_acked (sb_m s)"
proof -
  have fr: "sb_unparseable (mark_paused x) = sb_unparseable x" "sb_unparseable (clear_pause x) = sb_unparseable x"
    "sm_acked (sb_m (mark_paused x)) = sm_acked (sb_m x)" "sm_acked (sb_m (clear_pause x)) = sm_acked (sb_m x)"
    for x :: "'w subscriber"
    by (simp_all add: mark_paused_def clear_pause_def)
  obtain st err w1 where e: "sd_enqueue S m w = ((st, err), w1)" by (metis surj_pair)
  have "inv k w' \<and> (if b then took m w w' else same w w') \<and> sb_unparseable s' = sb_unparseable s
    \<and> sm_acked (sb_m s') = sm_acked (sb_m s)"
  proof (cases err)
    case None
    with e enq_ok [OF assms(1,2)] inv_less assms(3) fr show ?thesis
      by (auto simp: route_message_def took_def)
  next
    case (Some x)
    with e enq_err [OF assms(1)] have 1: "inv (Suc k) w1" "same w w1" "is_err_full x"
      by (auto simp: same_def)
    show ?thesis
    proof (cases "sd_wal S")
      case None
      with e Some 1 inv_less assms(3) fr show ?thesis by (auto simp: route_message_def)
    next
      case wal: (Some a)
      obtain r w2 where a: "a m w1 = (r, w2)" by (metis surj_pair)
      note 2 = app [OF wal 1(1) assms(2) a]
      show ?thesis
      proof (cases r)
        case (Inl y)
        with e Some wal a 1 2 assms(3) fr show ?thesis by (auto simp: route_message_def same_def)
      next
        case (Inr key)
        with e Some wal a 1 assms(3) have "b" "s' = clear_pause s" "w' = sd_mark_spilled S w2"
          by (auto simp: route_message_def)
        with 1 2 Inr mark [of k w2] fr show ?thesis by (auto simp: took_def same_def)
      qed
    qed
  qed
  then show "inv k w'" "if b then took m w w' else same w w'"
    "sb_unparseable s' = sb_unparseable s" "sm_acked (sb_m s') = sm_acked (sb_m s)" by auto
qed

definition writer_ok :: "'w subscriber \<Rightarrow> bool" where
  \<comment> \<open>the side-table writer leaves ring and log alone\<close>
  "writer_ok s \<longleftrightarrow> (\<forall>u row w r w' k. sb_unparseable s = Some u \<and> u row w = (r, w') \<and> inv k w \<longrightarrow>
     inv k w' \<and> same w w')"

lemma same_trans: "same a b \<Longrightarrow> same b c \<Longrightarrow> same a c"
  by (simp add: same_def)

lemma took_same: "same a b \<Longrightarrow> took m b c \<Longrightarrow> same c d \<Longrightarrow> took m a d"
  by (auto simp: same_def took_def)

lemma publish_held:
  assumes "inv (Suc k) w" "writer_ok s" "on_publish S ack tn b (s, w) = (ret, s', w')"
    and "\<And>p t. parse_topic (sd_uuid_parse S) tn = Inr p \<Longrightarrow> ok (message_of S p tn b t)"
  shows "inv k w' \<and> sb_unparseable s' = sb_unparseable s
    \<and> (case parse_topic (sd_uuid_parse S) tn of
         Inl e \<Rightarrow> same w w' \<and> sm_acked (sb_m s') = sm_acked (sb_m s) + 1
       | Inr p \<Rightarrow>
           took (message_of S p tn b (fst (sd_now S w))) w w' \<and> sm_acked (sb_m s') = sm_acked (sb_m s) + 1
           \<or> same w w' \<and> sm_acked (sb_m s') = sm_acked (sb_m s))"
proof -
  let ?s1 = "s\<lparr>sb_m := (sb_m s)\<lparr>sm_received := sm_received (sb_m s) + 1\<rparr>\<rparr>"
  obtain t w1 where now: "sd_now S w = (t, w1)" by (metis surj_pair)
  have 1: "inv (Suc k) w1" "same w w1" using clock [OF assms(1) now] by (auto simp: same_def)
  have ack_same: "inv k x \<Longrightarrow> ack x = (r, y) \<Longrightarrow> inv k y \<and> same x y" for k r x y
    using acked [of k x r y] by (simp add: same_def)
  show ?thesis
  proof (cases "parse_topic (sd_uuid_parse S) tn")
    case (Inr p)
    let ?m = "message_of S p tn b t"
    obtain y s2 w2 where r: "route_message S ?m (?s1, w1) = (y, s2, w2)" by (metis prod_cases3)
    note h = route_held [OF 1(1) assms(4) [OF Inr] r]
    obtain x w3 where a: "ack w2 = (x, w3)" by (metis surj_pair)
    show ?thesis
    proof (cases y)
      case True
      then have "w' = w3" "sm_acked (sb_m s') = sm_acked (sb_m s2) + 1" "sb_unparseable s' = sb_unparseable s2"
        using assms(3) now Inr r a by (auto simp: on_publish_def handle_message_def call_ack_def Let_def)
      moreover have "took ?m w w3" using took_same [OF 1(2) _ conjunct2 [OF ack_same [OF h(1) a]]] h(2) True by simp
      ultimately show ?thesis using h(3,4) ack_same [OF h(1) a] Inr now by auto
    next
      case False
      then have "w' = w2" "s' = s2"
        using assms(3) now Inr r by (auto simp: on_publish_def handle_message_def Let_def)
      moreover have "same w w2" using same_trans [OF 1(2)] h(2) False by simp
      ultimately show ?thesis using h(1,3,4) Inr by simp
    qed
  next
    case (Inl e)
    have k: "inv k w1" by (rule inv_less [OF 1(1)])
    show ?thesis
    proof (cases "sb_unparseable s")
      case None
      obtain x w3 where a: "ack w1 = (x, w3)" by (metis surj_pair)
      have "inv k w3" "same w w3" using ack_same [OF k a] same_trans [OF 1(2)] by auto
      moreover have "w' = w3 \<and> sm_acked (sb_m s') = sm_acked (sb_m s) + 1 \<and> sb_unparseable s' = sb_unparseable s"
        using assms(3) now Inl None a
        by (auto simp: on_publish_def handle_message_def handle_parse_failure_def call_ack_def Let_def
            split: prod.splits)
      ultimately show ?thesis using Inl by simp
    next
      case (Some u)
      obtain cls detail where cd: "(case as_topic_error e of None \<Rightarrow> (topic_err_structure, '''') | Some cd \<Rightarrow> cd)
        = (cls, detail)" by (metis surj_pair)
      obtain r w2 where u: "u (bad_row tn b cls detail t) w1 = (r, w2)" by (metis surj_pair)
      obtain x w3 where a: "ack w2 = (x, w3)" by (metis surj_pair)
      have 2: "inv k w2 \<and> same w1 w2" using assms(2) Some u k unfolding writer_ok_def by blast
      have "inv k w3" "same w w3"
        using ack_same [OF conjunct1 [OF 2] a] same_trans [OF same_trans [OF 1(2) conjunct2 [OF 2]]] by auto
      moreover have "w' = w3 \<and> sm_acked (sb_m s') = sm_acked (sb_m s) + 1 \<and> sb_unparseable s' = sb_unparseable s"
        using assms(3) now Inl Some cd u [unfolded bad_row_def] a
        by (cases r) (auto simp: on_publish_def handle_message_def handle_parse_failure_def call_ack_def Let_def)
      ultimately show ?thesis using Inl by simp
    qed
  qed
qed

end

end
