(* ===== verification/Delivery.thy ===== *)
theory Delivery
  imports Ledger Subscriber FlusherLaws
begin

text \<open>
  Subscriber and flusher together, over any ring, WAL, database and dead-letter sink that keep their
  promises: the locale \<open>pipeline\<close> extends what the subscriber needs by what the flusher needs, and
  every operation of the two is a run of the ledger.
\<close>

subsection \<open>Runs of the service\<close>

text \<open>
  A run is a sequence of publishes delivered by the broker and of rounds of a flush worker. It yields
  the messages it acknowledged and the ticks of the worker.
\<close>

datatype sys_event = Publish string bytes | Round

type_synonym 'w service = "'w subscriber \<times> flusher \<times> 'w"

definition accepted_of :: "'w sub_deps \<Rightarrow> string \<Rightarrow> bytes \<Rightarrow> 'w \<Rightarrow> message list" where
  \<comment> \<open>the message HandleMessage builds, if the topic parses\<close>
  "accepted_of S tn b w = (case parse_topic (sd_uuid_parse S) tn of
     Inl e \<Rightarrow> [] | Inr p \<Rightarrow> [message_of S p tn b (fst (sd_now S w))])"

fun run_service ::
  "'w sub_deps \<Rightarrow> ('w \<Rightarrow> go_error option \<times> 'w) \<Rightarrow> 'w deps \<Rightarrow> sys_event list \<Rightarrow> 'w service
   \<Rightarrow> message list \<times> tick list \<times> 'w service" where
  "run_service S ack D [] st = ([], [], st)"
| "run_service S ack D (ev # evs) st =
     (case st of (s, f, w) \<Rightarrow>
        (case ev of
           Publish tn b \<Rightarrow>
             (case on_publish S ack tn b (s, w) of (ret, s1, w1) \<Rightarrow>
                let new = (if sm_acked (sb_m s1) = sm_acked (sb_m s) then [] else accepted_of S tn b w)
                in (case run_service S ack D evs (s1, f, w1) of (ms, ts, st') \<Rightarrow> (new @ ms, ts, st')))
         | Round \<Rightarrow>
             (case worker_tick D (f, w) of (t, f1, w1) \<Rightarrow>
                (case run_service S ack D evs (s, f1, w1) of (ms, ts, st') \<Rightarrow> (ms, t # ts, st')))))"

definition batch_limit :: "flusher_config \<Rightarrow> nat" where
  "batch_limit cfg = nat (max (batch_size cfg) (elevated_batch_size cfg))"

definition appends :: "flusher_config \<Rightarrow> sys_event list \<Rightarrow> nat" where
  \<comment> \<open>a bound on the Append calls of a run\<close>
  "appends cfg evs = sum_list (map (\<lambda>ev. case ev of Publish tn b \<Rightarrow> 1 | Round \<Rightarrow> batch_limit cfg) evs)"

lemma worker_tick_cfg: "fl_cfg (fst (snd (worker_tick D fw))) = fl_cfg (fst fw)"
proof -
  have "adaptive_steps (fd_now D) fw g \<Longrightarrow> fl_cfg (fst g) = fl_cfg (fst fw)" for g
    by (induction rule: rtranclp_induct) (auto dest: adaptive_step_frame)
  then show ?thesis using worker_tick_adaptive [of D fw] by blast
qed

locale pipeline = intake S ack queue log "\<lambda>w. (rows w, letters w)" inv ok
  for S :: "'w sub_deps" and ack :: "'w \<Rightarrow> go_error option \<times> 'w" and queue :: "'w \<Rightarrow> message list"
    and log :: "'w \<Rightarrow> message list" and rows :: "'w \<Rightarrow> sql_row list" and letters :: "'w \<Rightarrow> 'l list"
    and inv :: "nat \<Rightarrow> 'w \<Rightarrow> bool" and ok :: "message \<Rightarrow> bool" +
  fixes D :: "'w deps" and holds :: "'l \<Rightarrow> message \<Rightarrow> bool"
  assumes deq: "inv k w \<Longrightarrow> fd_dequeue D lim w = (ms, w') \<Longrightarrow>
      inv k w' \<and> ms = take (nat lim) (queue w) \<and> queue w' = drop (nat lim) (queue w) \<and> log w' = log w \<and> rows w' = rows w \<and> letters w' = letters w"
    and drain: "fd_wal D = Some s \<Longrightarrow> inv k w \<Longrightarrow> src_drain s lim w = (rd, w') \<Longrightarrow>
      inv k w' \<and> queue w' = queue w
      \<and> (case rd of Inl e \<Rightarrow> log w' = log w | Inr ms \<Rightarrow> ms = take (nat lim) (log w) \<and> log w' = drop (nat lim) (log w))
      \<and> rows w' = rows w \<and> letters w' = letters w"
    and again: "fd_wal D = Some s \<Longrightarrow> inv (Suc k) w \<Longrightarrow> ok m \<Longrightarrow> src_append s m w = (ra, w') \<Longrightarrow>
      inv k w' \<and> queue w' = queue w \<and> log w' = (if isl ra then log w else log w @ [m])
      \<and> rows w' = rows w \<and> letters w' = letters w"
    and copy_ok: "inv k w \<Longrightarrow> fd_copy D ms w = (Inr n, w') \<Longrightarrow>
      inv k w' \<and> rows w' = rows w @ new_rows (rows w) (map copy_row ms)
      \<and> n = int (length (new_rows (rows w) (map copy_row ms)))"
    and copy_err: "inv k w \<Longrightarrow> fd_copy D ms w = (Inl e, w') \<Longrightarrow>
      inv k w' \<and> (rows w' = rows w \<or> rows w' = rows w @ new_rows (rows w) (map copy_row ms))"
    and copy_frame: "fd_copy D ms w = (rc, w') \<Longrightarrow> queue w' = queue w \<and> log w' = log w \<and> letters w' = letters w"
    and letter: "inv k w \<Longrightarrow> fd_write D m le w = (rw, w') \<Longrightarrow>
      inv k w' \<and> queue w' = queue w \<and> log w' = log w \<and> rows w' = rows w
      \<and> set (letters w) \<subseteq> set (letters w') \<and> (rw = None \<longrightarrow> (\<exists>x \<in> set (letters w'). holds x m))"
    and tick: "inv k w \<Longrightarrow> fd_now D w = (t, w') \<Longrightarrow> inv k w' \<and> queue w' = queue w \<and> log w' = log w
      \<and> rows w' = rows w \<and> letters w' = letters w"
    and wait: "inv k w \<Longrightarrow> fd_wait D d w = (c, w') \<Longrightarrow> inv k w' \<and> queue w' = queue w \<and> log w' = log w
      \<and> rows w' = rows w \<and> letters w' = letters w"

sublocale pipeline \<subseteq> ins: inserter "fd_copy D" rows "inv k" for k
  by unfold_locales (rule copy_ok, assumption+, rule copy_err)

context pipeline
begin

definition kept :: "'w \<Rightarrow> 'w \<Rightarrow> bool" where
  "kept w w' \<longleftrightarrow> queue w' = queue w \<and> log w' = log w \<and> letters w' = letters w"

lemma kept_trans: "kept a b \<Longrightarrow> kept b c \<Longrightarrow> kept a c"
  by (simp add: kept_def)

lemma record_latency_same:
  assumes "inv k w" "record_latency (fd_now D) d (f, w) = (f', w')"
  shows "inv k w' \<and> kept w w' \<and> rows w' = rows w"
proof -
  obtain t w1 where n: "fd_now D w = (t, w1)" by (metis surj_pair)
  have "w' = w \<or> w' = w1"
    using assms(2) n by (cases "fl_mode (push_latency d f)") (auto simp: record_latency_def Let_def split: if_splits)
  then show ?thesis using tick [OF assms(1) n] assms(1) by (auto simp: kept_def)
qed

lemma enter_critical_same:
  assumes "inv k w" "enter_critical (fd_now D) (f, w) = (f', w')"
  shows "inv k w' \<and> kept w w' \<and> rows w' = rows w"
  using assms tick [OF assms(1)] by (auto simp: enter_critical_def Let_def kept_def split: prod.splits)

lemma attempt_stored:
  assumes "inv k w" "ins.stored batch before (rows w)" "attempt D batch (f, w) = (r, f', w')"
  shows "inv k w' \<and> kept w w' \<and> ins.stored batch before (rows w')
    \<and> (r = None \<longrightarrow> rows w' = before @ new_rows before (map copy_row batch))"
proof -
  obtain t1 w1 where 1: "fd_now D w = (t1, w1)" by (metis surj_pair)
  obtain x w2 where 2: "fd_copy D batch w1 = (x, w2)" by (metis surj_pair)
  obtain t2 w3 where 3: "fd_now D w2 = (t2, w3)" by (metis surj_pair)
  have i1: "inv k w1" "kept w w1" "rows w1 = rows w" using tick [OF assms(1) 1] by (auto simp: kept_def)
  have k2: "kept w1 w2" using copy_frame [OF 2] by (simp add: kept_def)
  have st: "ins.stored batch before (rows w1)" using assms(2) i1(3) by simp
  show ?thesis
  proof (cases x)
    case (Inl e)
    note s = ins.stored_err [OF i1(1) st 2 [unfolded Inl]]
    have 4: "inv k w3" "kept w2 w3" "rows w3 = rows w2" using tick [OF s(1) 3] by (auto simp: kept_def)
    obtain g where "enter_critical (fd_now D) (g, w3) = (f', w')" "r = Some e"
      using assms(3) 1 2 3 Inl by (auto simp: attempt_def Let_def)
    with enter_critical_same [OF 4(1)] have "inv k w' \<and> kept w3 w' \<and> rows w' = rows w3" by blast
    with 4 s i1 k2 \<open>r = Some e\<close> show ?thesis by (auto intro: kept_trans)
  next
    case (Inr n)
    note s = ins.stored_ok [OF i1(1) st 2 [unfolded Inr]]
    have 4: "inv k w3" "kept w2 w3" "rows w3 = rows w2" using tick [OF s(1) 3] by (auto simp: kept_def)
    obtain g d where "record_latency (fd_now D) d (g, w3) = (f', w')"
      using assms(3) 1 2 3 Inr by (auto simp: attempt_def Let_def)
    with record_latency_same [OF 4(1)] have "inv k w' \<and> kept w3 w' \<and> rows w' = rows w3" by blast
    with 4 s i1 k2 show ?thesis by (auto simp: ins.stored_def intro: kept_trans)
  qed
qed

lemma attempt_loop_stored:
  assumes "inv k w" "ins.stored batch before (rows w)"
    and "attempt_loop D batch a n delay le (f, w) = (lr, f', w')"
  shows "inv k w' \<and> kept w w' \<and> ins.stored batch before (rows w')
    \<and> (lr = LoopFlushed \<longrightarrow> rows w' = before @ new_rows before (map copy_row batch))"
  using assms
proof (induction n arbitrary: a delay le f w)
  case 0
  then show ?case by (auto simp: kept_def)
next
  case (Suc n)
  have go: "inv k w' \<and> kept w1 w' \<and> ins.stored batch before (rows w')
      \<and> (lr = LoopFlushed \<longrightarrow> rows w' = before @ new_rows before (map copy_row batch))"
    if h: "inv k w1" "ins.stored batch before (rows w1)"
      "attempt_then D batch b n d (g, w1) = (lr, f', w')" for b d g w1
  proof -
    obtain r g1 w2 where at: "attempt D batch (g, w1) = (r, g1, w2)" by (metis prod_cases3)
    note s = attempt_stored [OF h(1,2) at]
    show ?thesis
    proof (cases r)
      case None
      then show ?thesis using h(3) at s by (auto simp: attempt_then_def)
    next
      case (Some e)
      then have "attempt_loop D batch (Suc b) n d (Some e) (g1, w2) = (lr, f', w')"
        using h(3) at by (simp add: attempt_then_def)
      from Suc.IH [OF _ _ this] s show ?thesis by (auto intro: kept_trans)
    qed
  qed
  show ?case
  proof (cases "a = 0")
    case True
    then have "attempt_then D batch 0 n delay (f, w) = (lr, f', w')"
      using Suc.prems(3) by (simp add: attempt_loop_Suc del: attempt_loop.simps)
    then show ?thesis by (rule go [OF Suc.prems(1,2)])
  next
    case False
    obtain c w1 where c: "fd_wait D delay w = (c, w1)" by (metis surj_pair)
    have i: "inv k w1" "kept w w1" "rows w1 = rows w" using wait [OF Suc.prems(1) c] by (auto simp: kept_def)
    show ?thesis
    proof (cases c)
      case True
      then show ?thesis using Suc.prems False c i
        by (auto simp: attempt_loop_Suc Let_def simp del: attempt_loop.simps)
    next
      case nc: False
      obtain g where "attempt_then D batch a n (i64 (delay * 2)) (g, w1) = (lr, f', w')"
        using Suc.prems(3) False c nc by (auto simp: attempt_loop_Suc Let_def simp del: attempt_loop.simps)
      from go [OF i(1) _ this] Suc.prems(2) i show ?thesis by (auto intro: kept_trans)
    qed
  qed
qed

lemma inv_weaken: "inv (n + k) w \<Longrightarrow> inv k w"
  by (induction n) (auto intro: inv_less)

lemma requeue_loop_log:
  assumes "fd_wal D = Some s" "inv (length ms + k) w" "\<forall>m \<in> set ms. ok m"
    and "requeue_loop s ms (f, w) = (r, f', w')"
  shows "inv k w' \<and> queue w' = queue w \<and> rows w' = rows w \<and> letters w' = letters w
    \<and> (\<exists>pre post. ms = pre @ post \<and> log w' = log w @ pre \<and> (r = None \<longrightarrow> post = []))"
  using assms(2-4)
proof (induction ms arbitrary: f w)
  case (Cons m ms)
  obtain x w1 where a: "src_append s m w = (x, w1)" by (metis surj_pair)
  have i: "inv (length ms + k) w1" "queue w1 = queue w" "log w1 = (if isl x then log w else log w @ [m])"
    "rows w1 = rows w" "letters w1 = letters w"
    using again [OF assms(1) _ _ a, of "length ms + k"] Cons.prems(1,2) by auto
  show ?case
  proof (cases x)
    case (Inl e)
    have "inv k w1" by (rule inv_weaken [OF i(1)])
    then show ?thesis using Cons.prems(3) a i Inl by (auto intro!: exI [of _ "[]"])
  next
    case (Inr key)
    then obtain f1 where r: "requeue_loop s ms (f1, w1) = (r, f', w')"
      using Cons.prems(3) a by auto
    from Cons.IH [OF i(1) _ r] Cons.prems(2) obtain pre post where h: "inv k w'" "queue w' = queue w1"
      "rows w' = rows w1" "letters w' = letters w1" "ms = pre @ post" "log w' = log w1 @ pre"
      "r = None \<longrightarrow> post = []" by auto
    have "m # ms = (m # pre) @ post" "log w' = log w @ (m # pre)" using h i(3) Inr by auto
    with h i show ?thesis by metis
  qed
qed auto

lemma dead_loop_letters:
  assumes "inv k w" "dead_loop D le ms (f, w) = (f', w')"
  shows "inv k w' \<and> queue w' = queue w \<and> log w' = log w \<and> rows w' = rows w
    \<and> set (letters w) \<subseteq> set (letters w')
    \<and> (\<exists>gone lost. mset ms = mset gone + mset lost
         \<and> fm_dead_lettered (fl_m f') = fm_dead_lettered (fl_m f) + int (length gone)
         \<and> (\<forall>m \<in> set gone. \<exists>x \<in> set (letters w'). holds x m))"
  using assms
proof (induction ms arbitrary: f w)
  case Nil
  then show ?case by (auto intro!: exI [of _ "[]"])
next
  case (Cons m ms)
  obtain x w1 where a: "fd_write D m le w = (x, w1)" by (metis surj_pair)
  note l = letter [OF Cons.prems(1) a]
  show ?case
  proof (cases x)
    case (Some e)
    then have r: "dead_loop D le ms (f, w1) = (f', w')" using Cons.prems(2) a by simp
    from Cons.IH [OF _ r] l obtain gone lost where h: "inv k w'" "queue w' = queue w1" "log w' = log w1"
      "rows w' = rows w1" "set (letters w1) \<subseteq> set (letters w')" "mset ms = mset gone + mset lost"
      "fm_dead_lettered (fl_m f') = fm_dead_lettered (fl_m f) + int (length gone)"
      "\<forall>m \<in> set gone. \<exists>x \<in> set (letters w'). holds x m" by auto
    have "mset (m # ms) = mset gone + mset (m # lost)" using h(6) by simp
    with h l show ?thesis by (metis subset_trans)
  next
    case None
    let ?f = "f\<lparr>fl_m := (fl_m f)\<lparr>fm_dead_lettered := fm_dead_lettered (fl_m f) + 1\<rparr>\<rparr>"
    have r: "dead_loop D le ms (?f, w1) = (f', w')" using Cons.prems(2) a None by simp
    from Cons.IH [OF _ r] l obtain gone lost where h: "inv k w'" "queue w' = queue w1" "log w' = log w1"
      "rows w' = rows w1" "set (letters w1) \<subseteq> set (letters w')" "mset ms = mset gone + mset lost"
      "fm_dead_lettered (fl_m f') = fm_dead_lettered (fl_m ?f) + int (length gone)"
      "\<forall>m \<in> set gone. \<exists>x \<in> set (letters w'). holds x m" by auto
    have "mset (m # ms) = mset (m # gone) + mset lost"
      "fm_dead_lettered (fl_m f') = fm_dead_lettered (fl_m f) + int (length (m # gone))"
      "\<forall>n \<in> set (m # gone). \<exists>x \<in> set (letters w'). holds x n"
      using h l None by auto
    with h(1-5) l show ?thesis by (metis subset_trans)
  qed
qed

lemma dead_loop_all:
  "(\<And>m e w. fst (fd_write D m e w) = None) \<Longrightarrow> dead_loop D le ms (f, w) = (f', w')
    \<Longrightarrow> fm_dead_lettered (fl_m f') = fm_dead_lettered (fl_m f) + int (length ms)"
proof (induction ms arbitrary: f w)
  case (Cons m ms)
  obtain x w1 where a: "fd_write D m le w = (x, w1)" by (metis surj_pair)
  moreover have "x = None" using Cons.prems(1) [of m le w] a by simp
  ultimately show ?case using Cons.IH [OF Cons.prems(1)] Cons.prems(2) by fastforce
qed simp

text \<open>What each outcome of flushWithRetry leaves behind.\<close>

lemma flush_effect:
  assumes "inv (length batch + k) w" "\<forall>m \<in> set batch. ok m"
    and "flush_with_retry D batch (f, w) = (out, f', w')"
  shows "inv k w' \<and> queue w' = queue w \<and> ins.stored batch (rows w) (rows w')
    \<and> set (letters w) \<subseteq> set (letters w')
    \<and> (out = Flushed \<longrightarrow> kept w w' \<and> rows w' = rows w @ new_rows (rows w) (map copy_row batch))
    \<and> (out = Cancelled \<or> out = Panicked \<longrightarrow> kept w w')
    \<and> (out = Requeued \<longrightarrow> log w' = log w @ batch \<and> letters w' = letters w)
    \<and> (out = DeadLettered \<longrightarrow> (\<exists>pre post. batch = pre @ post \<and> log w' = log w @ pre)
         \<and> (\<exists>gone lost. mset batch = mset gone + mset lost
              \<and> (\<forall>m \<in> set gone. \<exists>x \<in> set (letters w'). holds x m)
              \<and> ((\<forall>m e w. fst (fd_write D m e w) = None) \<longrightarrow> lost = [])))"
proof -
  let ?n = "nat (max_retries (fl_cfg f) + 1)"
  obtain lr f1 w1 where l: "attempt_loop D batch 0 ?n second None (f, w) = (lr, f1, w1)" by (metis prod_cases3)
  note 1 = attempt_loop_stored [OF assms(1) ins.stored_refl l]
  have k1: "inv k w1" using 1 inv_weaken by blast
  have dead: ?thesis if d: "out = DeadLettered" "dead_loop D le batch (f2, w2) = (f', w')" "inv k w2"
    "queue w2 = queue w" "letters w2 = letters w" "rows w2 = rows w1"
    "\<exists>pre post. batch = pre @ post \<and> log w2 = log w @ pre" for le f2 w2
  proof -
    note dl = dead_loop_letters [OF d(3,2)]
    then obtain gone lost where g: "mset batch = mset gone + mset lost"
      "fm_dead_lettered (fl_m f') = fm_dead_lettered (fl_m f2) + int (length gone)"
      "\<forall>m \<in> set gone. \<exists>x \<in> set (letters w'). holds x m" by blast
    have "lost = []" if "\<forall>m e w. fst (fd_write D m e w) = None"
    proof -
      have "length gone = length batch" using dead_loop_all [OF _ d(2)] that g(2) by simp
      moreover have "length batch = length gone + length lost" using g(1) by (metis size_mset size_union)
      ultimately show ?thesis by simp
    qed
    with g have "\<exists>gone lost. mset batch = mset gone + mset lost
        \<and> (\<forall>m \<in> set gone. \<exists>x \<in> set (letters w'). holds x m)
        \<and> ((\<forall>m e w. fst (fd_write D m e w) = None) \<longrightarrow> lost = [])" by blast
    moreover have "inv k w'" "queue w' = queue w" "log w' = log w2" "rows w' = rows w1"
      "set (letters w) \<subseteq> set (letters w')" using dl d by auto
    ultimately show ?thesis using d(1,7) 1 by simp
  qed
  show ?thesis
  proof (cases lr)
    case LoopFlushed
    then have "out = Flushed" "w' = w1" using assms(3) l by (auto simp: flush_with_retry_def)
    with 1 k1 LoopFlushed show ?thesis by (auto simp: kept_def)
  next
    case LoopCancelled
    then have "out = Cancelled" "w' = w1" using assms(3) l by (auto simp: flush_with_retry_def)
    with 1 k1 show ?thesis by (auto simp: kept_def)
  next
    case (LoopExhausted x)
    show ?thesis
    proof (cases x)
      case None
      then have "out = Panicked" "w' = w1" using assms(3) l LoopExhausted by (auto simp: flush_with_retry_def)
      with 1 k1 show ?thesis by (auto simp: kept_def)
    next
      case (Some e)
      show ?thesis
      proof (cases "if is_poison_error (Some e) then None else fd_wal D")
        case None
        then have "out = DeadLettered" "dead_loop D (Some e) batch (f1, w1) = (f', w')"
          using assms(3) l LoopExhausted Some by (auto simp: flush_with_retry_def split: if_splits)
        from dead [OF this k1] 1 show ?thesis by (auto simp: kept_def)
      next
        case wal: (Some s)
        then have s: "fd_wal D = Some s" by (auto split: if_splits)
        obtain r f2 w2 where q: "requeue_loop s batch (f1, w1) = (r, f2, w2)" by (metis prod_cases3)
        note rq = requeue_loop_log [OF s conjunct1 [OF 1] assms(2) q]
        show ?thesis
        proof (cases r)
          case None
          then have "out = Requeued" "w' = w2"
            using assms(3) l LoopExhausted Some wal q by (auto simp: flush_with_retry_def)
          with rq 1 None show ?thesis by (auto simp: kept_def)
        next
          case (Some e')
          then have o: "out = DeadLettered" "dead_loop D (Some e) batch (f2, w2) = (f', w')"
            using assms(3) l LoopExhausted \<open>x = Some e\<close> wal q by (auto simp: flush_with_retry_def)
          from dead [OF this] rq 1 show ?thesis by (auto simp: kept_def)
        qed
      qed
    qed
  qed
qed

subsection \<open>Simulation by the ledger\<close>

definition sim :: "ledger \<Rightarrow> 'w \<Rightarrow> bool" where
  "sim g w \<longleftrightarrow> lg_queue g = queue w \<and> lg_log g = log w \<and> lg_rows g = rows w
     \<and> (\<forall>m \<in># lg_letters g. \<exists>x \<in> set (letters w). holds x m)"

definition sound :: "'w \<Rightarrow> bool" where
  "sound w \<longleftrightarrow> (\<forall>m \<in> set (queue w) \<union> set (log w). ok m)"

lemma pull_held:
  assumes "inv k w" "pull_batch D (f, w) = (batch, w')" "0 \<le> batch_size_for_mode f"
  shows "inv k w' \<and> rows w' = rows w \<and> letters w' = letters w
    \<and> int (length batch) \<le> batch_size_for_mode f
    \<and> (\<exists>q l. batch = q @ l \<and> queue w = q @ queue w' \<and> log w = l @ log w')"
proof -
  let ?n = "batch_size_for_mode f"
  obtain q w1 where q: "fd_dequeue D ?n w = (q, w1)" by (metis surj_pair)
  note dq = deq [OF assms(1) q]
  show ?thesis
  proof (cases "fd_wal D")
    case None
    then have "batch = q" "w' = w1" using assms(2) q by (auto simp: pull_batch_def Let_def)
    with dq assms(3) show ?thesis
      by (intro conjI exI [of _ q] exI [of _ "[]"]) (auto simp: min_def)
  next
    case (Some s)
    obtain r w2 where r: "src_drain s (?n - int (length q)) w1 = (r, w2)" by (metis surj_pair)
    show ?thesis
    proof (cases "int (length q) < ?n")
      case True
      define l where "l = (case r of Inl e \<Rightarrow> [] | Inr ms \<Rightarrow> ms)"
      have b: "batch = q @ l" "w' = w2"
        using assms(2) q Some r True by (cases r; auto simp: pull_batch_def Let_def l_def)+
      have dr: "log w1 = l @ log w2 \<and> int (length l) \<le> ?n - int (length q) \<and> inv k w2 \<and> queue w2 = queue w1
          \<and> rows w2 = rows w1 \<and> letters w2 = letters w1"
        using drain [OF Some _ r, of k] dq True by (cases r) (auto simp: l_def min_def)
      then show ?thesis using dq b by (intro conjI exI [of _ q] exI [of _ l]) auto
    next
      case False
      then have "batch = q" "w' = w1" using assms(2) q Some by (auto simp: pull_batch_def Let_def)
      with dq assms(3) show ?thesis
        by (intro conjI exI [of _ q] exI [of _ "[]"]) (auto simp: min_def)
    qed
  qed
qed

definition quiet :: "flush_outcome \<Rightarrow> bool" where
  \<comment> \<open>the outcomes that lose nothing, given a sink that takes its letters\<close>
  "quiet out \<longleftrightarrow> out \<noteq> Cancelled \<and> out \<noteq> Panicked
     \<and> (out = DeadLettered \<longrightarrow> (\<forall>m e w. fst (fd_write D m e w) = None))"

lemma dropped_all:
  "lg_flight g i = fl \<Longrightarrow> ledger_step i g (g\<lparr>lg_lost := lg_lost g + fl, lg_flight := (lg_flight g)(i := {#})\<rparr>)"
  using ledger_step.dropped [of g i fl "{#}"] by simp

lemma flush_sim:
  assumes "inv (length batch + k) w" "\<forall>m \<in> set batch. ok m" "sim g w" "lg_flight g i = mset batch"
    and "flush_with_retry D batch (f, w) = (out, f', w')"
  shows "\<exists>h. ledger_steps i g h \<and> sim h w' \<and> lg_flight h i = {#} \<and> lg_taken h = lg_taken g
    \<and> (quiet out \<longrightarrow> lg_lost h = lg_lost g)"
proof -
  note fe = flush_effect [OF assms(1,2,5)]
  let ?new = "lg_rows g @ new_rows (lg_rows g) (map copy_row batch)"
  define g1 where "g1 = g\<lparr>lg_rows := rows w'\<rparr>"
  have rows: "lg_rows g = rows w" using assms(3) by (simp add: sim_def)
  have st1: "ledger_steps i g g1"
  proof (cases "rows w' = rows w")
    case True
    then have "g1 = g" using rows unfolding g1_def by (cases g) simp
    then show ?thesis by simp
  next
    case False
    then have "rows w' = ?new" using fe rows by (simp add: ins.stored_def)
    moreover have "ledger_step i g (g\<lparr>lg_rows := ?new\<rparr>)" by (rule ledger_step.unsure [OF assms(4)])
    ultimately show ?thesis unfolding g1_def by auto
  qed
  have f1: "lg_flight g1 i = mset batch" "lg_lost g1 = lg_lost g" "lg_taken g1 = lg_taken g"
    "lg_letters g1 = lg_letters g" "lg_log g1 = log w" "lg_queue g1 = queue w'" "lg_rows g1 = rows w'"
    using assms(3,4) fe by (simp_all add: g1_def sim_def)
  have let_mono: "\<forall>m \<in># lg_letters g. \<exists>x \<in> set (letters w'). holds x m"
    using assms(3) fe unfolding sim_def by blast
  show ?thesis
  proof (cases out)
    case Flushed
    then have "rows w' = ?new" "kept w w'" using fe rows by auto
    moreover have "ledger_step i g (g\<lparr>lg_rows := ?new, lg_flight := (lg_flight g)(i := {#})\<rparr>)"
      by (rule ledger_step.stored [OF assms(4)])
    moreover have "sim (g\<lparr>lg_rows := ?new, lg_flight := (lg_flight g)(i := {#})\<rparr>) w'"
      using assms(3) calculation(1,2) by (simp add: sim_def kept_def)
    ultimately show ?thesis
      by (intro exI [of _ "g\<lparr>lg_rows := ?new, lg_flight := (lg_flight g)(i := {#})\<rparr>"]) auto
  next
    case Requeued
    let ?h = "g1\<lparr>lg_log := lg_log g1 @ batch, lg_flight := (lg_flight g1)(i := {#})\<rparr>"
    have "ledger_steps i g1 ?h" by (rule steps_requeue) (simp add: f1)
    with st1 have "ledger_steps i g ?h" by (rule rtranclp_trans)
    moreover have "sim ?h w'" using fe Requeued f1 let_mono by (simp add: sim_def)
    ultimately show ?thesis using f1 by (intro exI [of _ ?h]) simp
  next
    case DeadLettered
    with fe obtain pre post gone lost where d: "batch = pre @ post" "log w' = log w @ pre"
      "mset batch = mset gone + mset lost" "\<forall>m \<in> set gone. \<exists>x \<in> set (letters w'). holds x m"
      "(\<forall>m e w. fst (fd_write D m e w) = None) \<longrightarrow> lost = []" by blast
    define g2 where "g2 = g1\<lparr>lg_log := lg_log g1 @ pre\<rparr>"
    define g3 where "g3 = g2\<lparr>lg_letters := lg_letters g2 + mset gone, lg_flight := (lg_flight g2)(i := mset lost)\<rparr>"
    define g4 where "g4 = g3\<lparr>lg_lost := lg_lost g3 + mset lost, lg_flight := (lg_flight g3)(i := {#})\<rparr>"
    have "ledger_steps i g1 g2" unfolding g2_def by (rule steps_copied) (simp add: f1(1) d(1))
    moreover have "ledger_steps i g2 g3" unfolding g3_def
      by (rule steps_lettered) (use d f1 in \<open>simp add: g2_def\<close>)
    moreover have "ledger_step i g3 g4" unfolding g4_def
      by (rule dropped_all) (simp add: g3_def)
    ultimately have "ledger_steps i g g4" using st1 by (meson rtranclp.rtrancl_into_rtrancl rtranclp_trans)
    moreover have "sim g4 w'"
      using fe f1 d let_mono by (auto simp: sim_def g4_def g3_def g2_def)
    moreover have "quiet out \<Longrightarrow> lost = []" using d(5) DeadLettered by (simp add: quiet_def)
    ultimately show ?thesis using f1 by (intro exI [of _ g4]) (simp add: g4_def g3_def g2_def)
  next
    case Cancelled
    let ?h = "g1\<lparr>lg_lost := lg_lost g1 + mset batch, lg_flight := (lg_flight g1)(i := {#})\<rparr>"
    have "ledger_step i g1 ?h" by (rule dropped_all) (simp add: f1)
    with st1 have "ledger_steps i g ?h" by simp
    moreover have "sim ?h w'" using fe Cancelled f1 let_mono by (simp add: sim_def kept_def)
    ultimately show ?thesis using f1 Cancelled by (intro exI [of _ ?h]) (simp add: quiet_def)
  next
    case Panicked
    let ?h = "g1\<lparr>lg_lost := lg_lost g1 + mset batch, lg_flight := (lg_flight g1)(i := {#})\<rparr>"
    have "ledger_step i g1 ?h" by (rule dropped_all) (simp add: f1)
    with st1 have "ledger_steps i g ?h" by simp
    moreover have "sim ?h w'" using fe Panicked f1 let_mono by (simp add: sim_def kept_def)
    ultimately show ?thesis using f1 Panicked by (intro exI [of _ ?h]) (simp add: quiet_def)
  qed
qed

lemma sound_pull: "sound w \<Longrightarrow> queue w = q @ queue w' \<Longrightarrow> log w = l @ log w' \<Longrightarrow>
    sound w' \<and> (\<forall>m \<in> set (q @ l). ok m)"
  by (auto simp: sound_def)

lemma sim_pulled:
  assumes "sim g w" "lg_flight g i = {#}" "queue w = q @ queue w'" "log w = l @ log w'"
    "rows w' = rows w" "letters w' = letters w"
  shows "\<exists>h. ledger_steps i g h \<and> sim h w' \<and> lg_flight h i = mset (q @ l)
    \<and> lg_taken h = lg_taken g \<and> lg_lost h = lg_lost g"
proof -
  define g1 where "g1 = g\<lparr>lg_queue := queue w', lg_flight := (lg_flight g)(i := lg_flight g i + mset q)\<rparr>"
  define g2 where "g2 = g1\<lparr>lg_log := log w', lg_flight := (lg_flight g1)(i := lg_flight g1 i + mset l)\<rparr>"
  have "ledger_step i g g1" unfolding g1_def by (rule ledger_step.pulled) (use assms in \<open>simp add: sim_def\<close>)
  moreover have "ledger_step i g1 g2" unfolding g2_def
    by (rule ledger_step.drained) (use assms in \<open>simp add: sim_def g1_def\<close>)
  ultimately have "ledger_steps i g g2" by simp
  moreover have "sim g2 w'" using assms by (simp add: sim_def g2_def g1_def)
  ultimately show ?thesis using assms(2) by (intro exI [of _ g2]) (simp add: g2_def g1_def)
qed

lemma tick_sim:
  assumes "inv (batch_limit (fl_cfg f) + k) w" "sound w" "sim g w" "lg_flight g i = {#}"
    and "0 \<le> batch_size (fl_cfg f)" "0 \<le> elevated_batch_size (fl_cfg f)"
    and "worker_tick D (f, w) = (t, f', w')"
  shows "inv k w' \<and> sound w' \<and> (\<exists>h. ledger_steps i g h \<and> sim h w' \<and> lg_flight h i = {#}
    \<and> lg_taken h = lg_taken g \<and> ((\<forall>out. t = Ran out \<longrightarrow> quiet out) \<longrightarrow> lg_lost h = lg_lost g))"
proof -
  let ?B = "batch_limit (fl_cfg f)"
  have go: ?thesis if i: "inv (?B + k) w1" "sound w1" "sim g w1"
    and r: "(case pull_batch D (f, w1) of (batch, w2) \<Rightarrow> if batch = [] then (Idle, f, w2)
        else (case flush_with_retry D batch (f, w2) of (r, fw1) \<Rightarrow> (Ran r, fw1))) = (t, f', w')" for w1
  proof -
    obtain batch w2 where p: "pull_batch D (f, w1) = (batch, w2)" by (metis surj_pair)
    have n0: "0 \<le> batch_size_for_mode f" using assms(5,6) by (simp add: batch_size_for_mode_def)
    note ph = pull_held [OF i(1) p n0]
    then obtain q l where ql: "batch = q @ l" "queue w1 = q @ queue w2" "log w1 = l @ log w2" by blast
    note sp = sound_pull [OF i(2) ql(2,3)]
    obtain h where h: "ledger_steps i g h" "sim h w2" "lg_flight h i = mset batch" "lg_taken h = lg_taken g"
      "lg_lost h = lg_lost g" using sim_pulled [OF i(3) assms(4) ql(2,3)] ph ql(1) by auto
    have len: "length batch \<le> ?B" using ph by (auto simp: batch_limit_def batch_size_for_mode_def split: if_splits)
    show ?thesis
    proof (cases "batch = []")
      case True
      then have "w' = w2" "t = Idle" using r p by auto
      with ph h sp True inv_weaken show ?thesis by auto
    next
      case False
      obtain out f2 w3 where fl: "flush_with_retry D batch (f, w2) = (out, f2, w3)" by (metis prod_cases3)
      then have o: "t = Ran out" "w' = w3" using r p False by auto
      have k: "inv (length batch + k) w2"
        using inv_weaken [of "?B - length batch" "length batch + k" w2] ph len by simp
      have okb: "\<forall>m \<in> set batch. ok m" using sp ql(1) by simp
      obtain h2 where h2: "ledger_steps i h h2" "sim h2 w3" "lg_flight h2 i = {#}" "lg_taken h2 = lg_taken h"
        "quiet out \<longrightarrow> lg_lost h2 = lg_lost h" using flush_sim [OF k okb h(2,3) fl] by blast
      note fe = flush_effect [OF k okb fl]
      have "set (log w3) \<subseteq> set (log w2) \<union> set batch"
        using fe by (cases out) (auto simp: kept_def)
      then have "sound w3" using sp okb fe by (auto simp: sound_def)
      moreover have "ledger_steps i g h2" using h(1) h2(1) by (rule rtranclp_trans)
      ultimately show ?thesis using fe h2 h o by auto
    qed
  qed
  show ?thesis
  proof (cases "fl_mode f = ModeCritical")
    case False
    then show ?thesis using go [OF assms(1-3)] assms(7) by (auto simp: worker_tick_def Let_def)
  next
    case True
    obtain s w0 where n: "fd_now D w = (s, w0)" by (metis surj_pair)
    have w0: "inv (?B + k) w0" "sound w0" "sim g w0"
      using tick [OF assms(1) n] assms(2,3) by (auto simp: sound_def sim_def)
    show ?thesis
    proof (cases "s < critical_until f")
      case gated: True
      then have "t = Gated" "w' = w0" using assms(7) True n by (auto simp: worker_tick_def Let_def)
      with w0 inv_weaken assms(4) show ?thesis by auto
    next
      case ng: False
      then show ?thesis using go [OF w0] assms(7) True n by (auto simp: worker_tick_def Let_def)
    qed
  qed
qed

lemma publish_sim:
  assumes "inv (Suc k) w" "sound w" "sim g w" "writer_ok s" "on_publish S ack tn b (s, w) = (ret, s', w')"
    and "\<And>p t. parse_topic (sd_uuid_parse S) tn = Inr p \<Longrightarrow> ok (message_of S p tn b t)"
  shows "inv k w' \<and> sound w' \<and> writer_ok s' \<and> (\<exists>h. ledger_steps i g h \<and> sim h w' \<and> lg_flight h = lg_flight g
    \<and> lg_lost h = lg_lost g
    \<and> lg_taken h = lg_taken g + mset (if sm_acked (sb_m s') = sm_acked (sb_m s) then [] else accepted_of S tn b w))"
proof -
  note ph = publish_held [OF assms(1,4,5,6)]
  have wr: "writer_ok s'" using assms(4) ph by (simp add: writer_ok_def)
  have keep: ?thesis if "same w w'" "sm_acked (sb_m s') = sm_acked (sb_m s) \<or> accepted_of S tn b w = []"
  proof -
    have "sound w'" "sim g w'" using that(1) assms(2,3) by (auto simp: same_def sound_def sim_def)
    then show ?thesis using ph wr that(2) by (intro conjI) (auto intro!: exI [of _ g])
  qed
  show ?thesis
  proof (cases "parse_topic (sd_uuid_parse S) tn")
    case (Inl e)
    then show ?thesis using keep ph by (simp add: accepted_of_def)
  next
    case (Inr p)
    let ?m = "message_of S p tn b (fst (sd_now S w))"
    have acc: "accepted_of S tn b w = [?m]" using Inr by (simp add: accepted_of_def)
    show ?thesis
    proof (cases "sm_acked (sb_m s') = sm_acked (sb_m s)")
      case True
      then show ?thesis using keep ph Inr by auto
    next
      case False
      then have t: "took ?m w w'" using ph Inr by auto
      then have s: "sound w'" using assms(2) assms(6) [OF Inr] by (auto simp: took_def sound_def)
      let ?q = "g\<lparr>lg_queue := lg_queue g @ [?m], lg_taken := add_mset ?m (lg_taken g)\<rparr>"
      let ?l = "g\<lparr>lg_log := lg_log g @ [?m], lg_taken := add_mset ?m (lg_taken g)\<rparr>"
      have "\<exists>h \<in> {?q, ?l}. ledger_step i g h \<and> sim h w'"
        using t assms(3) ledger_step.queued [of i g ?m] ledger_step.spilled [of i g ?m]
        by (auto simp: took_def sim_def)
      then obtain h where "h \<in> {?q, ?l}" "ledger_step i g h" "sim h w'" by blast
      then show ?thesis using ph s wr acc False by (intro conjI) (auto intro!: exI [of _ h])
    qed
  qed
qed

lemma run_sim:
  assumes "inv (appends (fl_cfg f) evs + k) w" "sound w" "sim g w" "writer_ok s" "lg_flight g 0 = {#}"
    and "0 \<le> batch_size (fl_cfg f)" "0 \<le> elevated_batch_size (fl_cfg f)"
    and "\<And>tn b p t. Publish tn b \<in> set evs \<Longrightarrow> parse_topic (sd_uuid_parse S) tn = Inr p \<Longrightarrow> ok (message_of S p tn b t)"
    and "run_service S ack D evs (s, f, w) = (ms, ts, s', f', w')"
  shows "inv k w' \<and> sound w' \<and> (\<exists>h. ledger_steps 0 g h \<and> sim h w' \<and> lg_flight h 0 = {#}
    \<and> lg_taken h = lg_taken g + mset ms \<and> ((\<forall>out. Ran out \<in> set ts \<longrightarrow> quiet out) \<longrightarrow> lg_lost h = lg_lost g))"
  using assms
proof (induction evs arbitrary: s f w g ms ts)
  case Nil
  then show ?case by (auto simp: appends_def)
next
  case (Cons ev evs)
  show ?case
  proof (cases ev)
    case (Publish tn b)
    obtain ret s1 w1 where p: "on_publish S ack tn b (s, w) = (ret, s1, w1)" by (metis prod_cases3)
    let ?new = "if sm_acked (sb_m s1) = sm_acked (sb_m s) then [] else accepted_of S tn b w"
    obtain ms1 where r: "run_service S ack D evs (s1, f, w1) = (ms1, ts, s', f', w')" "ms = ?new @ ms1"
      using Cons.prems(9) Publish p by (auto simp: Let_def split: prod.splits)
    have i: "inv (Suc (appends (fl_cfg f) evs + k)) w" using Cons.prems(1) Publish by (simp add: appends_def)
    have okp: "parse_topic (sd_uuid_parse S) tn = Inr q \<Longrightarrow> ok (message_of S q tn b t)" for q t
      using Cons.prems(8) Publish by simp
    note ps = publish_sim [OF i Cons.prems(2-4) p okp, of 0]
    then obtain h where h: "ledger_steps 0 g h" "sim h w1" "lg_flight h = lg_flight g" "lg_lost h = lg_lost g"
      "lg_taken h = lg_taken g + mset ?new" by blast
    have "lg_flight h 0 = {#}" using h(3) Cons.prems(5) by simp
    note IH = Cons.IH [OF _ _ h(2) _ this Cons.prems(6,7) Cons.prems(8) r(1)]
    obtain h2 where "inv k w'" "sound w'" "ledger_steps 0 h h2" "sim h2 w'" "lg_flight h2 0 = {#}"
      "lg_taken h2 = lg_taken h + mset ms1" "(\<forall>out. Ran out \<in> set ts \<longrightarrow> quiet out) \<longrightarrow> lg_lost h2 = lg_lost h"
      using IH ps by auto
    with h r(2) show ?thesis by (auto intro!: exI [of _ h2] intro: rtranclp_trans)
  next
    case Round
    obtain t f1 w1 where p: "worker_tick D (f, w) = (t, f1, w1)" by (metis prod_cases3)
    obtain ts1 where r: "run_service S ack D evs (s, f1, w1) = (ms, ts1, s', f', w')" "ts = t # ts1"
      using Cons.prems(9) Round p by (auto split: prod.splits)
    have c: "fl_cfg f1 = fl_cfg f" using worker_tick_cfg [of D "(f, w)"] p by simp
    have i: "inv (batch_limit (fl_cfg f) + (appends (fl_cfg f) evs + k)) w"
      using Cons.prems(1) Round by (simp add: appends_def add.assoc)
    note tk = tick_sim [OF i Cons.prems(2,3,5,6,7) p]
    then obtain h where h: "ledger_steps 0 g h" "sim h w1" "lg_flight h 0 = {#}" "lg_taken h = lg_taken g"
      "(\<forall>out. t = Ran out \<longrightarrow> quiet out) \<longrightarrow> lg_lost h = lg_lost g" by blast
    note IH = Cons.IH [OF _ _ h(2) Cons.prems(4) h(3) _ _ Cons.prems(8) r(1), unfolded c]
    obtain h2 where "inv k w'" "sound w'" "ledger_steps 0 h h2" "sim h2 w'" "lg_flight h2 0 = {#}"
      "lg_taken h2 = lg_taken h + mset ms" "(\<forall>out. Ran out \<in> set ts1 \<longrightarrow> quiet out) \<longrightarrow> lg_lost h2 = lg_lost h"
      using IH tk Cons.prems(6,7) by auto
    with h r(2) show ?thesis by (auto intro!: exI [of _ h2] intro: rtranclp_trans)
  qed
qed

definition initial :: "'w \<Rightarrow> ledger" where
  "initial w = \<lparr>lg_queue = queue w, lg_log = log w, lg_rows = rows w, lg_letters = {#},
     lg_flight = (\<lambda>i. {#}), lg_lost = {#}, lg_taken = mset (queue w) + mset (log w)\<rparr>"

lemma run_conserves:
  assumes "inv (appends (fl_cfg f) evs) w" "sound w" "writer_ok s" "distinct (map row_key (rows w))"
    and "0 \<le> batch_size (fl_cfg f)" "0 \<le> elevated_batch_size (fl_cfg f)"
    and "\<And>tn b p t. Publish tn b \<in> set evs \<Longrightarrow> parse_topic (sd_uuid_parse S) tn = Inr p \<Longrightarrow> ok (message_of S p tn b t)"
    and "run_service S ack D evs (s, f, w) = (ms, ts, s', f', w')"
  shows "((\<forall>out. Ran out \<in> set ts \<longrightarrow> quiet out) \<longrightarrow>
      (\<forall>m \<in> set (queue w) \<union> set (log w) \<union> set ms.
         m \<in> set (queue w') \<or> m \<in> set (log w') \<or> in_table m (rows w') \<or> (\<exists>x \<in> set (letters w'). holds x m)))
    \<and> set (queue w') \<union> set (log w') \<subseteq> set (queue w) \<union> set (log w) \<union> set ms
    \<and> set (rows w') \<subseteq> set (rows w) \<union> copy_row ` (set (queue w) \<union> set (log w) \<union> set ms)
    \<and> distinct (map row_key (rows w'))"
proof -
  have i: "inv (appends (fl_cfg f) evs + 0) w" using assms(1) by simp
  have s0: "sim (initial w) w" "lg_flight (initial w) 0 = {#}" by (simp_all add: sim_def initial_def)
  from run_sim [OF i assms(2) s0(1) assms(3) s0(2) assms(5-8)] obtain h where
    h: "ledger_steps 0 (initial w) h" "sim h w'" "lg_flight h 0 = {#}"
    "lg_taken h = lg_taken (initial w) + mset ms"
    "(\<forall>out. Ran out \<in> set ts \<longrightarrow> quiet out) \<longrightarrow> lg_lost h = lg_lost (initial w)" by blast
  have "ledger_inv (set (rows w)) (initial w)"
    using assms(4) by (auto simp: ledger_inv_def accounted_def held_def initial_def)
  from ledger_run_inv [OF ledger_steps_run [OF h(1)] this] have inv: "ledger_inv (set (rows w)) h" .
  have fl: "lg_flight h j = {#}" for j
    using ledger_steps_other [OF h(1), of j] h(3) by (cases "j = 0") (simp_all add: initial_def)
  have taken: "set_mset (lg_taken h) = set (queue w) \<union> set (log w) \<union> set ms"
    using h(4) by (simp add: initial_def)
  have "\<forall>m \<in> set (queue w) \<union> set (log w) \<union> set ms. accounted h m"
    using inv unfolding ledger_inv_def taken by blast
  then have "(\<forall>out. Ran out \<in> set ts \<longrightarrow> quiet out) \<longrightarrow>
      (\<forall>m \<in> set (queue w) \<union> set (log w) \<union> set ms.
         m \<in> set (queue w') \<or> m \<in> set (log w') \<or> in_table m (rows w') \<or> (\<exists>x \<in> set (letters w'). holds x m))"
    using h(2,5) fl by (auto simp: accounted_def sim_def initial_def)
  moreover have "set (queue w') \<union> set (log w') \<subseteq> set (queue w) \<union> set (log w) \<union> set ms"
    using inv h(2) unfolding ledger_inv_def taken by (auto simp: held_def sim_def)
  moreover have "set (rows w') \<subseteq> set (rows w) \<union> copy_row ` (set (queue w) \<union> set (log w) \<union> set ms)"
    "distinct (map row_key (rows w'))"
    using inv h(2) unfolding ledger_inv_def taken by (simp_all add: sim_def)
  ultimately show ?thesis by blast
qed

subsection \<open>Draining\<close>

definition stays_up :: "('w \<Rightarrow> bool) \<Rightarrow> nat \<Rightarrow> bool" where
  \<comment> \<open>where \<open>up\<close> holds every call of the worker succeeds, and leaves it up\<close>
  "stays_up up k \<longleftrightarrow>
     (\<forall>u ms r u'. up u \<and> inv k u \<and> (\<forall>m \<in> set ms. payload m \<noteq> None) \<and> fd_copy D ms u = (r, u')
        \<longrightarrow> \<not> isl r \<and> up u')
     \<and> (\<forall>u n ms u'. up u \<and> fd_dequeue D n u = (ms, u') \<longrightarrow> up u')
     \<and> (\<forall>u n r u'. up u \<and> inv k u \<longrightarrow> (case fd_wal D of None \<Rightarrow> False
          | Some s \<Rightarrow> src_drain s n u = (r, u') \<longrightarrow> \<not> isl r \<and> up u'))
     \<and> (\<forall>u t u'. up u \<and> fd_now D u = (t, u') \<longrightarrow> up u')
     \<and> (\<forall>u d c u'. up u \<and> fd_wait D d u = (c, u') \<longrightarrow> \<not> c \<and> up u')"

lemma stays_upD:
  assumes "stays_up up k" "up u"
  shows "inv k u \<Longrightarrow> \<forall>m \<in> set ms. payload m \<noteq> None \<Longrightarrow> fd_copy D ms u = (rc, u') \<Longrightarrow> \<not> isl rc \<and> up u'"
    and "fd_dequeue D n u = (out, u') \<Longrightarrow> up u'"
    and "inv k u \<Longrightarrow> \<exists>s. fd_wal D = Some s \<and> (src_drain s n u = (rd, u') \<longrightarrow> \<not> isl rd \<and> up u')"
    and "fd_now D u = (t, u') \<Longrightarrow> up u'"
    and "fd_wait D d u = (c, u') \<Longrightarrow> \<not> c \<and> up u'"
proof -
  note s = assms(1) [unfolded stays_up_def]
  show "inv k u \<Longrightarrow> \<forall>m \<in> set ms. payload m \<noteq> None \<Longrightarrow> fd_copy D ms u = (rc, u') \<Longrightarrow> \<not> isl rc \<and> up u'"
    using s [THEN conjunct1] assms(2) by blast
  show "fd_dequeue D n u = (out, u') \<Longrightarrow> up u'"
    using s [THEN conjunct2, THEN conjunct1] assms(2) by blast
  show "inv k u \<Longrightarrow> \<exists>s. fd_wal D = Some s \<and> (src_drain s n u = (rd, u') \<longrightarrow> \<not> isl rd \<and> up u')"
    using s [THEN conjunct2, THEN conjunct2, THEN conjunct1, rule_format, of u n rd u'] assms(2)
    by (cases "fd_wal D") auto
  show "fd_now D u = (t, u') \<Longrightarrow> up u'"
    using s [THEN conjunct2, THEN conjunct2, THEN conjunct2, THEN conjunct1] assms(2) by blast
  show "fd_wait D d u = (c, u') \<Longrightarrow> \<not> c \<and> up u'"
    using s [THEN conjunct2, THEN conjunct2, THEN conjunct2, THEN conjunct2] assms(2) by blast
qed

lemma attempt_up:
  assumes "stays_up up k" "up w" "inv k w" "\<forall>m \<in> set batch. payload m \<noteq> None"
  shows "\<exists>n u'. fd_copy D batch (snd (fd_now D w)) = (Inr n, u')"
    and "attempt D batch (f, w) = (None, g, w') \<Longrightarrow> up w'"
proof -
  obtain t1 w1 where 1: "fd_now D w = (t1, w1)" by (metis surj_pair)
  obtain r w2 where 2: "fd_copy D batch w1 = (r, w2)" by (metis surj_pair)
  obtain t2 w3 where 3: "fd_now D w2 = (t2, w3)" by (metis surj_pair)
  have i1: "inv k w1" "up w1" using tick [OF assms(3) 1] stays_upD(4) [OF assms(1,2) 1] by auto
  have c: "\<not> isl r" "up w2" using stays_upD(1) [OF assms(1) i1(2) i1(1) assms(4) 2] by auto
  then obtain n where r: "r = Inr n" by (cases r) auto
  then show "\<exists>n u'. fd_copy D batch (snd (fd_now D w)) = (Inr n, u')" using 1 2 by simp
  have u3: "up w3" by (rule stays_upD(4) [OF assms(1) c(2) 3])
  assume at: "attempt D batch (f, w) = (None, g, w')"
  obtain h d where h: "record_latency (fd_now D) d (h, w3) = (g, w')"
    using at 1 2 3 r by (auto simp: attempt_def Let_def)
  obtain t4 w4 where 4: "fd_now D w3 = (t4, w4)" by (metis surj_pair)
  have "w' = w3 \<or> w' = w4"
    using h 4 by (cases "fl_mode (push_latency d h)") (auto simp: record_latency_def Let_def split: if_splits)
  then show "up w'" using u3 stays_upD(4) [OF assms(1) u3 4] by blast
qed

lemma pull_exact:
  assumes "stays_up up k" "up w" "inv k w" "pull_batch D (f, w) = (batch, w')" "0 \<le> batch_size_for_mode f"
  shows "inv k w' \<and> up w' \<and> batch = take (nat (batch_size_for_mode f)) (queue w @ log w)
    \<and> queue w' @ log w' = drop (nat (batch_size_for_mode f)) (queue w @ log w) \<and> rows w' = rows w"
proof -
  let ?n = "batch_size_for_mode f"
  obtain s where s: "fd_wal D = Some s" using stays_upD(3) [OF assms(1-3)] by blast
  obtain q w1 where q: "fd_dequeue D ?n w = (q, w1)" by (metis surj_pair)
  have 1: "inv k w1" "q = take (nat ?n) (queue w)" "queue w1 = drop (nat ?n) (queue w)" "log w1 = log w"
    "rows w1 = rows w" using deq [OF assms(3) q] by auto
  have up1: "up w1" by (rule stays_upD(2) [OF assms(1,2) q])
  show ?thesis
  proof (cases "int (length q) < ?n")
    case True
    then have len: "length (queue w) < nat ?n" "length q = length (queue w)" using 1(2) by (auto simp: min_def split: if_splits)
    obtain r w2 where r: "src_drain s (?n - int (length q)) w1 = (r, w2)" by (metis surj_pair)
    have up2: "\<not> isl r" "up w2" using stays_upD(3) [OF assms(1) up1 1(1)] s r by fastforce+
    then obtain ms where ms: "r = Inr ms" by (cases r) auto
    have b: "batch = q @ ms" "w' = w2" using assms(4) q s r True ms by (auto simp: pull_batch_def Let_def)
    have nn: "nat (?n - int (length q)) = nat ?n - length (queue w)" using len by simp
    show ?thesis using drain [OF s 1(1) r] ms b up2(2) 1 len nn by simp
  next
    case False
    then have len: "nat ?n \<le> length (queue w)" using 1(2) assms(5) by (auto simp: min_def split: if_splits)
    have "batch = q" "w' = w1" using assms(4) q s False by (auto simp: pull_batch_def Let_def)
    then show ?thesis using 1 up1 len by simp
  qed
qed

lemma drains:
  assumes "stays_up up k" "\<And>u. critical_until f \<le> fst (fd_now D u)" "up w" "inv k w"
    and "1 \<le> batch_size (fl_cfg f)" "1 \<le> elevated_batch_size (fl_cfg f)" "0 \<le> max_retries (fl_cfg f)"
    and "\<forall>m \<in> set (queue w @ log w). payload m \<noteq> None"
    and "length (queue w @ log w) \<le> n" "worker_loop n D (f, w) = (ticks, stopped, f', w')"
  shows "queue w' = [] \<and> log w' = [] \<and> (\<forall>m \<in> set (queue w @ log w). in_table m (rows w'))
    \<and> set (rows w) \<subseteq> set (rows w')"
  using assms(2-)
proof (induction n arbitrary: f w ticks stopped)
  case 0
  then show ?case by auto
next
  case (Suc n)
  note up = assms(1)
  obtain c w1 where wt: "fd_wait D (flush_interval_for_mode f) w = (c, w1)" by (metis surj_pair)
  have w1: "\<not> c" "up w1" using stays_upD(5) [OF up Suc.prems(2) wt] by auto
  have i1: "inv k w1" "queue w1 = queue w" "log w1 = log w" "rows w1 = rows w"
    using wait [OF Suc.prems(3) wt] by auto
  obtain t f1 w2 where tk: "worker_tick D (f, w1) = (t, f1, w2)" by (metis prod_cases3)
  obtain ts st' where rest: "worker_loop n D (f1, w2) = (ts, st', f', w')"
    using Suc.prems(9) wt w1(1) tk by (auto split: prod.splits)
  define u where "u = (if fl_mode f = ModeCritical then snd (fd_now D w1) else w1)"
  obtain tm u1 where now: "fd_now D w1 = (tm, u1)" by (metis surj_pair)
  have u: "inv k u" "up u" "queue u = queue w" "log u = log w" "rows u = rows w"
    using tick [OF i1(1) now] i1 w1(2) stays_upD(4) [OF up w1(2) now] now unfolding u_def by auto
  have ng: "\<not> tm < critical_until f" using Suc.prems(1) [of w1] now by simp
  obtain batch u2 where p: "pull_batch D (f, u) = (batch, u2)" by (metis surj_pair)
  have run: "worker_tick D (f, w1) = (if batch = [] then (Idle, f, u2)
      else (case flush_with_retry D batch (f, u2) of (r, fw1) \<Rightarrow> (Ran r, fw1)))"
    using ng now p unfolding u_def by (cases "fl_mode f = ModeCritical") (simp_all add: worker_tick_def Let_def)
  let ?N = "nat (batch_size_for_mode f)"
  have n1: "1 \<le> batch_size_for_mode f" using Suc.prems(4,5) by (simp add: batch_size_for_mode_def)
  have pl: "inv k u2" "up u2" "batch = take ?N (queue w @ log w)"
    "queue u2 @ log u2 = drop ?N (queue w @ log w)" "rows u2 = rows w"
    using pull_exact [OF up u(2,1) p] n1 u by auto
  show ?case
  proof (cases "queue w @ log w = []")
    case True
    then have "batch = []" using pl(3) by simp
    then have "f1 = f" "w2 = u2" using run tk by auto
    moreover have "queue u2 @ log u2 = []" using pl(4) True by simp
    ultimately show ?thesis
      using Suc.IH [OF Suc.prems(1) pl(2,1) Suc.prems(4-6)] rest True pl(5) by simp
  next
    case False
    then have nb: "batch \<noteq> []" using pl(3) n1 by (cases "queue w @ log w") (auto simp: nat_eq_iff)
    have nn: "\<forall>m \<in> set batch. payload m \<noteq> None" using Suc.prems(7) pl(3) by (meson in_set_takeD)
    note au = attempt_up [OF up pl(2,1) nn]
    obtain g u5 where at: "attempt D batch (f, u2) = (None, g, u5)"
      and fl: "flush_with_retry D batch (f, u2) = (Flushed, g, u5)"
      using flush_ok(1) [OF au(1) Suc.prems(6)] by blast
    have gc: "critical_until g = critical_until f" "fl_cfg g = fl_cfg f" using attempt_gate [OF at] by simp_all
    have e: "f1 = g" "w2 = u5" using run tk nb fl by auto
    have st: "inv k u5" "kept u2 u5" "rows u5 = rows w @ new_rows (rows w) (map copy_row batch)"
      using attempt_stored [OF pl(1) ins.stored_refl at] pl(5) by auto
    have up5: "up u5" by (rule au(2) [OF at])
    have left: "queue u5 @ log u5 = drop ?N (queue w @ log w)" using st(2) pl(4) by (simp add: kept_def)
    have "length (queue u5 @ log u5) \<le> n"
    proof -
      have "0 < ?N" using n1 by simp
      moreover have "0 < length (queue w @ log w)" using False by (simp only: length_greater_0_conv not_False_eq_True)
      ultimately have "length (drop ?N (queue w @ log w)) < length (queue w @ log w)"
        by (simp only: length_drop diff_less)
      then show ?thesis unfolding left using Suc.prems(8) by linarith
    qed
    moreover have "\<forall>m \<in> set (queue u5 @ log u5). payload m \<noteq> None"
      unfolding left using Suc.prems(7) by (meson in_set_dropD)
    ultimately have IH: "queue w' = [] \<and> log w' = [] \<and> (\<forall>m \<in> set (queue u5 @ log u5). in_table m (rows w'))
        \<and> set (rows u5) \<subseteq> set (rows w')"
      using Suc.IH [of g u5] Suc.prems(1,4-6) gc up5 st(1) rest e by simp
    have "in_table m (rows w')" if m: "m \<in> set (queue w @ log w)" for m
    proof -
      have "m \<in> set batch \<or> m \<in> set (queue u5 @ log u5)"
        using m unfolding pl(3) left by (metis append_take_drop_id Un_iff set_append)
      moreover have "m \<in> set batch \<Longrightarrow> in_table m (rows u5)" unfolding st(3) by (auto simp: in_table_stored)
      moreover have "in_table m (rows u5) \<Longrightarrow> in_table m (rows w')" using IH by (auto simp: in_table_def)
      ultimately show ?thesis using IH by blast
    qed
    then show ?thesis using IH st(3) by auto
  qed
qed

end

end
