(* ===== verification/Workers.thy ===== *)
theory Workers
  imports Delivery
begin

text \<open>
  The service step by step. The goroutines of the service share the subscriber's gauge, the flusher's
  adaptive state, the ring, the WAL, the database and the sink; between two calls on these anything may
  happen. A worker is a program counter with the local variables of workerLoop, pullBatch and
  flushWithRetry; one step is one such call (a method that holds a mutex, one read of the clock, one
  wait). The subscriber handles one publish at a time and is a program counter too. A schedule names who
  moves next, so a run is any interleaving. Run alone, a worker does what \<open>worker_tick\<close> says and the
  subscriber what \<open>on_publish\<close> says.
\<close>

subsection \<open>A worker\<close>

datatype worker_pc =
    WReset
  | WSelect duration
  | WGate
  | WClock
  | WGateRead time
  | WSize
  | WPull int
  | WTop int "message list"
  | WHead "message list" nat duration "go_error option"
  | WWait "message list" nat duration "go_error option"
  | WStart "message list" nat duration
  | WCopy "message list" nat duration time
  | WStop "message list" nat duration time "go_error + int"
  | WRecover duration
  | WRecord duration
  | WCritical "message list" nat duration go_error
  | WExhausted "message list" "go_error option"
  | WRequeue "message list" "message list" go_error \<comment> \<open>done, to do\<close>
  | WDead nat "message list" go_error \<comment> \<open>how many of the rest are already back in the WAL\<close>
  | WReturned
  | WCrashed

definition mode_is :: "mode \<Rightarrow> flusher \<Rightarrow> bool" where [simp]:
  "mode_is want f \<longleftrightarrow> fl_mode f = want"

definition critical_gate :: "flusher \<Rightarrow> time" where [simp]:
  "critical_gate f = critical_until f"

definition begin_batch :: "message list \<Rightarrow> worker_pc" where
  "begin_batch batch = (if batch = [] then WReset else WHead batch 0 second None)"

fun wstep :: "'w deps \<Rightarrow> worker_pc \<times> flusher \<times> 'w \<Rightarrow> worker_pc \<times> flusher \<times> 'w" where
  "wstep D (WReset, f, w) = (WSelect (flush_interval_for_mode f), f, w)"
| "wstep D (WSelect d, f, w) =
     (case fd_wait D d w of (done, w1) \<Rightarrow> (if done then WReturned else WGate, f, w1))"
| "wstep D (WGate, f, w) = (if mode_is ModeCritical f then WClock else WSize, f, w)"
| "wstep D (WClock, f, w) = (case fd_now D w of (t, w1) \<Rightarrow> (WGateRead t, f, w1))"
| "wstep D (WGateRead t, f, w) = (if t < critical_gate f then WReset else WSize, f, w)"
| "wstep D (WSize, f, w) = (WPull (batch_size_for_mode f), f, w)"
| "wstep D (WPull n, f, w) =
     (case fd_dequeue D n w of (out, w1) \<Rightarrow>
        (if fd_wal D \<noteq> None \<and> int (length out) < n then WTop n out else begin_batch out, f, w1))"
| "wstep D (WTop n out, f, w) =
     (case fd_wal D of
        None \<Rightarrow> (begin_batch out, f, w)
      | Some wal \<Rightarrow>
          (case src_drain wal (n - int (length out)) w of
             (Inl e, w1) \<Rightarrow> (begin_batch out, f, w1)
           | (Inr ms, w1) \<Rightarrow> (begin_batch (out @ ms), f, w1)))"
| "wstep D (WHead batch a delay last_err, f, w) =
     (if int a \<le> max_retries (fl_cfg f) then
        (if a > 0 then
           (WWait batch a delay last_err,
            f\<lparr>fl_m := (fl_m f)\<lparr>fm_retries_total := fm_retries_total (fl_m f) + int (length batch)\<rparr>\<rparr>, w)
         else (WStart batch a delay, f, w))
      else (WExhausted batch last_err, f, w))"
| "wstep D (WWait batch a delay last_err, f, w) =
     (case fd_wait D delay w of (done, w1) \<Rightarrow>
        (if done then WReset else WStart batch a (i64 (delay * 2)), f, w1))"
| "wstep D (WStart batch a delay, f, w) = (case fd_now D w of (t, w1) \<Rightarrow> (WCopy batch a delay t, f, w1))"
| "wstep D (WCopy batch a delay start, f, w) =
     (case fd_copy D batch w of (r, w1) \<Rightarrow> (WStop batch a delay start r, f, w1))"
| "wstep D (WStop batch a delay start r, f, w) =
     (case fd_now D w of (stop, w1) \<Rightarrow>
        let latency = time_sub stop start;
            f1 = f\<lparr>fl_m := (fl_m f)\<lparr>fm_flush_latency := fm_flush_latency (fl_m f) @ [latency]\<rparr>\<rparr>
        in (case r of
              Inr inserted \<Rightarrow>
                (WRecover latency,
                 f1\<lparr>fl_m := (fl_m f1)\<lparr>fm_flushed := fm_flushed (fl_m f1) + 1,
                      fm_inserted := fm_inserted (fl_m f1) + inserted\<rparr>\<rparr>, w1)
            | Inl e \<Rightarrow>
                (WCritical batch a delay e,
                 f1\<lparr>fl_m := (fl_m f1)\<lparr>fm_flush_errors := fm_flush_errors (fl_m f1) + 1\<rparr>\<rparr>, w1)))"
| "wstep D (WRecover latency, f, w) = (WRecord latency, maybe_recover f, w)"
| "wstep D (WRecord latency, f, w) = (WReset, record_latency (fd_now D) latency (f, w))"
| "wstep D (WCritical batch a delay e, f, w) =
     (WHead batch (Suc a) delay (Some e), enter_critical (fd_now D) (f, w))"
| "wstep D (WExhausted batch None, f, w) = (WCrashed, f, w)"
| "wstep D (WExhausted batch (Some e), f, w) =
     (if \<not> is_poison_error (Some e) \<and> fd_wal D \<noteq> None then WRequeue [] batch e else WDead 0 batch e, f, w)"
| "wstep D (WRequeue old [] e, f, w) = (WReset, f, w)"
| "wstep D (WRequeue old (m # ms) e, f, w) =
     (case fd_wal D of
        None \<Rightarrow> (WDead (length old) (old @ m # ms) e, f, w)
      | Some wal \<Rightarrow>
          (case src_append wal m w of
             (Inl e', w1) \<Rightarrow> (WDead (length old) (old @ m # ms) e, f, w1)
           | (Inr k, w1) \<Rightarrow>
               (WRequeue (old @ [m]) ms e,
                f\<lparr>fl_m := (fl_m f)\<lparr>fm_requeued := fm_requeued (fl_m f) + 1\<rparr>\<rparr>, w1)))"
| "wstep D (WDead n [] e, f, w) = (WReset, f, w)"
| "wstep D (WDead n (m # ms) e, f, w) =
     (case fd_write D m (Some e) w of
        (Some e', w1) \<Rightarrow> (WDead (n - 1) ms e, f, w1)
      | (None, w1) \<Rightarrow>
          (WDead (n - 1) ms e,
           f\<lparr>fl_m := (fl_m f)\<lparr>fm_dead_lettered := fm_dead_lettered (fl_m f) + 1\<rparr>\<rparr>, w1))"
| "wstep D (WReturned, f, w) = (WReturned, f, w)"
| "wstep D (WCrashed, f, w) = (WCrashed, f, w)"

fun hand :: "worker_pc \<Rightarrow> message list" where
  \<comment> \<open>the messages only this worker holds\<close>
  "hand (WTop n out) = out"
| "hand (WHead batch a delay e) = batch"
| "hand (WWait batch a delay e) = batch"
| "hand (WStart batch a delay) = batch"
| "hand (WCopy batch a delay t) = batch"
| "hand (WStop batch a delay t r) = (if isl r then batch else [])"
| "hand (WCritical batch a delay e) = batch"
| "hand (WExhausted batch e) = batch"
| "hand (WRequeue old todo e) = todo"
| "hand (WDead n rest e) = drop n rest"
| "hand pc = []"

fun let_go :: "'w deps \<Rightarrow> worker_pc \<Rightarrow> 'w \<Rightarrow> message list" where
  \<comment> \<open>what the next step drops for good: a cancelled backoff its batch, a panic its batch, a failed
    dead-letter write its message\<close>
  "let_go D (WWait batch a delay e) w = (if fst (fd_wait D delay w) then batch else [])"
| "let_go D (WExhausted batch None) w = batch"
| "let_go D (WDead 0 (m # ms) e) w = (if fst (fd_write D m (Some e) w) = None then [] else [m])"
| "let_go D pc w = []"


subsection \<open>A worker alone\<close>

definition reaches :: "'w deps \<Rightarrow> worker_pc \<times> flusher \<times> 'w \<Rightarrow> worker_pc \<times> flusher \<times> 'w \<Rightarrow> bool" where
  "reaches D x y \<longleftrightarrow> (\<exists>n. (wstep D ^^ n) x = y)"

lemma reaches_refl [simp]: "reaches D x x"
  unfolding reaches_def by (rule exI [of _ 0]) simp

lemma reaches_step: "reaches D (wstep D x) y \<Longrightarrow> reaches D x y"
  unfolding reaches_def by (metis funpow_simps_right(2) comp_apply)

lemma reaches_trans: "reaches D x y \<Longrightarrow> reaches D y z \<Longrightarrow> reaches D x z"
  unfolding reaches_def by (metis funpow_add comp_apply)

lemma attempt_alone:
  assumes "attempt D batch (f, w) = (r, f', w')"
  shows "reaches D (WStart batch a delay, f, w)
    (case r of None \<Rightarrow> WReset | Some e \<Rightarrow> WHead batch (Suc a) delay (Some e), f', w')"
proof -
  obtain t1 w1 where 1: "fd_now D w = (t1, w1)" by (metis surj_pair)
  obtain x w2 where 2: "fd_copy D batch w1 = (x, w2)" by (metis surj_pair)
  obtain t2 w3 where 3: "fd_now D w2 = (t2, w3)" by (metis surj_pair)
  show ?thesis
  proof (cases x)
    case (Inl e)
    have "(wstep D ^^ 4) (WStart batch a delay, f, w)
        = (case r of None \<Rightarrow> WReset | Some e \<Rightarrow> WHead batch (Suc a) delay (Some e), f', w')"
      using assms 1 2 3 Inl by (auto simp: attempt_def Let_def eval_nat_numeral funpow_simps_right simp del: funpow.simps)
    then show ?thesis unfolding reaches_def by blast
  next
    case (Inr n)
    have "(wstep D ^^ 5) (WStart batch a delay, f, w)
        = (case r of None \<Rightarrow> WReset | Some e \<Rightarrow> WHead batch (Suc a) delay (Some e), f', w')"
      using assms 1 2 3 Inr by (auto simp: attempt_def Let_def eval_nat_numeral funpow_simps_right simp del: funpow.simps)
    then show ?thesis unfolding reaches_def by blast
  qed
qed


lemma attempt_cfg: "attempt D batch (f, w) = (r, f', w') \<Longrightarrow> fl_cfg f' = fl_cfg f"
  using attempt_gate [of D batch f w r f' w'] by (cases r) (auto simp: gated_from_def gate_def)

fun loop_pc :: "message list \<Rightarrow> loop_result \<Rightarrow> worker_pc" where
  "loop_pc batch (LoopExhausted e) = WExhausted batch e"
| "loop_pc batch r = WReset"

lemma attempt_loop_alone:
  assumes "attempt_loop D batch a k delay le (f, w) = (lr, f', w')"
    and "int k = max 0 (max_retries (fl_cfg f) + 1 - int a)"
  shows "reaches D (WHead batch a delay le, f, w) (loop_pc batch lr, f', w')"
  using assms
proof (induction k arbitrary: a delay le f w)
  case 0
  then show ?case by (intro reaches_step [of D "(WHead batch a delay le, f, w)"]) auto
next
  case (Suc k)
  have go: "reaches D (WStart batch a d, g, w1) (loop_pc batch lr, f', w')"
    if h: "attempt_then D batch a k d (g, w1) = (lr, f', w')" "fl_cfg g = fl_cfg f" for d g w1
  proof -
    obtain r g1 w2 where at: "attempt D batch (g, w1) = (r, g1, w2)" by (metis prod_cases3)
    note al = attempt_alone [OF at, of a d]
    have c: "fl_cfg g1 = fl_cfg f" using attempt_cfg [OF at] h(2) by simp
    show ?thesis
    proof (cases r)
      case None
      then show ?thesis using al h(1) at by (auto simp: attempt_then_def)
    next
      case (Some e)
      then have "attempt_loop D batch (Suc a) k d (Some e) (g1, w2) = (lr, f', w')"
        using h(1) at by (simp add: attempt_then_def)
      from Suc.IH [OF this] Suc.prems(2) c have "reaches D (WHead batch (Suc a) d (Some e), g1, w2) (loop_pc batch lr, f', w')"
        by auto
      with al Some show ?thesis by (auto intro: reaches_trans)
    qed
  qed
  have more: "int a \<le> max_retries (fl_cfg f)" using Suc.prems(2) by linarith
  show ?case
  proof (cases "a = 0")
    case True
    then have "attempt_then D batch a k delay (f, w) = (lr, f', w')"
      using Suc.prems(1) by (simp add: attempt_loop_Suc del: attempt_loop.simps)
    then have "reaches D (WStart batch a delay, f, w) (loop_pc batch lr, f', w')" by (rule go) simp
    then show ?thesis using True more by (intro reaches_step [of D "(WHead batch a delay le, f, w)"]) simp
  next
    case False
    let ?f = "f\<lparr>fl_m := (fl_m f)\<lparr>fm_retries_total := fm_retries_total (fl_m f) + int (length batch)\<rparr>\<rparr>"
    obtain c w1 where c: "fd_wait D delay w = (c, w1)" by (metis surj_pair)
    have "reaches D (WWait batch a delay le, ?f, w) (loop_pc batch lr, f', w')"
    proof (cases c)
      case True
      then show ?thesis using Suc.prems(1) False c
        by (intro reaches_step [of D "(WWait batch a delay le, ?f, w)"])
          (auto simp: attempt_loop_Suc Let_def simp del: attempt_loop.simps)
    next
      case nc: False
      then have "attempt_then D batch a k (i64 (delay * 2)) (?f, w1) = (lr, f', w')"
        using Suc.prems(1) False c by (auto simp: attempt_loop_Suc Let_def simp del: attempt_loop.simps)
      from go [OF this] nc c show ?thesis
        by (intro reaches_step [of D "(WWait batch a delay le, ?f, w)"]) simp
    qed
    then show ?thesis using False more by (intro reaches_step [of D "(WHead batch a delay le, f, w)"]) simp
  qed
qed

lemma requeue_alone:
  assumes "fd_wal D = Some wal" "requeue_loop wal ms (f, w) = (r, f', w')"
  shows "\<exists>n. reaches D (WRequeue old ms e, f, w)
    (case r of None \<Rightarrow> WReset | Some x \<Rightarrow> WDead n (old @ ms) e, f', w')"
  using assms(2)
proof (induction ms arbitrary: old f w)
  case Nil
  then show ?case by (auto simp: reaches_def intro!: exI [of _ 1])
next
  case (Cons m ms)
  obtain x w1 where a: "src_append wal m w = (x, w1)" by (metis surj_pair)
  let ?s = "(WRequeue old (m # ms) e, f, w)"
  show ?case
  proof (cases x)
    case (Inl y)
    then have "r \<noteq> None" "f' = f" "w' = w1" using Cons.prems a by auto
    then have "reaches D ?s (case r of None \<Rightarrow> WReset | Some x \<Rightarrow> WDead (length old) (old @ m # ms) e, f', w')"
      using a Inl assms(1) by (intro reaches_step [of D ?s]) auto
    then show ?thesis by blast
  next
    case (Inr k)
    let ?f = "f\<lparr>fl_m := (fl_m f)\<lparr>fm_requeued := fm_requeued (fl_m f) + 1\<rparr>\<rparr>"
    have "requeue_loop wal ms (?f, w1) = (r, f', w')" using Cons.prems a Inr by simp
    from Cons.IH [OF this, of "old @ [m]"] obtain n where
      "reaches D (WRequeue (old @ [m]) ms e, ?f, w1) (case r of None \<Rightarrow> WReset | Some x \<Rightarrow> WDead n (old @ m # ms) e, f', w')"
      by (auto cong: option.case_cong)
    then have "reaches D ?s (case r of None \<Rightarrow> WReset | Some x \<Rightarrow> WDead n (old @ m # ms) e, f', w')"
      using a Inr assms(1) by (intro reaches_step [of D ?s]) simp
    then show ?thesis by blast
  qed
qed

lemma dead_alone:
  "dead_loop D (Some e) ms (f, w) = (f', w') \<Longrightarrow> reaches D (WDead n ms e, f, w) (WReset, f', w')"
proof (induction ms arbitrary: n f w)
  case Nil
  then show ?case by (auto simp: reaches_def intro!: exI [of _ 1])
next
  case (Cons m ms)
  obtain x w1 where a: "fd_write D m (Some e) w = (x, w1)" by (metis surj_pair)
  then show ?case
    using Cons.prems Cons.IH [of _ w1 "n - 1"]
    by (intro reaches_step [of D "(WDead n (m # ms) e, f, w)"]) (cases x; simp)
qed


lemma flush_alone:
  assumes "flush_with_retry D batch (f, w) = (out, f', w')"
  shows "reaches D (WHead batch 0 second None, f, w) (if out = Panicked then WCrashed else WReset, f', w')"
proof -
  let ?n = "nat (max_retries (fl_cfg f) + 1)"
  obtain lr f1 w1 where l: "attempt_loop D batch 0 ?n second None (f, w) = (lr, f1, w1)" by (metis prod_cases3)
  have to_loop: "reaches D (WHead batch 0 second None, f, w) (loop_pc batch lr, f1, w1)"
    by (rule attempt_loop_alone [OF l]) simp
  have "reaches D (loop_pc batch lr, f1, w1) (if out = Panicked then WCrashed else WReset, f', w')"
  proof (cases lr)
    case (LoopExhausted x)
    show ?thesis
    proof (cases x)
      case None
      then show ?thesis using assms l LoopExhausted
        by (auto simp: flush_with_retry_def reaches_def intro!: exI [of _ 1])
    next
      case (Some e)
      let ?ex = "(WExhausted batch (Some e), f1, w1)"
      show ?thesis
      proof (cases "if is_poison_error (Some e) then None else fd_wal D")
        case None
        then have d: "dead_loop D (Some e) batch (f1, w1) = (f', w')" "out = DeadLettered"
          "wstep D ?ex = (WDead 0 batch e, f1, w1)"
          using assms l LoopExhausted Some by (auto simp: flush_with_retry_def split: if_splits)
        then have "reaches D (wstep D ?ex) (WReset, f', w')" using dead_alone [OF d(1)] by simp
        then show ?thesis using d(2) LoopExhausted Some by (simp add: reaches_step del: wstep.simps)
      next
        case wal: (Some s)
        then have s: "fd_wal D = Some s" "wstep D ?ex = (WRequeue [] batch e, f1, w1)" by (auto split: if_splits)
        obtain r f2 w2 where q: "requeue_loop s batch (f1, w1) = (r, f2, w2)" by (metis prod_cases3)
        from requeue_alone [OF s(1) q, of "[]" e] obtain n where
          rq: "reaches D (wstep D ?ex) (case r of None \<Rightarrow> WReset | Some x \<Rightarrow> WDead n batch e, f2, w2)"
          unfolding s(2) append_Nil by blast
        have "reaches D (case r of None \<Rightarrow> WReset | Some x \<Rightarrow> WDead n batch e, f2, w2) (WReset, f', w') \<and> out \<noteq> Panicked"
        proof (cases r)
          case None
          then show ?thesis using assms l LoopExhausted Some wal q by (simp add: flush_with_retry_def)
        next
          case (Some y)
          then have "dead_loop D (Some e) batch (f2, w2) = (f', w')" "out = DeadLettered"
            using assms l LoopExhausted \<open>x = Some e\<close> wal q by (simp_all add: flush_with_retry_def)
          with dead_alone Some show ?thesis by fastforce
        qed
        then show ?thesis using reaches_step [OF reaches_trans [OF rq]] LoopExhausted Some by auto
      qed
    qed
  qed (use assms l in \<open>auto simp: flush_with_retry_def\<close>)
  with to_loop show ?thesis by (rule reaches_trans)
qed

lemma reaches_begin:
  assumes "(if batch = [] then (Idle, f, w) else (case flush_with_retry D batch (f, w) of (r, fw1) \<Rightarrow> (Ran r, fw1)))
    = (t, f', w')"
  shows "reaches D (begin_batch batch, f, w) (if t = Ran Panicked then WCrashed else WReset, f', w')"
  using assms flush_alone [of D batch f w "fst (flush_with_retry D batch (f, w))" f' w']
  by (auto simp: begin_batch_def split: prod.splits if_splits)

lemma pull_alone:
  assumes "pull_batch D (f, w) = (batch, w1)"
  shows "reaches D (WSize, f, w) (begin_batch batch, f, w1)"
proof -
  let ?n = "batch_size_for_mode f"
  obtain out u where d: "fd_dequeue D ?n w = (out, u)" by (metis surj_pair)
  show ?thesis
  proof (cases "fd_wal D \<noteq> None \<and> int (length out) < ?n")
    case True
    then have "(wstep D ^^ 3) (WSize, f, w) = (begin_batch batch, f, w1)"
      using assms d by (auto simp: pull_batch_def Let_def eval_nat_numeral funpow_simps_right simp del: funpow.simps
          split: sum.splits prod.splits)
    then show ?thesis unfolding reaches_def by blast
  next
    case False
    then have "(wstep D ^^ 2) (WSize, f, w) = (begin_batch batch, f, w1)"
      using assms d by (auto simp: pull_batch_def Let_def eval_nat_numeral funpow_simps_right simp del: funpow.simps
          split: option.splits)
    then show ?thesis unfolding reaches_def by blast
  qed
qed

lemma round_alone:
  assumes "worker_tick D (f, w) = (t, f', w')"
  shows "reaches D (WGate, f, w) (if t = Ran Panicked then WCrashed else WReset, f', w')"
proof -
  have go: "reaches D (WSize, f, u) (if t = Ran Panicked then WCrashed else WReset, f', w')"
    if "(case pull_batch D (f, u) of (batch, w1) \<Rightarrow> if batch = [] then (Idle, f, w1)
       else (case flush_with_retry D batch (f, w1) of (r, fw1) \<Rightarrow> (Ran r, fw1))) = (t, f', w')" for u
  proof -
    obtain batch w1 where p: "pull_batch D (f, u) = (batch, w1)" by (metis surj_pair)
    then show ?thesis using that reaches_trans [OF pull_alone [OF p] reaches_begin] by simp
  qed
  show ?thesis
  proof (cases "fl_mode f = ModeCritical")
    case False
    then show ?thesis using assms go [of w]
      by (intro reaches_step [of D "(WGate, f, w)"]) (simp add: worker_tick_def Let_def)
  next
    case True
    obtain s u where n: "fd_now D w = (s, u)" by (metis surj_pair)
    have "reaches D (WGateRead s, f, u) (if t = Ran Panicked then WCrashed else WReset, f', w')"
      using assms True n go [of u]
      by (intro reaches_step [of D "(WGateRead s, f, u)"]) (auto simp: worker_tick_def Let_def split: if_splits)
    then have "reaches D (WClock, f, w) (if t = Ran Panicked then WCrashed else WReset, f', w')"
      using n by (intro reaches_step [of D "(WClock, f, w)"]) simp
    then show ?thesis using True by (intro reaches_step [of D "(WGate, f, w)"]) simp
  qed
qed

end
