(* ===== verification/Schedule.thy ===== *)
theory Schedule
  imports Workers
begin

text \<open>
  Schedules: the subscriber and any number of workers of Workers, moving in any order over the shared
  state. Every move is a step of the ledger, so whatever the schedule, every message the service took
  over is somewhere, and nobody else holds what a worker has in hand.
\<close>

subsection \<open>The subscriber, step by step\<close>

datatype sub_pc = SIdle | SRoute message | SSpill message

definition count_ack :: "('w \<Rightarrow> go_error option \<times> 'w) \<Rightarrow> 'w ack" where
  \<comment> \<open>the callback of onPublish\<close>
  "count_ack client_ack sw = (case sw of (s, w) \<Rightarrow> (case client_ack w of (_, w1) \<Rightarrow>
     (s\<lparr>sb_m := (sb_m s)\<lparr>sm_acked := sm_acked (sb_m s) + 1\<rparr>\<rparr>, w1)))"

definition deliver ::
  "'w sub_deps \<Rightarrow> ('w \<Rightarrow> go_error option \<times> 'w) \<Rightarrow> string \<Rightarrow> bytes \<Rightarrow> 'w subscriber \<times> 'w
   \<Rightarrow> sub_pc \<times> 'w subscriber \<times> 'w" where
  \<comment> \<open>HandleMessage up to routeMessage\<close>
  "deliver S client_ack tn b sw =
     (case sw of (s, w) \<Rightarrow>
        let s1 = s\<lparr>sb_m := (sb_m s)\<lparr>sm_received := sm_received (sb_m s) + 1\<rparr>\<rparr>
        in (case sd_now S w of (now, w1) \<Rightarrow>
              (case parse_topic (sd_uuid_parse S) tn of
                 Inl err \<Rightarrow> (SIdle, handle_parse_failure tn b err now (Some (count_ack client_ack)) (s1, w1))
               | Inr parsed \<Rightarrow> (SRoute (message_of S parsed tn b now), s1, w1))))"

fun sub_step ::
  "'w sub_deps \<Rightarrow> ('w \<Rightarrow> go_error option \<times> 'w) \<Rightarrow> sub_pc \<times> 'w subscriber \<times> 'w
   \<Rightarrow> message list \<times> sub_pc \<times> 'w subscriber \<times> 'w" where
  \<comment> \<open>the call of Enqueue, then that of Append if need be; the list is what was acknowledged\<close>
  "sub_step S client_ack (SIdle, s, w) = ([], SIdle, s, w)"
| "sub_step S client_ack (SRoute m, s, w) =
     (case sd_enqueue S m w of
        ((state, None), w1) \<Rightarrow>
          ([m], SIdle, count_ack client_ack (if state = StatePause then mark_paused s else clear_pause s, w1))
      | ((state, Some e), w1) \<Rightarrow>
          (if \<not> is_err_full e then ([], SIdle, s, w1)
           else if sd_wal S = None then ([], SIdle, mark_paused s, w1)
           else ([], SSpill m, s, w1)))"
| "sub_step S client_ack (SSpill m, s, w) =
     (case sd_wal S of
        None \<Rightarrow> ([], SIdle, mark_paused s, w)
      | Some app \<Rightarrow>
          (case app m w of
             (Inr key, w1) \<Rightarrow> ([m], SIdle, count_ack client_ack (clear_pause s, sd_mark_spilled S w1))
           | (Inl e, w1) \<Rightarrow> ([], SIdle, mark_paused s, w1)))"

lemma sub_step_idle [simp]: "sub_step S client_ack (SIdle, sw) = ([], SIdle, sw)"
  by (cases sw) simp

text \<open>Run alone, the steps do what onPublish does.\<close>

lemma publish_alone:
  "snd (sub_step S client_ack (snd (sub_step S client_ack (deliver S client_ack tn b sw))))
    = (SIdle, snd (on_publish S client_ack tn b sw))"
proof -
  have ack: "(\<lambda>(s, w). case client_ack w of (_, w1) \<Rightarrow>
      (s\<lparr>sb_m := (sb_m s)\<lparr>sm_acked := sm_acked (sb_m s) + 1\<rparr>\<rparr>, w1)) = count_ack client_ack"
    by (rule ext) (simp add: count_ack_def split: prod.split)
  show ?thesis
    unfolding on_publish_def ack
    by (cases sw) (auto simp: deliver_def handle_message_def route_message_def call_ack_def Let_def
        split: prod.split sum.split option.split)
qed

subsection \<open>The system\<close>

record 'w system =
  sy_pc :: sub_pc
  sy_sub :: "'w subscriber"
  sy_workers :: "worker_pc list"
  sy_flusher :: flusher
  sy_world :: 'w
  sy_taken :: "message list" \<comment> \<open>acknowledged so far\<close>
  sy_lost :: "message list" \<comment> \<open>dropped so far\<close>

datatype move = Deliver string bytes | Route | Work nat

fun next_state ::
  "'w sub_deps \<Rightarrow> ('w \<Rightarrow> go_error option \<times> 'w) \<Rightarrow> 'w deps \<Rightarrow> move \<Rightarrow> 'w system \<Rightarrow> 'w system" where
  \<comment> \<open>a publish waits until the one before it has been handled\<close>
  "next_state S client_ack D (Deliver tn b) y =
     (if sy_pc y \<noteq> SIdle then y
      else (case deliver S client_ack tn b (sy_sub y, sy_world y) of (pc, s, w) \<Rightarrow>
        y\<lparr>sy_pc := pc, sy_sub := s, sy_world := w\<rparr>))"
| "next_state S client_ack D Route y =
     (case sub_step S client_ack (sy_pc y, sy_sub y, sy_world y) of (ms, pc, s, w) \<Rightarrow>
        y\<lparr>sy_pc := pc, sy_sub := s, sy_world := w, sy_taken := sy_taken y @ ms\<rparr>)"
| "next_state S client_ack D (Work i) y =
     (if i < length (sy_workers y) then
        (case wstep D (sy_workers y ! i, sy_flusher y, sy_world y) of (pc, f, w) \<Rightarrow>
           y\<lparr>sy_workers := (sy_workers y)[i := pc], sy_flusher := f, sy_world := w,
             sy_lost := sy_lost y @ let_go D (sy_workers y ! i) (sy_world y)\<rparr>)
      else y)"

fun run_schedule ::
  "'w sub_deps \<Rightarrow> ('w \<Rightarrow> go_error option \<times> 'w) \<Rightarrow> 'w deps \<Rightarrow> move list \<Rightarrow> 'w system \<Rightarrow> 'w system" where
  "run_schedule S client_ack D [] y = y"
| "run_schedule S client_ack D (mv # mvs) y = run_schedule S client_ack D mvs (next_state S client_ack D mv y)"

definition start_system :: "nat \<Rightarrow> 'w subscriber \<Rightarrow> flusher \<Rightarrow> 'w \<Rightarrow> 'w system" where
  "start_system n s f w = \<lparr>sy_pc = SIdle, sy_sub = s, sy_workers = replicate n WReset, sy_flusher = f,
     sy_world = w, sy_taken = [], sy_lost = []\<rparr>"

definition hands :: "'w system \<Rightarrow> message list" where
  "hands y = concat (map hand (sy_workers y))"

lemma hands_update:
  "i < length ws \<Longrightarrow> mset (concat (map hand (ws[i := pc]))) + mset (hand (ws ! i))
    = mset (concat (map hand ws)) + mset (hand pc)"
proof (induction ws arbitrary: i)
  case (Cons v ws)
  then show ?case by (cases i) (auto simp: ac_simps)
qed simp


fun returned_part :: "worker_pc \<Rightarrow> message list" where
  \<comment> \<open>the part of a batch a worker has put back into the WAL but still walks over\<close>
  "returned_part (WRequeue old todo e) = old"
| "returned_part (WDead n rest e) = take n rest"
| "returned_part pc = []"

subsection \<open>When nothing is dropped\<close>

fun calm_pc :: "worker_pc \<Rightarrow> bool" where
  \<comment> \<open>there is an error to report once the attempts are used up\<close>
  "calm_pc (WHead batch a delay None) = (a = 0)"
| "calm_pc (WExhausted batch None) = False"
| "calm_pc pc = True"

lemma calm_exhausted: "calm_pc (WHead batch a delay e) \<Longrightarrow> \<not> int a \<le> r \<Longrightarrow> 0 \<le> r \<Longrightarrow> calm_pc (WExhausted batch e)"
  by (cases e) auto

lemma wstep_calm:
  "wstep D (pc, f, w) = (pc', f', w') \<Longrightarrow> calm_pc pc \<Longrightarrow> 0 \<le> max_retries (fl_cfg f)
    \<Longrightarrow> calm_pc pc' \<and> fl_cfg f' = fl_cfg f"
  by (cases "(D, pc, f, w)" rule: wstep.cases)
    (auto intro: calm_exhausted simp: begin_batch_def Let_def record_latency_def push_latency_def maybe_recover_def
      enter_critical_def split: if_splits prod.splits sum.splits option.splits mode.splits)

lemma let_go_calm:
  assumes "calm_pc pc" "\<And>d w. \<not> fst (fd_wait D d w)" "\<And>m e w. fst (fd_write D m e w) = None"
  shows "let_go D pc w = []"
  using assms(1) by (cases "(D, pc, w)" rule: let_go.cases) (simp_all add: assms(2,3))

lemma next_state_calm:
  assumes "\<And>d w. \<not> fst (fd_wait D d w)" "\<And>m e w. fst (fd_write D m e w) = None"
    and "\<forall>pc \<in> set (sy_workers y). calm_pc pc" "0 \<le> max_retries (fl_cfg (sy_flusher y))" "sy_lost y = []"
  shows "(\<forall>pc \<in> set (sy_workers (next_state S client_ack D mv y)). calm_pc pc)
    \<and> fl_cfg (sy_flusher (next_state S client_ack D mv y)) = fl_cfg (sy_flusher y)
    \<and> sy_lost (next_state S client_ack D mv y) = []"
proof (cases mv)
  case (Work i)
  show ?thesis
  proof (cases "i < length (sy_workers y)")
    case True
    obtain pc f w where st: "wstep D (sy_workers y ! i, sy_flusher y, sy_world y) = (pc, f, w)" by (metis prod_cases3)
    have c: "calm_pc (sy_workers y ! i)" using assms(3) True by simp
    have "calm_pc pc \<and> fl_cfg f = fl_cfg (sy_flusher y)" by (rule wstep_calm [OF st c assms(4)])
    moreover have "let_go D (sy_workers y ! i) (sy_world y) = []" by (rule let_go_calm [OF c assms(1,2)])
    moreover have "\<forall>x \<in> set ((sy_workers y)[i := pc]). x = pc \<or> x \<in> set (sy_workers y)"
      by (meson insertE set_update_subset_insert subsetD)
    ultimately show ?thesis using True st Work assms(3,5) by auto
  qed (use Work assms in simp)
qed (use assms in \<open>auto split: prod.splits\<close>)

lemma run_schedule_calm:
  assumes "\<And>d w. \<not> fst (fd_wait D d w)" "\<And>m e w. fst (fd_write D m e w) = None"
  shows "\<forall>pc \<in> set (sy_workers y). calm_pc pc \<Longrightarrow> 0 \<le> max_retries (fl_cfg (sy_flusher y)) \<Longrightarrow> sy_lost y = []
    \<Longrightarrow> sy_lost (run_schedule S client_ack D mvs y) = []"
proof (induction mvs arbitrary: y)
  case (Cons mv mvs)
  note n = next_state_calm [OF assms Cons.prems]
  show ?case unfolding run_schedule.simps by (rule Cons.IH) (use n Cons.prems in auto)
qed simp

subsection \<open>A worker's step in the ledger\<close>

context pipeline
begin

definition worked :: "nat \<Rightarrow> nat \<Rightarrow> ledger \<Rightarrow> worker_pc \<Rightarrow> 'w \<Rightarrow> message list \<Rightarrow> worker_pc \<Rightarrow> 'w \<Rightarrow> bool" where
  "worked k i g pc w gone pc' w' \<longleftrightarrow> inv k w'
     \<and> (\<exists>h. ledger_steps i g h \<and> sim h w' \<and> lg_flight h = (lg_flight g)(i := mset (hand pc'))
          \<and> lg_taken h = lg_taken g \<and> lg_lost h = lg_lost g + mset gone)
     \<and> set (returned_part pc') \<subseteq> set (returned_part pc) \<union> set (hand pc)
     \<and> mset (queue w') + mset (log w') + mset (hand pc') \<subseteq># mset (queue w) + mset (log w) + mset (hand pc)"

lemma worked_same:
  assumes "inv k w'" "kept w w'" "rows w' = rows w" "sim g w" "lg_flight g i = mset (hand pc)"
    and "hand pc' = hand pc" "set (returned_part pc') \<subseteq> set (returned_part pc) \<union> set (hand pc)"
  shows "worked k i g pc w [] pc' w'"
proof -
  have "(lg_flight g)(i := mset (hand pc')) = lg_flight g" using assms(5,6) by auto
  then show ?thesis
    using assms unfolding worked_def by (auto simp: kept_def sim_def intro!: exI [of _ g])
qed

lemma begin_batch_parts [simp]: "hand (begin_batch b) = b" "returned_part (begin_batch b) = []"
  by (simp_all add: begin_batch_def)

lemma worked_pulled:
  assumes "inv k w'" "sim g w" "lg_flight g i = mset (hand pc)" "queue w = q @ queue w'" "log w = l @ log w'"
    and "rows w' = rows w" "letters w' = letters w" "hand pc' = hand pc @ q @ l" "returned_part pc' = []"
  shows "worked k i g pc w [] pc' w'"
proof -
  define g1 where "g1 = g\<lparr>lg_queue := queue w', lg_flight := (lg_flight g)(i := lg_flight g i + mset q)\<rparr>"
  define g2 where "g2 = g1\<lparr>lg_log := log w', lg_flight := (lg_flight g1)(i := lg_flight g1 i + mset l)\<rparr>"
  have "ledger_step i g g1" unfolding g1_def by (rule ledger_step.pulled) (use assms in \<open>simp add: sim_def\<close>)
  moreover have "ledger_step i g1 g2" unfolding g2_def
    by (rule ledger_step.drained) (use assms in \<open>simp add: sim_def g1_def\<close>)
  ultimately have "ledger_steps i g g2" by simp
  moreover have "sim g2 w'" using assms by (simp add: sim_def g2_def g1_def)
  ultimately show ?thesis using assms unfolding worked_def
    by (intro conjI exI [of _ g2]) (simp_all add: g2_def g1_def add.assoc)
qed

lemma worked_copied:
  assumes "inv k w" "sim g w" "lg_flight g i = mset batch" "fd_copy D batch w = (r, w')"
  shows "worked k i g (WCopy batch a d t) w [] (WStop batch a d t r) w'"
proof -
  let ?new = "lg_rows g @ new_rows (lg_rows g) (map copy_row batch)"
  have fr: "queue w' = queue w" "log w' = log w" "letters w' = letters w" using copy_frame [OF assms(4)] by auto
  show ?thesis
  proof (cases r)
    case (Inr n)
    note c = copy_ok [OF assms(1) assms(4) [unfolded Inr]]
    let ?h = "g\<lparr>lg_rows := ?new, lg_flight := (lg_flight g)(i := {#})\<rparr>"
    have "ledger_step i g ?h" by (rule ledger_step.stored [OF assms(3)])
    moreover have "sim ?h w'" using c fr assms(2) by (simp add: sim_def)
    ultimately show ?thesis using c fr Inr unfolding worked_def
      by (intro conjI exI [of _ ?h]) simp_all
  next
    case (Inl e)
    note c = copy_err [OF assms(1) assms(4) [unfolded Inl]]
    let ?h = "g\<lparr>lg_rows := rows w'\<rparr>"
    have "ledger_steps i g ?h"
    proof (cases "rows w' = lg_rows g")
      case True
      then show ?thesis by simp
    next
      case False
      then have "rows w' = ?new" using c assms(2) by (auto simp: sim_def)
      then show ?thesis using ledger_step.unsure [OF assms(3)] by auto
    qed
    moreover have "sim ?h w'" using c fr assms(2) by (simp add: sim_def)
    moreover have "(lg_flight g)(i := mset batch) = lg_flight g" using assms(3) by auto
    ultimately show ?thesis using c fr Inl unfolding worked_def
      by (intro conjI exI [of _ ?h]) simp_all
  qed
qed

lemma worked_dropped:
  assumes "inv k w'" "kept w w'" "rows w' = rows w" "sim g w" "lg_flight g i = mset (hand pc)"
    and "hand pc' = []" "returned_part pc' = []"
  shows "worked k i g pc w (hand pc) pc' w'"
proof -
  let ?h = "g\<lparr>lg_lost := lg_lost g + mset (hand pc), lg_flight := (lg_flight g)(i := {#})\<rparr>"
  have "ledger_step i g ?h" by (rule dropped_all) (rule assms(5))
  moreover have "sim ?h w'" using assms by (simp add: sim_def kept_def)
  ultimately show ?thesis using assms unfolding worked_def
    by (intro conjI exI [of _ ?h]) (simp_all add: kept_def)
qed

lemma worked_requeued:
  assumes "fd_wal D = Some s" "inv (Suc k) w" "ok m" "sim g w" "lg_flight g i = mset (m # ms)"
    and "src_append s m w = (x, w')"
  shows "worked k i g (WRequeue old (m # ms) e) w []
    (case x of Inl y \<Rightarrow> WDead (length old) (old @ m # ms) e | Inr key \<Rightarrow> WRequeue (old @ [m]) ms e) w'"
proof -
  note a = again [OF assms(1-3,6)]
  show ?thesis
  proof (cases x)
    case (Inl y)
    then show ?thesis using worked_same [of k w' w g i "WRequeue old (m # ms) e" "WDead (length old) (old @ m # ms) e"]
      using a assms(4,5) by (auto simp: kept_def)
  next
    case (Inr key)
    let ?h = "g\<lparr>lg_log := lg_log g @ [m], lg_flight := (lg_flight g)(i := mset ms)\<rparr>"
    have "ledger_step i g ?h" by (rule ledger_step.requeued) (use assms(5) in simp)
    moreover have "sim ?h w'" using a Inr assms(4) by (simp add: sim_def)
    ultimately show ?thesis using a Inr unfolding worked_def
      by (intro conjI exI [of _ ?h]) auto
  qed
qed

lemma worked_lettered:
  assumes "inv k w" "sim g w" "lg_flight g i = mset (drop n (m # ms))"
    and "set (take n (m # ms)) \<subseteq> set_mset (lg_taken g)" "fd_write D m (Some e) w = (x, w')"
  shows "worked k i g (WDead n (m # ms) e) w (if n = 0 \<and> x \<noteq> None then [m] else []) (WDead (n - 1) ms e) w'"
proof -
  note l = letter [OF assms(1,5)]
  have mono: "\<forall>m \<in># lg_letters g. \<exists>x \<in> set (letters w'). holds x m" using assms(2) l unfolding sim_def by blast
  show ?thesis
  proof (cases n)
    case 0
    show ?thesis
    proof (cases x)
      case None
      let ?h = "g\<lparr>lg_letters := add_mset m (lg_letters g), lg_flight := (lg_flight g)(i := mset ms)\<rparr>"
      have "ledger_step i g ?h" by (rule ledger_step.lettered) (use assms(3) 0 in simp)
      moreover have "sim ?h w'" using l None mono assms(2) by (simp add: sim_def)
      ultimately show ?thesis using l None 0 unfolding worked_def by (intro conjI exI [of _ ?h]) auto
    next
      case (Some y)
      let ?h = "g\<lparr>lg_lost := lg_lost g + {#m#}, lg_flight := (lg_flight g)(i := mset ms)\<rparr>"
      have "ledger_step i g ?h" by (rule ledger_step.dropped) (use assms(3) 0 in simp)
      moreover have "sim ?h w'" using l mono assms(2) by (simp add: sim_def)
      ultimately show ?thesis using l Some 0 unfolding worked_def by (intro conjI exI [of _ ?h]) auto
    qed
  next
    case (Suc n')
    have fl: "(lg_flight g)(i := mset (drop n' ms)) = lg_flight g" using assms(3) Suc by auto
    have sub: "set (take n' ms) \<subseteq> set (take n (m # ms))" using Suc by auto
    show ?thesis
    proof (cases x)
      case None
      let ?h = "g\<lparr>lg_letters := add_mset m (lg_letters g)\<rparr>"
      have "ledger_step i g ?h" by (rule ledger_step.relettered) (use assms(4) Suc in simp)
      moreover have "sim ?h w'" using l None mono assms(2) by (simp add: sim_def)
      ultimately show ?thesis using l None Suc fl sub unfolding worked_def
        by (intro conjI exI [of _ ?h]) auto
    next
      case (Some y)
      have "sim g w'" using l mono assms(2) by (simp add: sim_def)
      then show ?thesis using l Some Suc fl sub unfolding worked_def
        by (intro conjI exI [of _ g]) auto
    qed
  qed
qed

end


context pipeline
begin

lemma kept_refl [simp]: "kept w w"
  by (simp add: kept_def)

lemma tick_same: "inv k w \<Longrightarrow> fd_now D w = (t, w') \<Longrightarrow> inv k w' \<and> kept w w' \<and> rows w' = rows w"
  using tick by (simp add: kept_def)

lemma wait_same: "inv k w \<Longrightarrow> fd_wait D d w = (c, w') \<Longrightarrow> inv k w' \<and> kept w w' \<and> rows w' = rows w"
  using wait by (simp add: kept_def)

lemma work_step:
  assumes i: "inv (Suc k) w" and s: "sim g w" and fl: "lg_flight g i = mset (hand pc)"
    and okh: "\<forall>m \<in> set (hand pc). ok m" and ret: "set (returned_part pc) \<subseteq> set_mset (lg_taken g)"
    and st: "wstep D (pc, f, w) = (pc', f', w')"
  shows "worked k i g pc w (let_go D pc w) pc' w'"
proof -
  have k: "inv k w" by (rule inv_less [OF i])
  note same = worked_same [OF _ _ _ s fl]
  have one: ?thesis if "let_go D pc w = []" "inv k w' \<and> kept w w' \<and> rows w' = rows w"
      "hand pc' = hand pc" "set (returned_part pc') \<subseteq> set (returned_part pc) \<union> set (hand pc)"
    using same that by simp
  show ?thesis
  proof (cases pc)
    case (WSelect d)
    show ?thesis by (rule one) (use st WSelect wait_same [OF k] in \<open>auto split: prod.splits\<close>)
  next
    case WClock
    show ?thesis by (rule one) (use st WClock tick_same [OF k] in \<open>auto split: prod.splits\<close>)
  next
    case (WPull n)
    obtain q w1 where q: "fd_dequeue D n w = (q, w1)" by (metis surj_pair)
    note d = deq [OF k q]
    have w1: "w' = w1" and h: "hand pc' = q" "returned_part pc' = []"
      using st WPull q by (auto simp: begin_batch_def)
    have d2: "inv k w1" "queue w = q @ queue w1" "log w = [] @ log w1" "rows w1 = rows w" "letters w1 = letters w"
      using d by simp_all
    have "worked k i g pc w [] pc' w1"
      by (rule worked_pulled [OF d2(1) s fl d2(2-5)]) (use h WPull in simp_all)
    then show ?thesis using WPull w1 by simp
  next
    case (WTop n out)
    show ?thesis
    proof (cases "fd_wal D")
      case None
      show ?thesis by (rule one) (use st k WTop None in auto)
    next
      case (Some wal)
      obtain r w1 where r: "src_drain wal (n - int (length out)) w = (r, w1)" by (metis surj_pair)
      note d = drain [OF Some k r]
      define l where "l = (case r of Inl e \<Rightarrow> [] | Inr ms \<Rightarrow> ms)"
      have "wstep D (pc, f, w) = (begin_batch (out @ l), f, w1)"
        by (cases r) (simp_all add: WTop Some r l_def)
      then have w1: "w' = w1" and h: "hand pc' = out @ l" "returned_part pc' = []"
        unfolding st by auto
      have d2: "inv k w1" "queue w = [] @ queue w1" "log w = l @ log w1" "rows w1 = rows w" "letters w1 = letters w"
        using d by (cases r; simp add: l_def)+
      have "worked k i g pc w [] pc' w1"
        by (rule worked_pulled [OF d2(1) s fl d2(2-5)]) (use h WTop in simp_all)
      then show ?thesis using WTop w1 by simp
    qed
  next
    case (WWait batch a d e)
    obtain c w1 where c: "fd_wait D d w = (c, w1)" by (metis surj_pair)
    note ws = wait_same [OF k c]
    show ?thesis
    proof (cases c)
      case True
      then have "w' = w1" "pc' = WReset" using st WWait c by auto
      then have "worked k i g pc w (hand pc) pc' w'" using ws by (intro worked_dropped [OF _ _ _ s fl]) auto
      then show ?thesis using WWait True c by simp
    next
      case False
      show ?thesis by (rule one) (use st WWait c ws False in auto)
    qed
  next
    case (WStart batch a d)
    show ?thesis by (rule one) (use st WStart tick_same [OF k] in \<open>auto split: prod.splits\<close>)
  next
    case (WCopy batch a d t)
    obtain r w1 where r: "fd_copy D batch w = (r, w1)" by (metis surj_pair)
    then have "worked k i g pc w [] pc' w1" using worked_copied [OF k s _ r] fl st WCopy by auto
    then show ?thesis using st WCopy r by auto
  next
    case (WStop batch a d t r)
    show ?thesis
      by (rule one; cases r) (use st WStop tick_same [OF k] in \<open>auto simp: Let_def split: prod.splits\<close>)
  next
    case (WRecord d)
    then have "record_latency (fd_now D) d (f, w) = (f', w')" "pc' = WReset" using st by auto
    with record_latency_same [OF k] WRecord show ?thesis by (intro one) auto
  next
    case (WCritical batch a d e)
    then have "enter_critical (fd_now D) (f, w) = (f', w')" "pc' = WHead batch (Suc a) d (Some e)" using st by auto
    with enter_critical_same [OF k] WCritical show ?thesis by (intro one) auto
  next
    case (WExhausted batch e)
    show ?thesis
    proof (cases e)
      case None
      then have "worked k i g pc w (hand pc) pc' w'"
        using st WExhausted k by (intro worked_dropped [OF _ _ _ s fl]) auto
      then show ?thesis using WExhausted None by simp
    next
      case (Some x)
      show ?thesis by (rule one) (use st k WExhausted Some in \<open>auto split: if_splits\<close>)
    qed
  next
    case (WRequeue old todo e)
    show ?thesis
    proof (cases todo)
      case Nil
      show ?thesis by (rule one) (use st k WRequeue Nil in auto)
    next
      case (Cons m ms)
      show ?thesis
      proof (cases "fd_wal D")
        case None
        show ?thesis by (rule one) (use st k WRequeue Cons None in auto)
      next
        case (Some wal)
        obtain x w1 where x: "src_append wal m w = (x, w1)" by (metis surj_pair)
        have "worked k i g pc w [] pc' w1"
          using worked_requeued [OF Some i _ s _ x, where ms = ms and old = old and e = e] okh fl st WRequeue Cons Some x
          by (cases x) auto
        then show ?thesis using st WRequeue Cons Some x by (cases x) auto
      qed
    qed
  next
    case (WDead n rest e)
    show ?thesis
    proof (cases rest)
      case Nil
      show ?thesis by (rule one) (use st k WDead Nil in auto)
    next
      case (Cons m ms)
      obtain x w1 where x: "fd_write D m (Some e) w = (x, w1)" by (metis surj_pair)
      have "worked k i g pc w (if n = 0 \<and> x \<noteq> None then [m] else []) (WDead (n - 1) ms e) w1"
        using worked_lettered [OF k s _ _ x] fl ret WDead Cons by simp
      then show ?thesis using st WDead Cons x by (cases x; cases n) auto
    qed
  qed (rule one; use st k in \<open>auto split: if_splits\<close>)+
qed

end


subsection \<open>The subscriber's step in the ledger\<close>

context pipeline
begin

fun pending_ok :: "sub_pc \<Rightarrow> bool" where
  "pending_ok SIdle = True"
| "pending_ok (SRoute m) = ok m"
| "pending_ok (SSpill m) = ok m"

lemma count_ack_same:
  assumes "inv k w" "count_ack ack (s, w) = (s', w')"
  shows "inv k w' \<and> kept w w' \<and> rows w' = rows w \<and> sb_unparseable s' = sb_unparseable s"
proof -
  obtain x w1 where a: "ack w = (x, w1)" by (metis surj_pair)
  then have e: "w' = w1" "sb_unparseable s' = sb_unparseable s" using assms(2) by (auto simp: count_ack_def)
  show ?thesis unfolding e using acked [OF assms(1) a] by (simp add: kept_def)
qed

lemma deliver_same:
  assumes "inv (Suc k) w" "writer_ok s" "deliver S ack tn b (s, w) = (pc, s', w')"
    and "\<And>p t. parse_topic (sd_uuid_parse S) tn = Inr p \<Longrightarrow> ok (message_of S p tn b t)"
  shows "inv k w' \<and> kept w w' \<and> rows w' = rows w \<and> writer_ok s' \<and> pending_ok pc"
proof (cases "parse_topic (sd_uuid_parse S) tn")
  case (Inr p)
  obtain t w1 where now: "sd_now S w = (t, w1)" by (metis surj_pair)
  have e: "pc = SRoute (message_of S p tn b t)" "w' = w1" "sb_unparseable s' = sb_unparseable s"
    using assms(3) now Inr by (auto simp: deliver_def Let_def)
  then have "writer_ok s'" using assms(2) unfolding writer_ok_def by simp
  then show ?thesis unfolding e
    using clock [OF inv_less [OF assms(1)] now] assms(4) [OF Inr] by (simp add: kept_def)
next
  case (Inl e)
  obtain ret s2 w2 where p: "on_publish S ack tn b (s, w) = (ret, s2, w2)" by (metis prod_cases3)
  have "snd (deliver S ack tn b (s, w)) = snd (on_publish S ack tn b (s, w))"
    using publish_alone [of S ack tn b "(s, w)"] Inl by (simp add: deliver_def Let_def split: prod.splits)
  then have sw: "s' = s2" "w' = w2" using assms(3) p by auto
  have "pc = SIdle" using assms(3) Inl by (auto simp: deliver_def Let_def split: prod.splits)
  moreover have "inv k w2 \<and> sb_unparseable s2 = sb_unparseable s \<and> same w w2"
    using publish_held [OF assms(1,2) p] assms(4) Inl by simp
  moreover then have "writer_ok s2" using assms(2) unfolding writer_ok_def by simp
  ultimately show ?thesis unfolding sw by (simp add: kept_def same_def)
qed

definition routed :: "nat \<Rightarrow> ledger \<Rightarrow> 'w \<Rightarrow> message list \<Rightarrow> 'w \<Rightarrow> bool" where
  "routed k g w ms w' \<longleftrightarrow> inv k w'
     \<and> (\<exists>h. ledger_steps 0 g h \<and> sim h w' \<and> lg_flight h = lg_flight g
          \<and> lg_taken h = lg_taken g + mset ms \<and> lg_lost h = lg_lost g)
     \<and> (\<exists>q l. queue w' = queue w @ q \<and> log w' = log w @ l \<and> ms = q @ l) \<and> rows w' = rows w"

lemma routed_mset: "routed k g w ms w' \<Longrightarrow>
    mset (queue w') + mset (log w') = mset (queue w) + mset (log w) + mset ms"
  by (auto simp: routed_def)

lemma routed_none: "inv k w' \<Longrightarrow> kept w w' \<Longrightarrow> rows w' = rows w \<Longrightarrow> sim g w \<Longrightarrow> routed k g w [] w'"
  by (auto simp: routed_def kept_def sim_def intro!: exI [of _ g])

lemma routed_queued:
  assumes "inv k w'" "sim g w" "queue w' = queue w @ [m]" "log w' = log w" "rows w' = rows w" "letters w' = letters w"
  shows "routed k g w [m] w'"
proof -
  let ?h = "g\<lparr>lg_queue := lg_queue g @ [m], lg_taken := add_mset m (lg_taken g)\<rparr>"
  have "ledger_steps 0 g ?h" by (rule r_into_rtranclp) (rule ledger_step.queued)
  then show ?thesis using assms unfolding routed_def
    by (intro conjI exI [of _ ?h] exI [of _ "[m]"] exI [of _ "[]"]) (simp_all add: sim_def)
qed

lemma routed_spilled:
  assumes "inv k w'" "sim g w" "queue w' = queue w" "log w' = log w @ [m]" "rows w' = rows w" "letters w' = letters w"
  shows "routed k g w [m] w'"
proof -
  let ?h = "g\<lparr>lg_log := lg_log g @ [m], lg_taken := add_mset m (lg_taken g)\<rparr>"
  have "ledger_steps 0 g ?h" by (rule r_into_rtranclp) (rule ledger_step.spilled)
  then show ?thesis using assms unfolding routed_def
    by (intro conjI exI [of _ ?h] exI [of _ "[]"] exI [of _ "[m]"]) (simp_all add: sim_def)
qed

end


context pipeline
begin

lemma routed_acked:
  assumes "routed k g w [m] w1" "count_ack ack (s, w1) = (s', w')"
  shows "routed k g w [m] w' \<and> sb_unparseable s' = sb_unparseable s"
  using assms count_ack_same [OF _ assms(2), of k] unfolding routed_def kept_def sim_def by auto

lemma pause_writer [simp]:
  "sb_unparseable (mark_paused s) = sb_unparseable s" "sb_unparseable (clear_pause s) = sb_unparseable s"
  by (simp_all add: mark_paused_def clear_pause_def)

lemma route_step:
  assumes i: "inv (Suc k) w" and s: "sim g w" and p: "pending_ok pc"
    and st: "sub_step S ack (pc, s, w) = (ms, pc', s', w')"
  shows "routed k g w ms w' \<and> sb_unparseable s' = sb_unparseable s \<and> pending_ok pc' \<and> (\<forall>m \<in> set ms. ok m)"
proof (cases pc)
  case SIdle
  then show ?thesis using st routed_none [OF inv_less [OF i] kept_refl refl s] by simp
next
  case (SRoute m)
  obtain state err w1 where e: "sd_enqueue S m w = ((state, err), w1)" by (metis surj_pair)
  show ?thesis
  proof (cases err)
    case None
    let ?s = "if state = StatePause then mark_paused s else clear_pause s"
    note q = enq_ok [OF inv_less [OF i] _ e [unfolded None]]
    have r: "routed k g w [m] w1" by (rule routed_queued [OF _ s]) (use q p SRoute in auto)
    obtain s2 w2 where c: "count_ack ack (?s, w1) = (s2, w2)" by (metis surj_pair)
    have "ms = [m]" "pc' = SIdle" "s' = s2" "w' = w2" using st SRoute e None c by auto
    then show ?thesis using routed_acked [OF r c] p SRoute by simp
  next
    case (Some x)
    note q = enq_err [OF inv_less [OF i] e [unfolded Some]]
    have r: "routed k g w [] w1" by (rule routed_none [OF _ _ _ s]) (use q in \<open>auto simp: kept_def\<close>)
    have "ms = []" "pending_ok pc'" "w' = w1" "sb_unparseable s' = sb_unparseable s"
      using st SRoute e Some p by (auto split: if_splits)
    then show ?thesis using r by simp
  qed
next
  case (SSpill m)
  show ?thesis
  proof (cases "sd_wal S")
    case None
    then have "ms = []" "pc' = SIdle" "w' = w" "s' = mark_paused s" using st SSpill by auto
    then show ?thesis using routed_none [OF inv_less [OF i] kept_refl refl s] by simp
  next
    case (Some a)
    obtain x w1 where x: "a m w = (x, w1)" by (metis surj_pair)
    have q: "inv k w1 \<and> queue w1 = queue w \<and> log w1 = (if isl x then log w else log w @ [m])
        \<and> rows w1 = rows w \<and> letters w1 = letters w"
      using app [OF Some i _ x] p SSpill by simp
    show ?thesis
    proof (cases x)
      case (Inl e)
      then have "ms = []" "pc' = SIdle" "w' = w1" "s' = mark_paused s" using st SSpill Some x by auto
      moreover have "routed k g w [] w1" by (rule routed_none [OF _ _ _ s]) (use q Inl in \<open>auto simp: kept_def\<close>)
      ultimately show ?thesis by simp
    next
      case (Inr key)
      have r: "routed k g w [m] (sd_mark_spilled S w1)"
        by (rule routed_spilled [OF _ s]) (use q Inr mark [of k w1] in auto)
      obtain s2 w2 where c: "count_ack ack (clear_pause s, sd_mark_spilled S w1) = (s2, w2)" by (metis surj_pair)
      have "ms = [m]" "pc' = SIdle" "s' = s2" "w' = w2" using st SSpill Some x Inr c by auto
      then show ?thesis using routed_acked [OF r c] p SSpill by simp
    qed
  qed
qed

end

context pipeline
begin

definition flights :: "worker_pc list \<Rightarrow> nat \<Rightarrow> message multiset" where
  "flights ws i = (if i < length ws then mset (hand (ws ! i)) else {#})"

definition sched_inv :: "sql_row set \<Rightarrow> message multiset \<Rightarrow> nat \<Rightarrow> 'w system \<Rightarrow> bool" where
  "sched_inv base start k y \<longleftrightarrow> inv k (sy_world y) \<and> writer_ok (sy_sub y) \<and> pending_ok (sy_pc y)
     \<and> (\<exists>g. ledger_inv base g \<and> sim g (sy_world y) \<and> lg_flight g = flights (sy_workers y)
          \<and> lg_taken g = start + mset (sy_taken y) \<and> lg_lost g = mset (sy_lost y))
     \<and> (\<forall>m \<in># start + mset (sy_taken y). ok m)
     \<and> (\<forall>pc \<in> set (sy_workers y). set (returned_part pc) \<subseteq> set_mset (start + mset (sy_taken y)))
     \<and> mset (queue (sy_world y)) + mset (log (sy_world y)) + mset (hands y) \<subseteq># start + mset (sy_taken y)"

lemma flights_update: "i < length ws \<Longrightarrow> flights (ws[i := pc]) = (flights ws)(i := mset (hand pc))"
  by (auto simp: flights_def fun_eq_iff)

lemma ledger_steps_inv: "ledger_steps i g h \<Longrightarrow> ledger_inv base g \<Longrightarrow> ledger_inv base h"
  by (induction rule: rtranclp_induct) (auto intro: ledger_step_inv)

lemma hand_taken:
  assumes "sched_inv base start k y" "i < length (sy_workers y)" "m \<in> set (hand (sy_workers y ! i))"
  shows "m \<in># start + mset (sy_taken y)"
proof -
  have "m \<in> set (hands y)" using assms(2,3) by (auto simp: hands_def)
  then have "m \<in># mset (queue (sy_world y)) + mset (log (sy_world y)) + mset (hands y)" by simp
  with assms(1) show ?thesis unfolding sched_inv_def by (meson mset_subset_eqD)
qed

end


context pipeline
begin

lemma writer_cong: "sb_unparseable s' = sb_unparseable s \<Longrightarrow> writer_ok s \<Longrightarrow> writer_ok s'"
  unfolding writer_ok_def by metis

lemma deliver_inv:
  assumes v: "sched_inv base start (Suc k) y"
    and okm: "\<And>p t. parse_topic (sd_uuid_parse S) tn = Inr p \<Longrightarrow> ok (message_of S p tn b t)"
  shows "sched_inv base start k (next_state S ack D (Deliver tn b) y)"
proof (cases "sy_pc y = SIdle")
  case False
  then show ?thesis using v inv_less [of k "sy_world y"] by (simp add: sched_inv_def)
next
  case True
  obtain pc s w where d: "deliver S ack tn b (sy_sub y, sy_world y) = (pc, s, w)" by (metis prod_cases3)
  have "inv k w \<and> kept (sy_world y) w \<and> rows w = rows (sy_world y) \<and> writer_ok s \<and> pending_ok pc"
    by (rule deliver_same [OF _ _ d okm]) (use v in \<open>auto simp: sched_inv_def\<close>)
  moreover from this have "sim g w \<longleftrightarrow> sim g (sy_world y)" for g by (simp add: sim_def kept_def)
  ultimately show ?thesis using v True d by (simp add: sched_inv_def kept_def hands_def)
qed

lemma route_inv:
  assumes v: "sched_inv base start (Suc k) y"
  shows "sched_inv base start k (next_state S ack D Route y)"
proof -
  let ?w = "sy_world y"
  obtain ms pc s w where d: "sub_step S ack (sy_pc y, sy_sub y, ?w) = (ms, pc, s, w)" by (metis prod_cases4)
  obtain g where g: "ledger_inv base g" "sim g ?w" "lg_flight g = flights (sy_workers y)"
    "lg_taken g = start + mset (sy_taken y)" "lg_lost g = mset (sy_lost y)" using v by (auto simp: sched_inv_def)
  have r: "routed k g ?w ms w" "sb_unparseable s = sb_unparseable (sy_sub y)" "pending_ok pc" "\<forall>m \<in> set ms. ok m"
    using route_step [OF _ g(2) _ d] v by (auto simp: sched_inv_def)
  then obtain h where h: "ledger_steps 0 g h" "sim h w" "lg_flight h = lg_flight g"
    "lg_taken h = lg_taken g + mset ms" "lg_lost h = lg_lost g" by (auto simp: routed_def)
  have "writer_ok s" by (rule writer_cong [OF r(2)]) (use v in \<open>simp add: sched_inv_def\<close>)
  moreover have "mset (queue w) + mset (log w) + mset (hands y) \<subseteq># start + mset (sy_taken y) + mset ms"
  proof -
    have "mset (queue w) + mset (log w) + mset (hands y) = mset (queue ?w) + mset (log ?w) + mset (hands y) + mset ms"
      using routed_mset [OF r(1)] by (simp add: ac_simps)
    moreover have "mset (queue ?w) + mset (log ?w) + mset (hands y) \<subseteq># start + mset (sy_taken y)"
      using v by (simp add: sched_inv_def)
    ultimately show ?thesis by (metis mset_subset_eq_mono_add_right_cancel)
  qed
  moreover have "ledger_inv base h" by (rule ledger_steps_inv [OF h(1) g(1)])
  moreover have "\<forall>pc \<in> set (sy_workers y). set (returned_part pc) \<subseteq> set_mset (start + mset (sy_taken y @ ms))"
    using v by (fastforce simp: sched_inv_def)
  ultimately show ?thesis using v r g h d unfolding sched_inv_def
    by (auto simp: hands_def ac_simps routed_def intro!: exI [of _ h])
qed

lemma work_inv:
  assumes v: "sched_inv base start (Suc k) y"
  shows "sched_inv base start k (next_state S ack D (Work i) y)"
proof (cases "i < length (sy_workers y)")
  case False
  then show ?thesis using v inv_less [of k "sy_world y"] by (simp add: sched_inv_def)
next
  case True
  let ?w = "sy_world y" and ?pc = "sy_workers y ! i" and ?all = "start + mset (sy_taken y)"
  obtain pc f w where d: "wstep D (?pc, sy_flusher y, ?w) = (pc, f, w)" by (metis prod_cases3)
  obtain g where g: "ledger_inv base g" "sim g ?w" "lg_flight g = flights (sy_workers y)"
    "lg_taken g = ?all" "lg_lost g = mset (sy_lost y)" using v by (auto simp: sched_inv_def)
  have hand: "set (hand ?pc) \<subseteq> set_mset ?all" using hand_taken [OF v True] by auto
  have ret: "set (returned_part ?pc) \<subseteq> set_mset ?all" using v True by (auto simp: sched_inv_def)
  have okh: "\<forall>m \<in> set (hand ?pc). ok m" using v hand unfolding sched_inv_def by blast
  have "worked k i g ?pc ?w (let_go D ?pc ?w) pc w"
    by (rule work_step [OF _ g(2) _ okh _ d]) (use v g(3,4) True ret in \<open>auto simp: sched_inv_def flights_def\<close>)
  then obtain h where wk: "inv k w" "ledger_steps i g h" "sim h w" "lg_flight h = (lg_flight g)(i := mset (hand pc))"
    "lg_taken h = lg_taken g" "lg_lost h = lg_lost g + mset (let_go D ?pc ?w)"
    "set (returned_part pc) \<subseteq> set (returned_part ?pc) \<union> set (hand ?pc)"
    "mset (queue w) + mset (log w) + mset (hand pc) \<subseteq># mset (queue ?w) + mset (log ?w) + mset (hand ?pc)"
    unfolding worked_def by blast
  let ?ws = "(sy_workers y)[i := pc]"
  have rp: "\<forall>x \<in> set ?ws. set (returned_part x) \<subseteq> set_mset ?all"
  proof
    fix x assume "x \<in> set ?ws"
    then have "x = pc \<or> x \<in> set (sy_workers y)" by (meson insertE set_update_subset_insert subsetD)
    then show "set (returned_part x) \<subseteq> set_mset ?all"
      using v wk(7) hand ret unfolding sched_inv_def by blast
  qed
  have held: "mset (queue w) + mset (log w) + mset (concat (map hand ?ws)) \<subseteq># ?all"
  proof -
    let ?X = "mset (concat (map hand ?ws))"
    have e: "?X + mset (hand ?pc) = mset (hands y) + mset (hand pc)"
      using hands_update [OF True, of pc] by (simp add: hands_def)
    have "mset (queue w) + mset (log w) + mset (hand pc) + mset (hands y)
        \<subseteq># mset (queue ?w) + mset (log ?w) + mset (hand ?pc) + mset (hands y)"
      using wk(8) by simp
    then have "(mset (queue w) + mset (log w) + ?X) + mset (hand ?pc)
        \<subseteq># (mset (queue ?w) + mset (log ?w) + mset (hands y)) + mset (hand ?pc)"
      using e by (simp add: ac_simps)
    then have "mset (queue w) + mset (log w) + ?X \<subseteq># mset (queue ?w) + mset (log ?w) + mset (hands y)"
      by (simp only: mset_subset_eq_mono_add_right_cancel)
    also have "\<dots> \<subseteq># ?all" using v by (simp add: sched_inv_def)
    finally show ?thesis .
  qed
  have "ledger_inv base h" by (rule ledger_steps_inv [OF wk(2) g(1)])
  moreover have "lg_flight h = flights ?ws" using wk(4) g(3) flights_update [OF True] by simp
  ultimately show ?thesis using v True d wk(1,3,5,6) g(4,5) rp held unfolding sched_inv_def
    by (auto simp: hands_def intro!: exI [of _ h])
qed

lemma run_schedule_inv:
  assumes "sched_inv base start (length mvs + k) y"
    and "\<And>tn b p t. Deliver tn b \<in> set mvs \<Longrightarrow> parse_topic (sd_uuid_parse S) tn = Inr p \<Longrightarrow> ok (message_of S p tn b t)"
  shows "sched_inv base start k (run_schedule S ack D mvs y)"
  using assms
proof (induction mvs arbitrary: y)
  case (Cons mv mvs)
  have "sched_inv base start (length mvs + k) (next_state S ack D mv y)"
  proof (cases mv)
    case (Deliver tn b)
    show ?thesis unfolding Deliver by (rule deliver_inv) (use Cons.prems Deliver in auto)
  next
    case Route
    show ?thesis unfolding Route by (rule route_inv) (use Cons.prems in auto)
  next
    case (Work i)
    show ?thesis unfolding Work by (rule work_inv) (use Cons.prems in auto)
  qed
  from Cons.IH [OF this] Cons.prems(2) show ?case by simp
qed simp

lemma fresh_inv:
  assumes "inv k w" "sound w" "distinct (map row_key (rows w))" "writer_ok s"
  shows "sched_inv (set (rows w)) (mset (queue w) + mset (log w)) k (start_system n s f w)"
proof -
  define g where "g = \<lparr>lg_queue = queue w, lg_log = log w, lg_rows = rows w, lg_letters = {#},
    lg_flight = (\<lambda>i. {#}), lg_lost = {#}, lg_taken = mset (queue w) + mset (log w)\<rparr>"
  have "ledger_inv (set (rows w)) g" using assms(3) by (auto simp: g_def ledger_inv_def accounted_def held_def)
  moreover have "sim g w" by (simp add: g_def sim_def)
  moreover have "flights (replicate n WReset) = (\<lambda>i. {#})" by (auto simp: flights_def fun_eq_iff)
  moreover have "concat (map hand (replicate n WReset)) = []" by simp
  ultimately show ?thesis using assms unfolding sched_inv_def
    by (auto simp: start_system_def g_def hands_def sound_def intro!: exI [of _ g])
qed

lemma sched_inv_where:
  assumes "sched_inv base start k y"
  shows "\<forall>m \<in># start + mset (sy_taken y). m \<in> set (queue (sy_world y)) \<or> m \<in> set (log (sy_world y))
      \<or> m \<in> set (hands y) \<or> in_table m (rows (sy_world y)) \<or> (\<exists>x \<in> set (letters (sy_world y)). holds x m)
      \<or> m \<in> set (sy_lost y)"
    and "set (rows (sy_world y)) \<subseteq> base \<union> copy_row ` set_mset (start + mset (sy_taken y))"
    and "distinct (map row_key (rows (sy_world y)))"
proof -
  obtain g where g: "ledger_inv base g" "sim g (sy_world y)" "lg_flight g = flights (sy_workers y)"
    "lg_taken g = start + mset (sy_taken y)" "lg_lost g = mset (sy_lost y)" using assms by (auto simp: sched_inv_def)
  have fl: "m \<in># flights (sy_workers y) i \<Longrightarrow> m \<in> set (hands y)" for m i
    by (auto simp: flights_def hands_def split: if_splits)
  show "\<forall>m \<in># start + mset (sy_taken y). m \<in> set (queue (sy_world y)) \<or> m \<in> set (log (sy_world y))
      \<or> m \<in> set (hands y) \<or> in_table m (rows (sy_world y)) \<or> (\<exists>x \<in> set (letters (sy_world y)). holds x m)
      \<or> m \<in> set (sy_lost y)"
    using g fl unfolding ledger_inv_def accounted_def sim_def by (metis set_mset_mset)
  show "set (rows (sy_world y)) \<subseteq> base \<union> copy_row ` set_mset (start + mset (sy_taken y))"
    "distinct (map row_key (rows (sy_world y)))"
    using g unfolding ledger_inv_def sim_def by simp_all
qed

end


subsection \<open>Shutdown\<close>

text \<open>
  What a worker can still take before it is back at its select, and the selects that take the timer:
  only they let a worker begin another batch.
\<close>

fun pull_room :: "nat \<Rightarrow> worker_pc \<Rightarrow> nat" where
  \<comment> \<open>how many messages a worker on its way to a batch can still take from ring and WAL together\<close>
  "pull_room B WGate = B"
| "pull_room B WClock = B"
| "pull_room B (WGateRead t) = B"
| "pull_room B WSize = B"
| "pull_room B (WPull n) = nat n"
| "pull_room B (WTop n out) = nat (n - int (length out))"
| "pull_room B pc = 0"

fun timer_won :: "'w deps \<Rightarrow> worker_pc \<Rightarrow> 'w \<Rightarrow> bool" where
  "timer_won D (WSelect d) w = (\<not> fst (fd_wait D d w))"
| "timer_won D pc w = False"

fun timer_move :: "'w deps \<Rightarrow> move \<Rightarrow> 'w system \<Rightarrow> bool" where
  "timer_move D (Work i) y = (i < length (sy_workers y) \<and> timer_won D (sy_workers y ! i) (sy_world y))"
| "timer_move D mv y = False"

fun timer_wins ::
  "'w sub_deps \<Rightarrow> ('w \<Rightarrow> go_error option \<times> 'w) \<Rightarrow> 'w deps \<Rightarrow> move list \<Rightarrow> 'w system \<Rightarrow> nat" where
  \<comment> \<open>how often a worker's select takes the timer in a schedule\<close>
  "timer_wins S client_ack D [] y = 0"
| "timer_wins S client_ack D (mv # mvs) y =
     (if timer_move D mv y then 1 else 0) + timer_wins S client_ack D mvs (next_state S client_ack D mv y)"

definition rooms :: "nat \<Rightarrow> 'w system \<Rightarrow> nat" where
  "rooms B y = sum_list (map (pull_room B) (sy_workers y))"

lemma rooms_update:
  "i < length ws \<Longrightarrow> sum_list (map (pull_room B) (ws[i := pc])) + pull_room B (ws ! i)
    = sum_list (map (pull_room B) ws) + pull_room B pc"
  by (induction ws arbitrary: i) (auto split: nat.split)

lemma wstep_cfg: "wstep D (pc, f, w) = (pc', f', w') \<Longrightarrow> fl_cfg f' = fl_cfg f"
  by (cases "(D, pc, f, w)" rule: wstep.cases)
    (auto simp: Let_def record_latency_def push_latency_def maybe_recover_def
      enter_critical_def split: if_splits prod.splits sum.splits option.splits mode.splits)

lemma next_cfg: "fl_cfg (sy_flusher (next_state S client_ack D mv y)) = fl_cfg (sy_flusher y)"
  by (cases mv) (auto split: prod.split dest: wstep_cfg)

lemma run_cfg: "fl_cfg (sy_flusher (run_schedule S client_ack D mvs y)) = fl_cfg (sy_flusher y)"
  by (induction mvs arbitrary: y) (simp_all add: next_cfg)

lemma batch_limit_mode: "nat (batch_size_for_mode f) \<le> batch_limit (fl_cfg f)"
  by (auto simp: batch_size_for_mode_def batch_limit_def split: mode.splits)

lemma begin_batch_room [simp]: "pull_room B (begin_batch b) = 0"
  by (simp add: begin_batch_def)

context pipeline
begin

definition taken_upto :: "nat \<Rightarrow> 'w \<Rightarrow> 'w \<Rightarrow> bool" where
  \<comment> \<open>at most so many messages have left ring and WAL, from the front; others may have joined at the back\<close>
  "taken_upto n w w' \<longleftrightarrow> (\<exists>a b q l. queue w' = drop a (queue w) @ q \<and> log w' = drop b (log w) @ l \<and> a + b \<le> n)"

lemma taken_upto_trans:
  assumes "taken_upto n u v" "taken_upto m v w"
  shows "taken_upto (n + m) u w"
proof -
  obtain a b q l where 1: "queue v = drop a (queue u) @ q" "log v = drop b (log u) @ l" "a + b \<le> n"
    using assms(1) unfolding taken_upto_def by blast
  obtain c d r s where 2: "queue w = drop c (queue v) @ r" "log w = drop d (log v) @ s" "c + d \<le> m"
    using assms(2) unfolding taken_upto_def by blast
  have "queue w = drop (a + c) (queue u) @ (drop (c - length (drop a (queue u))) q @ r)"
    "log w = drop (b + d) (log u) @ (drop (d - length (drop b (log u))) l @ s)"
    "(a + c) + (b + d) \<le> n + m"
    using 1 2 by (simp_all add: add.commute)
  then show ?thesis unfolding taken_upto_def by blast
qed

lemma taken_none: "queue w' = queue w \<Longrightarrow> log w' = log w @ l \<Longrightarrow> taken_upto n w w'"
  unfolding taken_upto_def by (rule exI [of _ 0], rule exI [of _ 0], rule exI [of _ "[]"], rule exI [of _ l]) simp

lemma taken_kept: "kept w w' \<Longrightarrow> taken_upto n w w'"
  by (rule taken_none [where l = "[]"]) (simp_all add: kept_def)

lemma taken_front:
  "queue w = q @ queue w' \<Longrightarrow> log w = l @ log w' \<Longrightarrow> length q + length l \<le> n \<Longrightarrow> taken_upto n w w'"
  unfolding taken_upto_def by (rule exI [of _ "length q"], rule exI [of _ "length l"]) simp

lemma taken_more: "taken_upto n w w' \<Longrightarrow> n \<le> m \<Longrightarrow> taken_upto m w w'"
  unfolding taken_upto_def by (meson order_trans)

lemma work_taken:
  assumes i: "inv (Suc k) w" and okh: "\<forall>m \<in> set (hand pc). ok m"
    and B: "batch_limit (fl_cfg f) \<le> B" and st: "wstep D (pc, f, w) = (pc', f', w')"
  shows "\<exists>n. taken_upto n w w' \<and> n + pull_room B pc' \<le> pull_room B pc + (if timer_won D pc w then B else 0)"
proof -
  have k: "inv k w" by (rule inv_less [OF i])
  have still: ?thesis if "taken_upto 0 w w'"
      "pull_room B pc' \<le> pull_room B pc + (if timer_won D pc w then B else 0)"
    using that by (intro exI [of _ 0]) simp
  show ?thesis
  proof (cases pc)
    case (WSelect d)
    show ?thesis by (rule still) (use st WSelect wait_same [OF k] taken_kept in \<open>fastforce split: prod.splits if_splits\<close>)+
  next
    case WClock
    show ?thesis by (rule still) (use st WClock tick_same [OF k] taken_kept in \<open>fastforce split: prod.splits\<close>)+
  next
    case WSize
    show ?thesis
      by (rule still) (use st WSize B batch_limit_mode [of f] taken_kept [OF kept_refl] in auto)
  next
    case (WPull n)
    obtain q w1 where q: "fd_dequeue D n w = (q, w1)" by (metis surj_pair)
    note d = deq [OF k q]
    have w1: "w' = w1" and r: "pull_room B pc' \<le> nat (n - int (length q))"
      using st WPull q by (auto simp: begin_batch_def)
    have "queue w = q @ queue w1" "log w = [] @ log w1" using d by simp_all
    then have "taken_upto (length q) w w'" unfolding w1 by (rule taken_front) simp
    moreover have "length q \<le> nat n" using d by simp
    ultimately show ?thesis using r WPull by (intro exI [of _ "length q"]) auto
  next
    case (WTop n out)
    show ?thesis
    proof (cases "fd_wal D")
      case None
      show ?thesis by (rule still) (use st WTop None taken_kept [OF kept_refl] in auto)
    next
      case (Some wal)
      obtain r w1 where r: "src_drain wal (n - int (length out)) w = (r, w1)" by (metis surj_pair)
      note d = drain [OF Some k r]
      define l where "l = (case r of Inl e \<Rightarrow> [] | Inr ms \<Rightarrow> ms)"
      have "wstep D (pc, f, w) = (begin_batch (out @ l), f, w1)"
        by (cases r) (simp_all add: WTop Some r l_def)
      then have w1: "w' = w1" and pc': "pull_room B pc' = 0" unfolding st by auto
      have "queue w = [] @ queue w1" "log w = l @ log w1" using d by (cases r; simp add: l_def)+
      then have "taken_upto (length l) w w'" unfolding w1 by (rule taken_front) simp
      moreover have "length l \<le> nat (n - int (length out))" using d by (cases r) (simp_all add: l_def)
      ultimately show ?thesis using pc' WTop by (intro exI [of _ "length l"]) simp
    qed
  next
    case (WWait batch a d e)
    show ?thesis by (rule still) (use st WWait wait_same [OF k] taken_kept in \<open>fastforce split: prod.splits if_splits\<close>)+
  next
    case (WStart batch a d)
    show ?thesis by (rule still) (use st WStart tick_same [OF k] taken_kept in \<open>fastforce split: prod.splits\<close>)+
  next
    case (WCopy batch a d t)
    obtain r w1 where r: "fd_copy D batch w = (r, w1)" by (metis surj_pair)
    show ?thesis
      by (rule still) (use st WCopy r copy_frame [OF r] taken_none [of w1 w "[]"] in auto)
  next
    case (WStop batch a d t r)
    show ?thesis
      by (rule still; cases r)
        (use st WStop tick_same [OF k] taken_kept in \<open>fastforce simp: Let_def split: prod.splits\<close>)+
  next
    case (WRecord d)
    then have "record_latency (fd_now D) d (f, w) = (f', w')" "pc' = WReset" using st by auto
    with record_latency_same [OF k] WRecord show ?thesis by (intro still) (auto intro: taken_kept)
  next
    case (WCritical batch a d e)
    then have "enter_critical (fd_now D) (f, w) = (f', w')" "pc' = WHead batch (Suc a) d (Some e)" using st by auto
    with enter_critical_same [OF k] WCritical show ?thesis by (intro still) (auto intro: taken_kept)
  next
    case (WExhausted batch e)
    show ?thesis
      by (rule still; cases e) (use st WExhausted taken_kept [OF kept_refl] in \<open>auto split: if_splits\<close>)
  next
    case (WRequeue old todo e)
    show ?thesis
    proof (cases todo)
      case Nil
      show ?thesis by (rule still) (use st WRequeue Nil taken_kept [OF kept_refl] in auto)
    next
      case (Cons m ms)
      show ?thesis
      proof (cases "fd_wal D")
        case None
        show ?thesis by (rule still) (use st WRequeue Cons None taken_kept [OF kept_refl] in auto)
      next
        case (Some wal)
        obtain x w1 where x: "src_append wal m w = (x, w1)" by (metis surj_pair)
        have a: "queue w1 = queue w" "log w1 = log w @ (if isl x then [] else [m])"
          using again [OF Some i _ x] okh WRequeue Cons by auto
        have "w' = w1" "pull_room B pc' = 0" using st WRequeue Cons Some x by (cases x; auto)+
        then show ?thesis using taken_none [OF a] WRequeue by (intro still) auto
      qed
    qed
  next
    case (WDead n rest e)
    show ?thesis
    proof (cases rest)
      case Nil
      show ?thesis by (rule still) (use st WDead Nil taken_kept [OF kept_refl] in auto)
    next
      case (Cons m ms)
      obtain x w1 where x: "fd_write D m (Some e) w = (x, w1)" by (metis surj_pair)
      note l = letter [OF k x]
      have "w' = w1" "pull_room B pc' = 0" using st WDead Cons x by (cases x; auto)+
      then show ?thesis using taken_none [of w1 w "[]"] l WDead by (intro still) auto
    qed
  qed (rule still; use st taken_kept [OF kept_refl] in \<open>auto split: if_splits\<close>)+
qed

end

context pipeline
begin

lemma move_taken:
  assumes v: "sched_inv base start (Suc k) y" and B: "batch_limit (fl_cfg (sy_flusher y)) \<le> B"
    and okm: "\<And>tn b p t. mv = Deliver tn b \<Longrightarrow> parse_topic (sd_uuid_parse S) tn = Inr p \<Longrightarrow> ok (message_of S p tn b t)"
  shows "\<exists>n. taken_upto n (sy_world y) (sy_world (next_state S ack D mv y))
    \<and> n + rooms B (next_state S ack D mv y) \<le> rooms B y + (if timer_move D mv y then B else 0)"
proof (cases mv)
  case (Deliver tn b)
  have "taken_upto 0 (sy_world y) (sy_world (next_state S ack D mv y))"
  proof (cases "sy_pc y = SIdle")
    case True
    obtain pc s w where d: "deliver S ack tn b (sy_sub y, sy_world y) = (pc, s, w)" by (metis prod_cases3)
    have "inv k w \<and> kept (sy_world y) w \<and> rows w = rows (sy_world y) \<and> writer_ok s \<and> pending_ok pc"
      by (rule deliver_same [OF _ _ d okm [OF Deliver]]) (use v in \<open>auto simp: sched_inv_def\<close>)
    then show ?thesis using True d Deliver taken_kept by simp
  qed (use Deliver taken_kept [OF kept_refl] in simp)
  then show ?thesis using Deliver by (intro exI [of _ 0]) (simp add: rooms_def split: prod.split)
next
  case Route
  obtain ms pc s w where d: "sub_step S ack (sy_pc y, sy_sub y, sy_world y) = (ms, pc, s, w)" by (metis prod_cases4)
  obtain g where g: "sim g (sy_world y)" using v unfolding sched_inv_def by blast
  have "routed k g (sy_world y) ms w" using route_step [OF _ g _ d] v by (auto simp: sched_inv_def)
  then have "taken_upto 0 (sy_world y) w" unfolding routed_def taken_upto_def by force
  then show ?thesis using Route d by (intro exI [of _ 0]) (simp add: rooms_def)
next
  case (Work i)
  show ?thesis
  proof (cases "i < length (sy_workers y)")
    case True
    let ?pc = "sy_workers y ! i"
    obtain pc f w where st: "wstep D (?pc, sy_flusher y, sy_world y) = (pc, f, w)" by (metis prod_cases3)
    have "\<forall>m \<in> set (hand ?pc). ok m" using hand_taken [OF v True] v unfolding sched_inv_def by blast
    from work_taken [OF _ this B st] v obtain n where n: "taken_upto n (sy_world y) w"
      "n + pull_room B pc \<le> pull_room B ?pc + (if timer_won D ?pc (sy_world y) then B else 0)"
      unfolding sched_inv_def by blast
    then show ?thesis using rooms_update [OF True, of B pc] True st Work
      by (intro exI [of _ n]) (simp add: rooms_def split: if_splits)
  next
    case False
    then show ?thesis using Work taken_kept [OF kept_refl] by (intro exI [of _ 0]) simp
  qed
qed

lemma schedule_taken:
  assumes "sched_inv base start (length mvs + k) y" "batch_limit (fl_cfg (sy_flusher y)) \<le> B"
    and "\<And>tn b p t. Deliver tn b \<in> set mvs \<Longrightarrow> parse_topic (sd_uuid_parse S) tn = Inr p \<Longrightarrow> ok (message_of S p tn b t)"
  shows "taken_upto (rooms B y + B * timer_wins S ack D mvs y) (sy_world y) (sy_world (run_schedule S ack D mvs y))"
  using assms
proof (induction mvs arbitrary: y)
  case Nil
  then show ?case by (simp add: taken_kept)
next
  case (Cons mv mvs)
  let ?y = "next_state S ack D mv y"
  obtain n where n: "taken_upto n (sy_world y) (sy_world ?y)"
    "n + rooms B ?y \<le> rooms B y + (if timer_move D mv y then B else 0)"
    using move_taken [of base start "length mvs + k" y B mv] Cons.prems by auto
  have "sched_inv base start (length mvs + k) ?y"
    using run_schedule_inv [of base start "[mv]" "length mvs + k" y] Cons.prems by auto
  then have "taken_upto (rooms B ?y + B * timer_wins S ack D mvs ?y) (sy_world ?y)
      (sy_world (run_schedule S ack D mvs ?y))"
    by (rule Cons.IH) (use Cons.prems(2,3) in \<open>auto simp: next_cfg\<close>)
  moreover have "n + (rooms B ?y + B * timer_wins S ack D mvs ?y) \<le> rooms B y + B * timer_wins S ack D (mv # mvs) y"
    using n(2) by (auto split: if_splits)
  ultimately show ?case using taken_more [OF taken_upto_trans [OF n(1)]] by simp
qed

end

end
