(* ===== verification/Progress.thy ===== *)
theory Progress
  imports Schedule
begin

text \<open>
  Progress of the workers under any interleaving. While every call succeeds, each worker has a
  potential, from the size of the backlog and its program counter, that its own steps lower to zero and
  that the steps of the others never raise. So a bounded number of turns of each worker, in whatever
  order, empties the ring, the WAL and all hands.
\<close>

subsection \<open>Program counters of a service without errors\<close>

fun smooth :: "bool \<Rightarrow> worker_pc \<Rightarrow> bool" where
  \<comment> \<open>where a worker can be when no call has failed; the flag says that the ring is empty\<close>
  "smooth e (WPull n) \<longleftrightarrow> 1 \<le> n"
| "smooth e (WTop n out) \<longleftrightarrow> int (length out) < n \<and> (out = [] \<longrightarrow> e)"
| "smooth e (WHead batch a delay le) \<longleftrightarrow> a = 0"
| "smooth e (WStop batch a delay t r) \<longleftrightarrow> \<not> isl r"
| "smooth e (WWait batch a delay le) \<longleftrightarrow> False"
| "smooth e (WCritical batch a delay x) \<longleftrightarrow> False"
| "smooth e (WExhausted batch le) \<longleftrightarrow> False"
| "smooth e (WRequeue old todo x) \<longleftrightarrow> False"
| "smooth e (WDead n rest x) \<longleftrightarrow> False"
| "smooth e WReturned \<longleftrightarrow> False"
| "smooth e WCrashed \<longleftrightarrow> False"
| "smooth e pc \<longleftrightarrow> True"

fun rank :: "worker_pc \<Rightarrow> nat" where
  \<comment> \<open>up to 8 before the worker has taken anything, above 8 from there to the end of the round\<close>
  "rank (WTop n out) = (if out = [] then 1 else 16)"
| "rank (WPull n) = 2"
| "rank WSize = 3"
| "rank (WGateRead t) = 4"
| "rank WClock = 5"
| "rank WGate = 6"
| "rank (WSelect d) = 7"
| "rank WReset = 8"
| "rank (WRecord d) = 10"
| "rank (WRecover d) = 11"
| "rank (WStop batch a delay t r) = 12"
| "rank (WCopy batch a delay t) = 13"
| "rank (WStart batch a delay) = 14"
| "rank (WHead batch a delay le) = 15"
| "rank pc = 9"

definition potential :: "nat \<Rightarrow> worker_pc \<Rightarrow> nat" where
  \<comment> \<open>an idle worker over an empty backlog has none\<close>
  "potential b pc = 15 * b + (if b = 0 \<and> rank pc \<le> 8 then 0 else rank pc)"

lemma rank_pos: "0 < rank pc"
  by (cases pc) auto

lemma potential_zero: "potential b pc = 0 \<Longrightarrow> b = 0 \<and> hand pc = []"
  using rank_pos [of pc] by (cases pc) (auto simp: potential_def split: if_splits)

lemma potential_mono: "b' \<le> b \<Longrightarrow> potential b' pc \<le> potential b pc"
  by (auto simp: potential_def)

lemma potential_rank: "rank pc' < rank pc \<Longrightarrow> potential b pc' \<le> potential b pc - 1"
  by (auto simp: potential_def)

lemma potential_taken: "b' < b \<Longrightarrow> rank pc' \<le> rank pc + 14 \<Longrightarrow> potential b' pc' \<le> potential b pc - 1"
  using rank_pos [of pc] by (auto simp: potential_def)

lemma potential_idle: "rank pc \<le> 8 \<Longrightarrow> rank pc' \<le> 8 \<Longrightarrow> potential 0 pc' \<le> potential 0 pc - 1"
  by (simp add: potential_def)

lemma smooth_mono: "smooth e pc \<Longrightarrow> (e \<Longrightarrow> e') \<Longrightarrow> smooth e' pc"
  by (cases pc) auto

subsection \<open>One step\<close>

context pipeline
begin

definition backlog :: "'w \<Rightarrow> nat" where
  "backlog w = length (queue w) + length (log w)"

definition worldly :: "message list \<Rightarrow> 'w \<Rightarrow> message list \<Rightarrow> 'w \<Rightarrow> bool" where
  \<comment> \<open>from one world and hand to the next: nothing comes in, what goes out is in the table\<close>
  "worldly h w h' w' \<longleftrightarrow> (queue w = [] \<longrightarrow> queue w' = []) \<and> backlog w' \<le> backlog w \<and> set (rows w) \<subseteq> set (rows w')
     \<and> set (queue w' @ log w' @ h') \<subseteq> set (queue w @ log w @ h)
     \<and> (\<forall>m \<in> set (queue w @ log w @ h). m \<in> set (queue w' @ log w' @ h') \<or> in_table m (rows w'))"

definition stepped ::
  "('w \<Rightarrow> bool) \<Rightarrow> nat \<Rightarrow> worker_pc \<Rightarrow> flusher \<Rightarrow> 'w \<Rightarrow> worker_pc \<Rightarrow> flusher \<Rightarrow> 'w \<Rightarrow> bool" where
  "stepped up k pc f w pc' f' w' \<longleftrightarrow> inv k w' \<and> up w'
     \<and> fl_cfg f' = fl_cfg f \<and> critical_until f' = critical_until f
     \<and> worldly (hand pc) w (hand pc') w' \<and> smooth (queue w' = []) pc'
     \<and> potential (backlog w') pc' \<le> potential (backlog w) pc - 1"

lemma worldly_kept: "kept w w' \<Longrightarrow> rows w' = rows w \<Longrightarrow> worldly h w h w'"
  by (auto simp: worldly_def kept_def backlog_def)

lemma stepped_kept:
  assumes "inv k w'" "up w'" "kept w w'" "rows w' = rows w" "hand pc' = hand pc" "smooth (queue w' = []) pc'"
    and "rank pc' < rank pc" "fl_cfg f' = fl_cfg f" "critical_until f' = critical_until f"
  shows "stepped up k pc f w pc' f' w'"
proof -
  have "backlog w' = backlog w" using assms(3) by (simp add: kept_def backlog_def)
  then show ?thesis using assms potential_rank [OF assms(7)] worldly_kept [OF assms(3,4)]
    by (simp add: stepped_def)
qed

lemma stepped_pulled:
  assumes "inv k w'" "up w'" "queue w = q @ queue w'" "log w = l @ log w'" "rows w' = rows w"
    and "hand pc' = hand pc @ q @ l" "smooth (queue w' = []) pc'"
    and "(if q @ l = [] then rank pc' < rank pc \<or> (backlog w = 0 \<and> rank pc \<le> 8 \<and> rank pc' \<le> 8)
      else rank pc' \<le> rank pc + 14)"
  shows "stepped up k pc f w pc' f w'"
proof -
  have b: "backlog w = backlog w' + length (q @ l)" using assms(3,4) by (simp add: backlog_def)
  have "potential (backlog w') pc' \<le> potential (backlog w) pc - 1"
  proof (cases "q @ l = []")
    case True
    then have "backlog w' = backlog w" using b by simp
    then show ?thesis using assms(8) True potential_rank [of pc' pc] potential_idle [of pc pc'] by auto
  next
    case False
    then have "backlog w' < backlog w" using b by (cases "q @ l") auto
    then show ?thesis using assms(8) False potential_taken by simp
  qed
  moreover have "worldly (hand pc) w (hand pc') w'"
    using assms(3-6) b by (auto simp: worldly_def)
  ultimately show ?thesis using assms(1,2,7) by (simp add: stepped_def)
qed

lemma stepped_copied:
  assumes "stays_up up k" "up w" "inv k w" "\<forall>m \<in> set batch. payload m \<noteq> None" "fd_copy D batch w = (r, w')"
  shows "stepped up k (WCopy batch a d t) f w (WStop batch a d t r) f w'"
proof -
  have r: "\<not> isl r" "up w'" using stays_upD(1) [OF assms(1-5)] by auto
  then obtain n where n: "r = Inr n" by (cases r) auto
  note c = copy_ok [OF assms(3) assms(5) [unfolded n]] copy_frame [OF assms(5)]
  have "\<forall>m \<in> set batch. in_table m (rows w')" unfolding c [THEN conjunct2, THEN conjunct1] using c
    by (auto simp: in_table_stored)
  then have "worldly batch w [] w'" using c by (auto simp: worldly_def backlog_def in_table_stored)
  moreover have "backlog w' = backlog w" using c by (simp add: backlog_def)
  ultimately show ?thesis using r n c potential_rank [of "WStop batch a d t r" "WCopy batch a d t"]
    by (simp add: stepped_def)
qed

end

context pipeline
begin

lemma smooth_step:
  assumes up: "stays_up up k" and u: "up w" and i: "inv k w"
    and gate: "critical_until f \<le> fst (fd_now D w)"
    and cfg: "1 \<le> batch_size (fl_cfg f)" "1 \<le> elevated_batch_size (fl_cfg f)" "0 \<le> max_retries (fl_cfg f)"
    and sm: "smooth (queue w = []) pc" and pay: "\<forall>m \<in> set (hand pc). payload m \<noteq> None"
    and rd: "\<And>t. pc = WGateRead t \<Longrightarrow> critical_until f \<le> t"
    and st: "wstep D (pc, f, w) = (pc', f', w')"
  shows "stepped up k pc f w pc' f' w' \<and> let_go D pc w = []"
proof -
  have tick1: "inv k w1 \<and> up w1 \<and> kept w w1 \<and> rows w1 = rows w" if "fd_now D w = (t, w1)" for t w1
    using tick_same [OF i that] stays_upD(4) [OF up u that] by simp
  show ?thesis
  proof (cases pc)
    case (WSelect d)
    obtain c w1 where c: "fd_wait D d w = (c, w1)" by (metis surj_pair)
    have "\<not> c" "up w1" using stays_upD(5) [OF up u c] by auto
    then show ?thesis using wait_same [OF i c] st c WSelect by (auto intro!: stepped_kept)
  next
    case WClock
    then show ?thesis using st tick1 by (auto intro!: stepped_kept split: prod.splits)
  next
    case (WGateRead t)
    then show ?thesis using st rd u i by (auto intro!: stepped_kept)
  next
    case WSize
    then show ?thesis using st u i cfg by (auto intro!: stepped_kept simp: batch_size_for_mode_def)
  next
    case (WPull n)
    obtain q w1 where q: "fd_dequeue D n w = (q, w1)" by (metis surj_pair)
    obtain s where s: "fd_wal D = Some s" using stays_upD(3) [OF up u i] by blast
    note d = deq [OF i q]
    have n: "1 \<le> n" using sm WPull by simp
    have e: "queue w1 = []" if "int (length q) < n" using that d by (simp add: min_def split: if_splits)
    have pc': "pc' = (if int (length q) < n then WTop n q else begin_batch q)" "f' = f" "w' = w1"
      using st WPull q s by auto
    have q0: "int (length q) < n" if "q = []" using that n by simp
    have "stepped up k pc f w pc' f w1"
    proof (rule stepped_pulled)
      show "inv k w1" "queue w = q @ queue w1" "log w = [] @ log w1" "rows w1 = rows w" using d by auto
      show "up w1" by (rule stays_upD(2) [OF up u q])
      show "hand pc' = hand pc @ q @ []" using pc' WPull by simp
      show "smooth (queue w1 = []) pc'" using pc' e q0 by (auto simp: begin_batch_def)
      show "if q @ [] = [] then rank pc' < rank pc \<or> (backlog w = 0 \<and> rank pc \<le> 8 \<and> rank pc' \<le> 8)
        else rank pc' \<le> rank pc + 14" using pc' q0 WPull by (auto simp: begin_batch_def)
    qed
    then show ?thesis using pc' WPull by simp
  next
    case (WTop n out)
    obtain s where s: "fd_wal D = Some s" using stays_upD(3) [OF up u i] by blast
    obtain r w1 where r: "src_drain s (n - int (length out)) w = (r, w1)" by (metis surj_pair)
    have up1: "\<not> isl r" "up w1" using stays_upD(3) [OF up u i] s r by fastforce+
    then obtain l where l: "r = Inr l" by (cases r) auto
    note d = drain [OF s i r]
    have n: "int (length out) < n" and e: "out = [] \<longrightarrow> queue w = []" using sm WTop by auto
    have l0: "log w = []" if "l = []" using that d l n by auto
    have pc': "pc' = begin_batch (out @ l)" "f' = f" "w' = w1" using st WTop s r l by auto
    have "stepped up k pc f w pc' f w1"
    proof (rule stepped_pulled)
      show "inv k w1" "queue w = [] @ queue w1" "log w = l @ log w1" "rows w1 = rows w" using d l by auto
      show "up w1" by (rule up1)
      show "hand pc' = hand pc @ [] @ l" using pc' WTop by simp
      show "smooth (queue w1 = []) pc'" using pc' by (auto simp: begin_batch_def)
      show "if [] @ l = [] then rank pc' < rank pc \<or> (backlog w = 0 \<and> rank pc \<le> 8 \<and> rank pc' \<le> 8)
        else rank pc' \<le> rank pc + 14"
        using pc' e l0 WTop by (auto simp: begin_batch_def backlog_def)
    qed
    then show ?thesis using pc' WTop by simp
  next
    case (WStart batch a d)
    then show ?thesis using st tick1 by (auto intro!: stepped_kept split: prod.splits)
  next
    case (WCopy batch a d t)
    obtain r w1 where r: "fd_copy D batch w = (r, w1)" by (metis surj_pair)
    then show ?thesis using stepped_copied [OF up u i _ r] st WCopy pay by auto
  next
    case (WStop batch a d t r)
    then obtain n where "r = Inr n" using sm by (cases r) auto
    then show ?thesis using st tick1 WStop by (auto intro!: stepped_kept simp: Let_def split: prod.splits)
  next
    case (WRecord d)
    then have rl: "record_latency (fd_now D) d (f, w) = (f', w')" "pc' = WReset" using st by auto
    obtain t w1 where now: "fd_now D w = (t, w1)" by (metis surj_pair)
    have "w' = w \<or> w' = w1"
      using rl(1) now by (cases "fl_mode (push_latency d f)") (auto simp: record_latency_def Let_def split: if_splits)
    then have "up w'" using u tick1 [OF now] by auto
    then show ?thesis using rl record_latency_same [OF i rl(1)] record_latency_frame [of "fd_now D" d f w] WRecord
      by (auto intro!: stepped_kept)
  qed (use st sm u i cfg in \<open>auto intro!: stepped_kept simp: kept_def\<close>)
qed

end

subsection \<open>Any interleaving\<close>

lemma wstep_clock: "wstep D (pc, f, w) = (WGateRead t, f', w') \<Longrightarrow> t = fst (fd_now D w)"
  by (cases "(D, pc, f, w)" rule: wstep.cases)
    (auto simp: begin_batch_def Let_def split: prod.splits if_splits option.splits sum.splits)

lemma in_hands: "m \<in> set (hands y) \<longleftrightarrow> (\<exists>j < length (sy_workers y). m \<in> set (hand (sy_workers y ! j)))"
  by (simp add: hands_def) (metis in_set_conv_nth)

lemma in_hands_at:
  assumes "sy_workers z = (sy_workers y)[i := pc]" "i < length (sy_workers y)"
  shows "m \<in> set (hands z) \<longleftrightarrow> m \<in> set (hand pc)
    \<or> (\<exists>j < length (sy_workers y). j \<noteq> i \<and> m \<in> set (hand (sy_workers y ! j)))"
  unfolding in_hands assms(1) using assms(2) by (auto simp: nth_list_update)

context pipeline
begin

definition smooth_run ::
  "('w \<Rightarrow> bool) \<Rightarrow> nat \<Rightarrow> flusher \<Rightarrow> message set \<Rightarrow> sql_row set \<Rightarrow> 'w system \<Rightarrow> bool" where
  \<comment> \<open>no call has failed, and of the messages and rows there were at the start none is missing\<close>
  "smooth_run up k f base before y \<longleftrightarrow> inv k (sy_world y) \<and> up (sy_world y)
     \<and> fl_cfg (sy_flusher y) = fl_cfg f \<and> critical_until (sy_flusher y) = critical_until f
     \<and> (\<forall>pc \<in> set (sy_workers y). smooth (queue (sy_world y) = []) pc \<and> (\<forall>t. pc = WGateRead t \<longrightarrow> critical_until f \<le> t))
     \<and> (\<forall>m \<in> set (queue (sy_world y) @ log (sy_world y) @ hands y). payload m \<noteq> None)
     \<and> (\<forall>m \<in> base. m \<in> set (queue (sy_world y) @ log (sy_world y) @ hands y) \<or> in_table m (rows (sy_world y)))
     \<and> before \<subseteq> set (rows (sy_world y)) \<and> sy_lost y = []"

lemma work_smooth:
  assumes up: "stays_up up k" and gate: "\<And>u. critical_until f \<le> fst (fd_now D u)"
    and cfg: "1 \<le> batch_size (fl_cfg f)" "1 \<le> elevated_batch_size (fl_cfg f)" "0 \<le> max_retries (fl_cfg f)"
    and v: "smooth_run up k f base before y" and i: "i < length (sy_workers y)"
  defines "z \<equiv> next_state S ack D (Work i) y"
  shows "smooth_run up k f base before z" "length (sy_workers z) = length (sy_workers y)"
    "j < length (sy_workers y) \<Longrightarrow> potential (backlog (sy_world z)) (sy_workers z ! j)
      \<le> potential (backlog (sy_world y)) (sy_workers y ! j) - (if j = i then 1 else 0)"
proof -
  let ?w = "sy_world y" and ?pc = "sy_workers y ! i"
  obtain pc g w where st: "wstep D (?pc, sy_flusher y, ?w) = (pc, g, w)" by (metis prod_cases3)
  have mem: "?pc \<in> set (sy_workers y)" using i by simp
  have "set (hand ?pc) \<subseteq> set (hands y)" using i by (auto simp: in_hands)
  moreover have "\<forall>m \<in> set (hands y). payload m \<noteq> None" using v by (simp add: smooth_run_def)
  ultimately have pay: "\<forall>m \<in> set (hand ?pc). payload m \<noteq> None" by blast
  have vs: "up ?w" "inv k ?w" "fl_cfg (sy_flusher y) = fl_cfg f" "critical_until (sy_flusher y) = critical_until f"
    "smooth (queue ?w = []) ?pc" "\<And>t. ?pc = WGateRead t \<Longrightarrow> critical_until f \<le> t"
    using v mem by (simp_all add: smooth_run_def)
  have "stepped up k ?pc (sy_flusher y) ?w pc g w \<and> let_go D ?pc ?w = []"
    by (rule smooth_step [OF up vs(1,2) _ _ _ _ vs(5) pay _ st]) (simp_all add: vs(3,4,6) gate cfg)
  then have s: "stepped up k ?pc (sy_flusher y) ?w pc g w" "let_go D ?pc ?w = []" by simp_all
  have z: "sy_workers z = (sy_workers y)[i := pc]" "sy_world z = w" "sy_flusher z = g" "sy_lost z = sy_lost y"
    using i st s(2) by (simp_all add: z_def)
  show "length (sy_workers z) = length (sy_workers y)" by (simp add: z)
  show "potential (backlog (sy_world z)) (sy_workers z ! j)
      \<le> potential (backlog (sy_world y)) (sy_workers y ! j) - (if j = i then 1 else 0)"
    if "j < length (sy_workers y)"
    using that s(1) potential_mono by (cases "j = i") (auto simp: z stepped_def worldly_def)
  have wl: "worldly (hand ?pc) ?w (hand pc) w" using s(1) by (simp add: stepped_def)
  define rest where "rest = {m. \<exists>j < length (sy_workers y). j \<noteq> i \<and> m \<in> set (hand (sy_workers y ! j))}"
  have hz: "set (hands z) = set (hand pc) \<union> rest" using in_hands_at [OF z(1) i] by (auto simp: rest_def)
  have hy: "set (hands y) = set (hand ?pc) \<union> rest"
    using in_hands_at [of y y i ?pc] i by (auto simp: rest_def)
  have inn: "set (queue w @ log w @ hands z) \<subseteq> set (queue ?w @ log ?w @ hands y)"
    using wl unfolding worldly_def set_append hz hy by blast
  have out: "m \<in> set (queue w @ log w @ hands z) \<or> in_table m (rows w)"
    if "m \<in> set (queue ?w @ log ?w @ hands y)" for m
    using wl that unfolding worldly_def set_append hz hy by blast
  have table: "in_table m (rows w)" if "in_table m (rows ?w)" for m
    using that wl unfolding in_table_def worldly_def by auto
  have new: "\<forall>t. pc = WGateRead t \<longrightarrow> critical_until f \<le> t"
  proof (intro allI impI)
    fix t assume "pc = WGateRead t"
    with st have "t = fst (fd_now D ?w)" by (auto dest: wstep_clock)
    then show "critical_until f \<le> t" using gate by simp
  qed
  have pcs: "\<forall>x \<in> set (sy_workers z). smooth (queue w = []) x \<and> (\<forall>t. x = WGateRead t \<longrightarrow> critical_until f \<le> t)"
  proof
    fix x assume "x \<in> set (sy_workers z)"
    then have "x = pc \<or> x \<in> set (sy_workers y)" unfolding z by (meson insertE set_update_subset_insert subsetD)
    moreover have "smooth (queue w = []) pc" using s(1) by (simp add: stepped_def)
    moreover have "smooth (queue w = []) x" if "x \<in> set (sy_workers y)"
      by (rule smooth_mono [of "queue ?w = []"]) (use v that wl in \<open>auto simp: smooth_run_def worldly_def\<close>)
    ultimately show "smooth (queue w = []) x \<and> (\<forall>t. x = WGateRead t \<longrightarrow> critical_until f \<le> t)"
      using new v by (auto simp: smooth_run_def)
  qed
  show "smooth_run up k f base before z"
    unfolding smooth_run_def z
  proof (intro conjI)
    show "\<forall>m \<in> set (queue w @ log w @ hands z). payload m \<noteq> None"
      using v inn unfolding smooth_run_def by blast
    show "\<forall>m \<in> base. m \<in> set (queue w @ log w @ hands z) \<or> in_table m (rows w)"
      using v out table unfolding smooth_run_def by blast
  qed (use s(1) v pcs z wl in \<open>auto simp: stepped_def smooth_run_def worldly_def\<close>)
qed

end

context pipeline
begin

lemma works_smooth:
  assumes up: "stays_up up k" and gate: "\<And>u. critical_until f \<le> fst (fd_now D u)"
    and cfg: "1 \<le> batch_size (fl_cfg f)" "1 \<le> elevated_batch_size (fl_cfg f)" "0 \<le> max_retries (fl_cfg f)"
    and v: "smooth_run up k f base before y" and ks: "set ks \<subseteq> {..<length (sy_workers y)}"
  defines "z \<equiv> run_schedule S ack D (map Work ks) y"
  shows "smooth_run up k f base before z \<and> length (sy_workers z) = length (sy_workers y)
    \<and> (\<forall>j < length (sy_workers y). potential (backlog (sy_world z)) (sy_workers z ! j)
      \<le> potential (backlog (sy_world y)) (sy_workers y ! j) - count_list ks j)"
  using v ks unfolding z_def
proof (induction ks arbitrary: y)
  case (Cons i ks)
  let ?y = "next_state S ack D (Work i) y"
  have i: "i < length (sy_workers y)" using Cons.prems(2) by simp
  note one = work_smooth [OF up gate cfg Cons.prems(1) i]
  have rest: "set ks \<subseteq> {..<length (sy_workers ?y)}" using Cons.prems(2) one(2) by simp
  note ih = Cons.IH [OF one(1) rest]
  have "potential (backlog (sy_world (run_schedule S ack D (map Work ks) ?y))) (sy_workers (run_schedule S ack D (map Work ks) ?y) ! j)
      \<le> potential (backlog (sy_world y)) (sy_workers y ! j) - count_list (i # ks) j"
    if j: "j < length (sy_workers y)" for j
    using ih one(2) one(3) [OF j] j by (cases "j = i") (fastforce simp: diff_le_mono)+
  then show ?case using ih one(2) by simp
qed simp

lemma interleaved_drain:
  assumes up: "stays_up up k" and gate: "\<And>u. critical_until f \<le> fst (fd_now D u)" and w: "up w" "inv k w"
    and cfg: "1 \<le> batch_size (fl_cfg f)" "1 \<le> elevated_batch_size (fl_cfg f)" "0 \<le> max_retries (fl_cfg f)"
    and pay: "\<forall>m \<in> set (queue w @ log w). payload m \<noteq> None" and n: "0 < n" "set ks \<subseteq> {..<n}"
    and turns: "\<And>i. i < n \<Longrightarrow> 15 * backlog w + 8 \<le> count_list ks i"
    and z: "z = run_schedule S ack D (map Work ks) (start_system n s f w)"
  shows "queue (sy_world z) = [] \<and> log (sy_world z) = [] \<and> hands z = [] \<and> sy_lost z = []
    \<and> (\<forall>m \<in> set (queue w @ log w). in_table m (rows (sy_world z))) \<and> set (rows w) \<subseteq> set (rows (sy_world z))"
proof -
  let ?y = "start_system n s f w"
  have h: "hands ?y = []" by (simp add: hands_def start_system_def)
  have "smooth_run up k f (set (queue w @ log w)) (set (rows w)) ?y"
    using w pay h by (simp add: smooth_run_def start_system_def)
  note r = works_smooth [OF up gate cfg this, of ks]
  have r: "smooth_run up k f (set (queue w @ log w)) (set (rows w)) z" "length (sy_workers z) = n"
    "\<And>j. j < n \<Longrightarrow> potential (backlog (sy_world z)) (sy_workers z ! j)
        \<le> potential (backlog w) WReset - count_list ks j"
    using r n(2) unfolding z by (simp_all add: start_system_def)
  have "potential (backlog w) WReset \<le> 15 * backlog w + 8" by (simp add: potential_def)
  then have zero: "potential (backlog (sy_world z)) (sy_workers z ! j) = 0" if "j < n" for j
    using r(3) [OF that] turns [OF that] by simp
  have b: "queue (sy_world z) = []" "log (sy_world z) = []"
    using potential_zero [OF zero [OF n(1)]] by (simp_all add: backlog_def)
  have none: "hand (sy_workers z ! j) = []" if "j < n" for j
    using potential_zero [OF zero [OF that]] by simp
  have "hands z = []"
    using none r(2) by (simp add: hands_def concat_eq_Nil_conv in_set_conv_nth all_set_conv_all_nth)
  then show ?thesis using r(1) b unfolding smooth_run_def by simp
qed

end

end
