(* ===== verification/Service.thy ===== *)
theory Service
  imports Progress Wal DeadLetter
begin

text \<open>
  The service as cmd/mqtt2db-go wires it: one ring, one WAL store, one database pool and one
  dead-letter sink, shared by subscriber and flusher, and the clock. What lies outside the repository
  (Badger, gob, pgx, S3, JSON, uuid, the clock, the cancellation of the context, the timers and the client's Ack) is the record
  \<open>platform\<close>; the \<open>world\<close> is the state the operations act on.
\<close>

subsection \<open>The world and the wiring\<close>

record ('db, 'dtx, 's3, 'pg, 'ptx) platform =
  pf_badger :: "('db, 'dtx) badger"
  pf_gob :: gob
  pf_pool :: "('pg, 'ptx) pg_pool"
  pf_copier :: copier
  pf_s3 :: "'s3 s3_api"
  pf_marshal :: "envelope \<Rightarrow> go_error + byte list"
  pf_err_text :: "go_error \<Rightarrow> string"
  pf_uuid_parse :: "string \<Rightarrow> go_error + uuid"
  pf_uuid_string :: "uuid \<Rightarrow> string"
  pf_clock :: "nat \<Rightarrow> time" \<comment> \<open>the successive readings of the clock\<close>
  pf_cancelled :: "nat \<Rightarrow> bool" \<comment> \<open>whether the context is done by that reading\<close>
  pf_timer :: "nat \<Rightarrow> bool" \<comment> \<open>whether, with the context done, the timer of that select has fired as well\<close>
  pf_takes_done :: "nat \<Rightarrow> bool" \<comment> \<open>which of two ready cases that select takes: Go picks at random\<close>
  pf_ack :: "nat \<Rightarrow> go_error option" \<comment> \<open>what the successive calls of the client's Ack return\<close>

record ('db, 's3, 'pg) world =
  wd_ring :: ring
  wd_wal :: "'db wal_store"
  wd_sink :: "sink \<times> 's3"
  wd_pg :: 'pg
  wd_tick :: nat
  wd_acks :: nat \<comment> \<open>the calls of the client's Ack so far\<close>

definition read_clock ::
  "('db, 'dtx, 's3, 'pg, 'ptx) platform \<Rightarrow> ('db, 's3, 'pg) world \<Rightarrow> time \<times> ('db, 's3, 'pg) world" where
  "read_clock p w = (pf_clock p (wd_tick w), w\<lparr>wd_tick := Suc (wd_tick w)\<rparr>)"

definition service_append ::
  "('db, 'dtx, 's3, 'pg, 'ptx) platform \<Rightarrow> message \<Rightarrow> ('db, 's3, 'pg) world
   \<Rightarrow> (go_error + string) \<times> ('db, 's3, 'pg) world" where
  "service_append p m w =
     (case read_clock p w of (t, w1) \<Rightarrow>
        (case wal_append (pf_badger p) (pf_gob p) t m (wd_wal w1) of (r, s) \<Rightarrow> (r, w1\<lparr>wd_wal := s\<rparr>)))"

definition service_write ::
  "('db, 'dtx, 's3, 'pg, 'ptx) platform \<Rightarrow> message \<Rightarrow> go_error option \<Rightarrow> ('db, 's3, 'pg) world
   \<Rightarrow> go_error option \<times> ('db, 's3, 'pg) world" where
  "service_write p m e w =
     (case read_clock p w of (t1, w1) \<Rightarrow> (case read_clock p w1 of (t2, w2) \<Rightarrow> (case read_clock p w2 of (t3, w3) \<Rightarrow>
        (case sink_write (pf_uuid_string p) (pf_err_text p) (pf_marshal p) (pf_s3 p)
            \<lparr>ck_now = t1, ck_start = t2, ck_end = t3\<rparr> m e (wd_sink w3) of
           (r, d) \<Rightarrow> (r, w3\<lparr>wd_sink := d\<rparr>)))))"

definition select_done :: "('db, 'dtx, 's3, 'pg, 'ptx) platform \<Rightarrow> nat \<Rightarrow> bool" where
  \<comment> \<open>whether a select on the context and a timer takes the context's case: certainly when only the context
     is ready, by the choice of the runtime when both are\<close>
  "select_done p n \<longleftrightarrow> pf_cancelled p n \<and> (pf_timer p n \<longrightarrow> pf_takes_done p n)"

definition flusher_deps ::
  "('db, 'dtx, 's3, 'pg, 'ptx) platform \<Rightarrow> ('db, 's3, 'pg) world deps" where
  "flusher_deps p =
     \<lparr>fd_copy = (\<lambda>ms w. case copy_messages (pf_copier p) (pf_pool p) ms (wd_pg w) of (r, d) \<Rightarrow> (r, w\<lparr>wd_pg := d\<rparr>)),
      fd_dequeue = (\<lambda>n w. case dequeue n (wd_ring w) of (ms, r) \<Rightarrow> (ms, w\<lparr>wd_ring := r\<rparr>)),
      fd_wal = Some
        \<lparr>src_drain = (\<lambda>n w. case wal_drain (pf_badger p) (pf_gob p) n (wd_wal w) of (r, s) \<Rightarrow> (r, w\<lparr>wd_wal := s\<rparr>)),
         src_append = service_append p\<rparr>,
      fd_write = service_write p, fd_now = read_clock p,
      fd_wait = (\<lambda>d w. (select_done p (wd_tick w), w\<lparr>wd_tick := Suc (wd_tick w)\<rparr>))\<rparr>"

definition subscriber_deps ::
  "('db, 'dtx, 's3, 'pg, 'ptx) platform \<Rightarrow> ('db, 's3, 'pg) world sub_deps" where
  "subscriber_deps p =
     \<lparr>sd_enqueue = (\<lambda>m w. case enqueue m (wd_ring w) of (x, r) \<Rightarrow> (x, w\<lparr>wd_ring := r\<rparr>)),
      sd_mark_spilled = (\<lambda>w. w\<lparr>wd_ring := mark_spilled (wd_ring w)\<rparr>),
      sd_wal = Some (service_append p), sd_now = read_clock p,
      sd_uuid_parse = pf_uuid_parse p, sd_uuid_string = pf_uuid_string p\<rparr>"

definition side_table :: "('db, 'dtx, 's3, 'pg, 'ptx) platform \<Rightarrow> unparseable_writer
    \<Rightarrow> ('db, 's3, 'pg) world unparseable_inserter" where
  "side_table p u row w =
     (case insert_unparseable u (pf_pool p) row (wd_pg w) of (r, d) \<Rightarrow> (r, w\<lparr>wd_pg := d\<rparr>))"

subsection \<open>What the platform promises, and the invariant of the world\<close>

record ('db, 'dtx, 's3, 'pg, 'ptx) platform_view =
  vw_badger :: "('db, 'dtx) badger_view"
  vw_pg :: "('pg, 'ptx) pg_view"
  vw_puts :: "'s3 \<Rightarrow> put_input list"

definition clock_law :: "(nat \<Rightarrow> time) \<Rightarrow> bool" where
  \<comment> \<open>the clock does not run backwards and stays between 1970 and 2262\<close>
  "clock_law c \<longleftrightarrow> (\<forall>n. 0 \<le> c n \<and> c n \<le> c (Suc n) \<and> c n < 2 ^ 63)"

definition uuid_law :: "('db, 'dtx, 's3, 'pg, 'ptx) platform \<Rightarrow> bool" where
  "uuid_law p \<longleftrightarrow> (\<forall>s u. pf_uuid_parse p s = Inr u \<longrightarrow> length u = 16 \<and> length (pf_uuid_string p u) \<le> 36)"

definition side_law :: "('pg, 'ptx) pg_pool \<Rightarrow> ('pg, 'ptx) pg_view \<Rightarrow> bool" where
  \<comment> \<open>an INSERT into the side table leaves the target table alone\<close>
  "side_law pool v \<longleftrightarrow> (\<forall>u args d r d'. pool_exec pool (unparseable_sql u) args d = (r, d') \<longrightarrow> pv_rows v d' = pv_rows v d)"

definition platform_ok ::
  "('db, 'dtx, 's3, 'pg, 'ptx) platform \<Rightarrow> ('db, 'dtx, 's3, 'pg, 'ptx) platform_view \<Rightarrow> bool" where
  "platform_ok p v \<longleftrightarrow> badger_contract (pf_badger p) (vw_badger v) \<and> gob_contract (pf_gob p)
     \<and> pg_contract (pf_copier p) (pf_pool p) (vw_pg v) \<and> s3_contract (pf_s3 p) (vw_puts v)
     \<and> side_law (pf_pool p) (vw_pg v) \<and> clock_law (pf_clock p) \<and> uuid_law p"

definition world_inv ::
  "('db, 'dtx, 's3, 'pg, 'ptx) platform \<Rightarrow> ('db, 'dtx, 's3, 'pg, 'ptx) platform_view \<Rightarrow> nat
   \<Rightarrow> ('db, 's3, 'pg) world \<Rightarrow> bool" where
  \<comment> \<open>with \<open>k\<close> appends to come before the sequence number of the WAL wraps\<close>
  "world_inv p v k w \<longleftrightarrow> platform_ok p v \<and> ring_inv (wd_ring w)
     \<and> wal_inv (pf_badger p) (vw_badger v) (pf_gob p) (wd_wal w)
     \<and> wal_before (vw_badger v) (pf_clock p (wd_tick w)) (wd_wal w)
     \<and> unat (ws_seq (wd_wal w)) + k < 2 ^ 64"

definition world_queue :: "('db, 's3, 'pg) world \<Rightarrow> message list" where
  "world_queue w = ring_list (wd_ring w)"

definition world_log ::
  "('db, 'dtx, 's3, 'pg, 'ptx) platform \<Rightarrow> ('db, 'dtx, 's3, 'pg, 'ptx) platform_view
   \<Rightarrow> ('db, 's3, 'pg) world \<Rightarrow> message list" where
  "world_log p v w = wal_log (vw_badger v) (pf_gob p) (wd_wal w)"

definition world_rows :: "('db, 'dtx, 's3, 'pg, 'ptx) platform_view \<Rightarrow> ('db, 's3, 'pg) world \<Rightarrow> sql_row list" where
  "world_rows v w = pv_rows (vw_pg v) (wd_pg w)"

definition world_letters :: "('db, 'dtx, 's3, 'pg, 'ptx) platform_view \<Rightarrow> ('db, 's3, 'pg) world \<Rightarrow> put_input list" where
  "world_letters v w = vw_puts v (snd (wd_sink w))"

definition message_ok :: "message \<Rightarrow> bool" where
  "message_ok m \<longleftrightarrow> small_message m \<and> wal_message m"

lemmas world_views = world_queue_def world_log_def world_rows_def world_letters_def

lemma clock_mono: "clock_law c \<Longrightarrow> c n \<le> c (n + d)"
  by (induction d) (auto simp: clock_law_def intro: order_trans)

lemma wal_before_later:
  "wal_before v t s \<Longrightarrow> t \<le> u \<Longrightarrow> u < 2 ^ 63 \<Longrightarrow> wal_before v u s"
  by (rule wal_before_step) auto

lemma world_inv_tick:
  "world_inv p v k w \<Longrightarrow> world_inv p v k (w\<lparr>wd_tick := wd_tick w + d\<rparr>)"
  using clock_mono [of "pf_clock p" "wd_tick w" d]
    wal_before_later [of "vw_badger v" "pf_clock p (wd_tick w)" "wd_wal w" "pf_clock p (wd_tick w + d)"]
  by (auto simp: world_inv_def platform_ok_def clock_law_def)

lemma world_inv_less: "world_inv p v (Suc k) w \<Longrightarrow> world_inv p v k w"
  by (simp add: world_inv_def)

lemma read_clock_spec:
  "world_inv p v k w \<Longrightarrow> read_clock p w = (t, w') \<Longrightarrow>
    world_inv p v k w' \<and> world_queue w' = world_queue w \<and> world_log p v w' = world_log p v w
    \<and> world_rows v w' = world_rows v w \<and> world_letters v w' = world_letters v w"
  using world_inv_tick [of p v k w 1] by (auto simp: read_clock_def world_views)

lemma service_append_spec:
  assumes "world_inv p v (Suc k) w" "message_ok m" "service_append p m w = (r, w')"
  shows "world_inv p v k w' \<and> world_queue w' = world_queue w
    \<and> world_log p v w' = (if isl r then world_log p v w else world_log p v w @ [m])
    \<and> world_rows v w' = world_rows v w \<and> world_letters v w' = world_letters v w"
proof -
  let ?t = "pf_clock p (wd_tick w)" and ?u = "pf_clock p (Suc (wd_tick w))"
  obtain s where a: "wal_append (pf_badger p) (pf_gob p) ?t m (wd_wal w) = (r, s)"
    and w': "w' = w\<lparr>wd_tick := Suc (wd_tick w), wd_wal := s\<rparr>"
    using assms(3) by (auto simp: service_append_def read_clock_def split: prod.splits)
  from assms(1) have i: "wal_inv (pf_badger p) (vw_badger v) (pf_gob p) (wd_wal w)"
    "wal_before (vw_badger v) ?t (wd_wal w)" and sq: "unat (ws_seq (wd_wal w)) + 1 < 2 ^ 64"
    and c: "clock_law (pf_clock p)" and wr: "badger_writes (pf_badger p) (vw_badger v)"
    by (auto simp: world_inv_def platform_ok_def badger_contract_def)
  have t: "?t < 2 ^ 63" "?t \<le> ?u" "?u < 2 ^ 63" using c by (auto simp: clock_law_def)
  have ok: "wal_message m" using assms(2) by (simp add: message_ok_def)
  note sp = wal_append_spec [OF i(1) a ok]
  have new: "wal_newest (vw_badger v) ?t (wd_wal w)" by (rule wal_before_newest [OF i(2) order_refl t(1) sq])
  have inv: "wal_inv (pf_badger p) (vw_badger v) (pf_gob p) s
    \<and> wal_log (vw_badger v) (pf_gob p) s = (if isl r then world_log p v w else world_log p v w @ [m])"
    using sp(1) sp(2) [OF _ wal_newest_fresh [OF new]] sp(3) [OF _ new] by (cases r) (auto simp: world_log_def)
  have "wal_before (vw_badger v) ?u s"
    by (rule wal_before_later [OF wal_append_before [OF wr a i(2) order_refl t(1) sq] t(2,3)])
  moreover have "unat (ws_seq s) + k < 2 ^ 64"
    using wal_append_cases(1) [OF a wr] seq_less [OF sq] assms(1) by (simp add: world_inv_def)
  ultimately have "world_inv p v k w'" using assms(1) inv w' by (simp add: world_inv_def)
  then show ?thesis using inv w' by (simp add: world_views)
qed


lemma service_write_spec:
  assumes "world_inv p v k w" "service_write p m e w = (r, w')"
  shows "world_inv p v k w' \<and> world_queue w' = world_queue w \<and> world_log p v w' = world_log p v w
    \<and> world_rows v w' = world_rows v w \<and> set (world_letters v w) \<subseteq> set (world_letters v w')
    \<and> (r = None \<longrightarrow> (\<exists>x \<in> set (world_letters v w'). letter_holds (pf_uuid_string p) (pf_err_text p) (pf_marshal p) x m))"
proof -
  define ck where "ck = \<lparr>ck_now = pf_clock p (wd_tick w), ck_start = pf_clock p (Suc (wd_tick w)),
    ck_end = pf_clock p (Suc (Suc (wd_tick w)))\<rparr>"
  obtain d where d: "sink_write (pf_uuid_string p) (pf_err_text p) (pf_marshal p) (pf_s3 p) ck m e (wd_sink w) = (r, d)"
    and w': "w' = (w\<lparr>wd_tick := wd_tick w + 3\<rparr>)\<lparr>wd_sink := d\<rparr>"
    using assms(2) by (auto simp: service_write_def read_clock_def ck_def eval_nat_numeral split: prod.splits)
  have "s3_contract (pf_s3 p) (vw_puts v)" using assms(1) by (simp add: world_inv_def platform_ok_def)
  from dl.put_grows [OF this, of _ _ _ "\<lambda>x. ck", OF d] world_inv_tick [OF assms(1), of 3]
  show ?thesis using w' by (auto simp: world_views world_inv_def)
qed

lemma flusher_deps_simps [simp]:
  "fd_now (flusher_deps p) = read_clock p" "fd_write (flusher_deps p) = service_write p"
  by (simp_all add: flusher_deps_def)

lemma subscriber_deps_simps [simp]:
  "sd_now (subscriber_deps p) = read_clock p" "sd_wal (subscriber_deps p) = Some (service_append p)"
  "sd_uuid_parse (subscriber_deps p) = pf_uuid_parse p" "sd_uuid_string (subscriber_deps p) = pf_uuid_string p"
  by (simp_all add: subscriber_deps_def)

text \<open>The client's Ack is a call on the connection. It leaves ring, WAL, database and bucket alone, and it
  may fail: it does when manual acknowledgement is not enabled. The world counts the calls.\<close>

definition broker_ack ::
  "('db, 'dtx, 's3, 'pg, 'ptx) platform \<Rightarrow> ('db, 's3, 'pg) world \<Rightarrow> go_error option \<times> ('db, 's3, 'pg) world" where
  "broker_ack p w = (pf_ack p (wd_acks w), w\<lparr>wd_acks := Suc (wd_acks w)\<rparr>)"

interpretation sv: intake "subscriber_deps p" "broker_ack p" world_queue "world_log p v"
    "\<lambda>w. (world_rows v w, world_letters v w)" "world_inv p v" message_ok for p v
proof
  fix k and w w' :: "('a, 'c, 'd) world" and m st e a r t x
  show "world_inv p v (Suc k) w \<Longrightarrow> world_inv p v k w" by (rule world_inv_less)
  show "world_inv p v k w' \<and> world_queue w' = world_queue w @ [m] \<and> world_log p v w' = world_log p v w
      \<and> (world_rows v w', world_letters v w') = (world_rows v w, world_letters v w)"
    if h: "world_inv p v k w" "message_ok m" "sd_enqueue (subscriber_deps p) m w = ((st, None), w')"
  proof -
    obtain q where q: "enqueue m (wd_ring w) = ((st, None), q)" "w' = w\<lparr>wd_ring := q\<rparr>"
      using h(3) by (auto simp: subscriber_deps_def split: prod.splits)
    from rq.enq_ok [OF _ _ q(1)] h(1,2) q(2) show ?thesis
      by (simp add: world_inv_def message_ok_def world_views)
  qed
  show "world_inv p v k w' \<and> world_queue w' = world_queue w \<and> world_log p v w' = world_log p v w
      \<and> (world_rows v w', world_letters v w') = (world_rows v w, world_letters v w) \<and> is_err_full e"
    if h: "world_inv p v k w" "sd_enqueue (subscriber_deps p) m w = ((st, Some e), w')"
  proof -
    obtain q where q: "enqueue m (wd_ring w) = ((st, Some e), q)" "w' = w\<lparr>wd_ring := q\<rparr>"
      using h(2) by (auto simp: subscriber_deps_def split: prod.splits)
    from rq.enq_err [OF _ q(1)] h(1) q(2) show ?thesis by (simp add: world_inv_def world_views)
  qed
  show "world_inv p v k (sd_mark_spilled (subscriber_deps p) w)
      \<and> world_queue (sd_mark_spilled (subscriber_deps p) w) = world_queue w
      \<and> world_log p v (sd_mark_spilled (subscriber_deps p) w) = world_log p v w
      \<and> (world_rows v (sd_mark_spilled (subscriber_deps p) w), world_letters v (sd_mark_spilled (subscriber_deps p) w))
        = (world_rows v w, world_letters v w)"
    if h: "world_inv p v k w"
    using rq.mark [of "wd_ring w"] h by (simp add: subscriber_deps_def world_inv_def world_views)
  show "world_inv p v k w' \<and> world_queue w' = world_queue w
      \<and> world_log p v w' = (if isl r then world_log p v w else world_log p v w @ [m])
      \<and> (world_rows v w', world_letters v w') = (world_rows v w, world_letters v w)"
    if h: "sd_wal (subscriber_deps p) = Some a" "world_inv p v (Suc k) w" "message_ok m" "a m w = (r, w')"
    using service_append_spec [OF h(2,3), of r w'] h(1,4) by simp
  show "world_inv p v k w' \<and> world_queue w' = world_queue w \<and> world_log p v w' = world_log p v w
      \<and> (world_rows v w', world_letters v w') = (world_rows v w, world_letters v w)"
    if h: "world_inv p v k w" "sd_now (subscriber_deps p) w = (t, w')"
    using read_clock_spec [OF h(1), of t w'] h(2) by simp
  show "world_inv p v k w' \<and> world_queue w' = world_queue w \<and> world_log p v w' = world_log p v w
      \<and> (world_rows v w', world_letters v w') = (world_rows v w, world_letters v w)"
    if h: "world_inv p v k w" "broker_ack p w = (x, w')"
    using h by (auto simp: broker_ack_def world_inv_def world_views)
qed


interpretation svc: pipeline "subscriber_deps p" "broker_ack p" world_queue "world_log p v" "world_rows v"
    "world_letters v" "world_inv p v" message_ok "flusher_deps p"
    "letter_holds (pf_uuid_string p) (pf_err_text p) (pf_marshal p)" for p v
proof unfold_locales
  fix k and w w' :: "('a, 'c, 'd) world" and m ms s lim n e le c t d rd ra rw rc
  let ?D = "flusher_deps p"
  show "world_inv p v k w' \<and> ms = take (nat lim) (world_queue w) \<and> world_queue w' = drop (nat lim) (world_queue w)
      \<and> world_log p v w' = world_log p v w \<and> world_rows v w' = world_rows v w \<and> world_letters v w' = world_letters v w"
    if h: "world_inv p v k w" "fd_dequeue ?D lim w = (ms, w')"
  proof -
    obtain q where q: "dequeue lim (wd_ring w) = (ms, q)" "w' = w\<lparr>wd_ring := q\<rparr>"
      using h(2) by (auto simp: flusher_deps_def split: prod.splits)
    have i: "ring_inv (wd_ring w)" using h(1) by (simp add: world_inv_def)
    from rq.deq [OF i q(1)] h(1) q(2) show ?thesis
      by (simp add: world_inv_def world_views)
  qed
  show "world_inv p v k w' \<and> world_queue w' = world_queue w
      \<and> (case rd of Inl e \<Rightarrow> world_log p v w' = world_log p v w
           | Inr ms \<Rightarrow> ms = take (nat lim) (world_log p v w) \<and> world_log p v w' = drop (nat lim) (world_log p v w))
      \<and> world_rows v w' = world_rows v w \<and> world_letters v w' = world_letters v w"
    if h: "fd_wal ?D = Some s" "world_inv p v k w" "src_drain s lim w = (rd, w')"
  proof -
    obtain q where q: "wal_drain (pf_badger p) (pf_gob p) lim (wd_wal w) = (rd, q)" "w' = w\<lparr>wd_wal := q\<rparr>"
      using h(1,3) by (auto simp: flusher_deps_def split: prod.splits)
    have i: "wal_inv (pf_badger p) (vw_badger v) (pf_gob p) (wd_wal w)"
      and wr: "badger_writes (pf_badger p) (vw_badger v)"
      and b: "wal_before (vw_badger v) (pf_clock p (wd_tick w)) (wd_wal w)"
      using h(2) by (auto simp: world_inv_def platform_ok_def badger_contract_def)
    note sp = wal_drain_spec [OF i q(1)]
    have "world_inv p v k w'"
      using h(2) q(2) sp(1,4) wal_drain_before [OF wr q(1) b sp(4)] by (simp add: world_inv_def)
    then show ?thesis using sp(2,3) q(2) by (cases rd) (auto simp: world_views)
  qed
  show "world_inv p v k w' \<and> world_queue w' = world_queue w
      \<and> world_log p v w' = (if isl ra then world_log p v w else world_log p v w @ [m])
      \<and> world_rows v w' = world_rows v w \<and> world_letters v w' = world_letters v w"
    if h: "fd_wal ?D = Some s" "world_inv p v (Suc k) w" "message_ok m" "src_append s m w = (ra, w')"
    using service_append_spec [OF h(2,3), of ra w'] h(1,4) by (auto simp: flusher_deps_def)
  show "world_inv p v k w' \<and> world_rows v w' = world_rows v w @ new_rows (world_rows v w) (map copy_row ms)
      \<and> n = int (length (new_rows (world_rows v w) (map copy_row ms)))"
    if h: "world_inv p v k w" "fd_copy ?D ms w = (Inr n, w')"
  proof -
    obtain d where d: "copy_messages (pf_copier p) (pf_pool p) ms (wd_pg w) = (Inr n, d)" "w' = w\<lparr>wd_pg := d\<rparr>"
      using h(2) by (auto simp: flusher_deps_def split: prod.splits)
    have "pg_contract (pf_copier p) (pf_pool p) (vw_pg v)" using h(1) by (simp add: world_inv_def platform_ok_def)
    from ci.copy_ok [OF this d(1)] h(1) d(2) show ?thesis by (simp add: world_inv_def world_views)
  qed
  show "world_inv p v k w' \<and> (world_rows v w' = world_rows v w
      \<or> world_rows v w' = world_rows v w @ new_rows (world_rows v w) (map copy_row ms))"
    if h: "world_inv p v k w" "fd_copy ?D ms w = (Inl e, w')"
  proof -
    obtain d where d: "copy_messages (pf_copier p) (pf_pool p) ms (wd_pg w) = (Inl e, d)" "w' = w\<lparr>wd_pg := d\<rparr>"
      using h(2) by (auto simp: flusher_deps_def split: prod.splits)
    have "pg_contract (pf_copier p) (pf_pool p) (vw_pg v)" using h(1) by (simp add: world_inv_def platform_ok_def)
    from ci.copy_err [OF this d(1)] h(1) d(2) show ?thesis by (simp add: world_inv_def world_views)
  qed
  show "world_queue w' = world_queue w \<and> world_log p v w' = world_log p v w \<and> world_letters v w' = world_letters v w"
    if h: "fd_copy ?D ms w = (rc, w')"
    using h by (auto simp: flusher_deps_def world_views split: prod.splits)
  show "world_inv p v k w' \<and> world_queue w' = world_queue w \<and> world_log p v w' = world_log p v w
      \<and> world_rows v w' = world_rows v w \<and> set (world_letters v w) \<subseteq> set (world_letters v w')
      \<and> (rw = None \<longrightarrow> (\<exists>x \<in> set (world_letters v w').
           letter_holds (pf_uuid_string p) (pf_err_text p) (pf_marshal p) x m))"
    if h: "world_inv p v k w" "fd_write ?D m le w = (rw, w')"
    using service_write_spec [OF h(1), of m le rw w'] h(2) by simp
  show "world_inv p v k w' \<and> world_queue w' = world_queue w \<and> world_log p v w' = world_log p v w
      \<and> world_rows v w' = world_rows v w \<and> world_letters v w' = world_letters v w"
    if h: "world_inv p v k w" "fd_now ?D w = (t, w')"
    using read_clock_spec [OF h(1), of t w'] h(2) by simp
  show "world_inv p v k w' \<and> world_queue w' = world_queue w \<and> world_log p v w' = world_log p v w
      \<and> world_rows v w' = world_rows v w \<and> world_letters v w' = world_letters v w"
    if h: "world_inv p v k w" "fd_wait ?D d w = (c, w')"
    using world_inv_tick [OF h(1), of 1] h(2) by (auto simp: flusher_deps_def world_views)
qed


subsection \<open>Messages and the side table\<close>

lemma show_nat_length: "n < 10 ^ Suc k \<Longrightarrow> length (show_nat n) \<le> Suc k"
proof (induction k arbitrary: n)
  case 0
  then show ?case by (simp add: show_nat.simps [of n])
next
  case (Suc k)
  show ?case
  proof (cases "n < 10")
    case True
    then show ?thesis by (simp add: show_nat.simps [of n])
  next
    case False
    have "n div 10 < 10 ^ Suc k" using Suc.prems by (simp add: div_less_iff_less_mult)
    from Suc.IH [OF this] False show ?thesis by (simp add: show_nat.simps [of n])
  qed
qed

lemma show_int_length: "length (show_int (unix_nano t)) \<le> 21"
proof -
  have r: "- (2 ^ 63) \<le> unix_nano t" "unix_nano t < 2 ^ 63"
    using i64_range [of t] by (auto simp: unix_nano_def in_i64_def)
  have "nat (unix_nano t) < 10 ^ Suc 19" "nat (- unix_nano t) < 10 ^ Suc 19" using r by auto
  from this [THEN show_nat_length] show ?thesis by (auto simp: show_int_def)
qed

lemma parse_topic_sizes:
  assumes "parse_topic up tn = Inr pt"
  shows "length tn \<le> 1024" "length (pt_tenant pt) \<le> 64" "\<exists>d. up d = Inr (pt_device pt)"
  using assms unfolding parse_topic_Inr_parts by (auto simp: max_topic_len_def valid_tenant_def)

lemma publish_message_ok:
  assumes "uuid_law p" "parse_topic (pf_uuid_parse p) tn = Inr pt" "go_len b < 2 ^ 61"
  shows "message_ok (message_of (subscriber_deps p) pt tn b t)"
proof -
  note sz = parse_topic_sizes [OF assms(2)]
  have u: "length (pt_device pt) = 16" "length (pf_uuid_string p (pt_device pt)) \<le> 36"
    using assms(1) sz(3) by (auto simp: uuid_law_def)
  have "go_len (clone_bytes b) = go_len b" by (simp add: go_len_def)
  then have "message_size (message_of (subscriber_deps p) pt tn b t)
      \<le> int (go_len b) + 1024 + 64 + (36 + 1 + 21)"
    using sz u show_int_length [of t] by (simp add: message_size_def message_of_def make_dedup_key_def)
  moreover have "int (go_len b) < 2 ^ 61" using assms(3) by (simp add: zless_nat_conj)
  ultimately have "small_message (message_of (subscriber_deps p) pt tn b t)"
    unfolding small_message_def by simp
  moreover have "clone_bytes b \<noteq> Some []" by (simp add: clone_bytes_def)
  ultimately show ?thesis using u(1) by (simp add: message_ok_def wal_message_def message_of_def)
qed

abbreviation service_writer_ok where
  "service_writer_ok p v \<equiv> intake.writer_ok world_queue (world_log p v)
     (\<lambda>w. (world_rows v w, world_letters v w)) (world_inv p v)"

lemma side_table_ok:
  assumes "platform_ok p v" "sb_unparseable s = Some (side_table p u)"
  shows "service_writer_ok p v s"
  unfolding sv.writer_ok_def
proof (intro allI impI)
  fix ins row w r w' k
  assume h: "sb_unparseable s = Some ins \<and> ins row w = (r, w') \<and> world_inv p v k w"
  then obtain d where d: "insert_unparseable u (pf_pool p) row (wd_pg w) = (r, d)" "w' = w\<lparr>wd_pg := d\<rparr>"
    using assms(2) by (auto simp: side_table_def split: prod.splits)
  have "pv_rows (vw_pg v) d = pv_rows (vw_pg v) (wd_pg w)"
    using d(1) assms(1) unfolding platform_ok_def side_law_def insert_unparseable_def
    by (auto simp: Let_def split: if_splits prod.splits option.splits)
  then show "world_inv p v k w' \<and> intake.same world_queue (world_log p v)
      (\<lambda>w. (world_rows v w, world_letters v w)) w w'"
    using h d(2) unfolding sv.same_def by (simp add: world_inv_def world_views)
qed

end
