(* ===== verification/Guarantees.thy ===== *)
theory Guarantees
  imports Service
begin

text \<open>
  What the service as a whole guarantees: the acknowledgement, conservation of messages over a run,
  the outcomes of a flush on ring, WAL, database and bucket, the refinement of the ledger, draining, and
  where the guarantees end. The witnesses run on a platform in memory.
\<close>

subsection \<open>A platform in memory\<close>

definition quiet_pool :: "(mem_db, unit) pg_pool" where
  "quiet_pool = mem_pool\<lparr>pool_exec := (\<lambda>sql args w. (None, w))\<rparr>"

definition demo_platform :: "(kv_write list, kv_write list, put_input list, mem_db, unit) platform" where
  "demo_platform = \<lparr>pf_badger = mem_badger, pf_gob = table_gob, pf_pool = quiet_pool, pf_copier = demo_copier,
     pf_s3 = mem_s3, pf_marshal = (\<lambda>env. Inr [1]), pf_err_text = (\<lambda>e. ''boom''),
     pf_uuid_parse = demo_uuid_parse, pf_uuid_string = (\<lambda>u. ''cafe''), pf_clock = (\<lambda>n. int (min n 1000)),
     pf_cancelled = (\<lambda>n. False), pf_timer = (\<lambda>n. False), pf_takes_done = (\<lambda>n. True),
     pf_ack = (\<lambda>n. Some (ErrText ''manual acknowledgments not enabled''))\<rparr>"

definition demo_view :: "(kv_write list, kv_write list, put_input list, mem_db, unit) platform_view" where
  "demo_view = \<lparr>vw_badger = mem_badger_view, vw_pg = mem_view, vw_puts = (\<lambda>w. w)\<rparr>"

definition demo_world :: "(kv_write list, put_input list, mem_db) world" where
  "demo_world = \<lparr>wd_ring = demo_ring, wd_wal = empty_store, wd_sink = (demo_sink, []), wd_pg = empty_db, wd_tick = 0, wd_acks = 0\<rparr>"

definition demo_writer :: unparseable_writer where
  "demo_writer = \<lparr>uw_schema = ''public'', uw_table = unparseable_table_name\<rparr>"

definition service_subscriber :: "(kv_write list, put_input list, mem_db) world subscriber" where
  "service_subscriber = set_unparseable_inserter (Some (side_table demo_platform demo_writer)) demo_subscriber"

lemma demo_platform_ok: "platform_ok demo_platform demo_view"
proof -
  have "pg_contract demo_copier quiet_pool mem_view"
    using mem_pool_contract by (simp add: pg_contract_def begin_law_def copy_law_def insert_law_def
        commit_law_def quiet_pool_def)
  moreover have "side_law quiet_pool mem_view" by (simp add: side_law_def quiet_pool_def)
  moreover have "clock_law (\<lambda>n. int (min n 1000))" by (auto simp: clock_law_def min_def)
  ultimately show ?thesis
    using mem_badger_contract table_gob_contract mem_s3_contract
    by (simp add: platform_ok_def demo_platform_def demo_view_def uuid_law_def demo_uuid_parse_def)
qed

lemma demo_world_inv: "k < 2 ^ 63 \<Longrightarrow> world_inv demo_platform demo_view k demo_world"
proof -
  have "ring_inv demo_ring" using new_ring_inv(1) [OF demo_ring_new] by (simp add: demo_buffer_config_def)
  moreover assume "k < 2 ^ 63"
  ultimately show ?thesis using demo_platform_ok empty_store_inv(1)
    by (simp add: world_inv_def demo_world_def demo_platform_def demo_view_def empty_store_inv)
      (simp add: empty_store_def)
qed

lemma demo_world_empty:
  "world_queue demo_world = []" "world_log demo_platform demo_view demo_world = []"
  "world_rows demo_view demo_world = []" "world_letters demo_view demo_world = []"
  using new_ring_inv(2) [OF demo_ring_new]
  by (simp_all add: world_views demo_world_def demo_platform_def demo_view_def empty_store_inv
      demo_buffer_config_def mem_view_def empty_db_def)

subsection \<open>The acknowledgement\<close>

text \<open>Every call of the client's Ack is counted in the metrics, and nothing else is.\<close>

lemma side_table_acks: "side_table p u row w = (r, w') \<Longrightarrow> wd_acks w' = wd_acks w"
  by (auto simp: side_table_def split: prod.splits)

lemma world_acks:
  "fd_now (flusher_deps p) w = (t, w') \<Longrightarrow> wd_acks w' = wd_acks w"
  "sd_enqueue (subscriber_deps p) m w = (x, w') \<Longrightarrow> wd_acks w' = wd_acks w"
  "wd_acks (sd_mark_spilled (subscriber_deps p) w) = wd_acks w"
  "service_append p m w = (y, w') \<Longrightarrow> wd_acks w' = wd_acks w"
  by (auto simp: read_clock_def subscriber_deps_def service_append_def split: prod.splits)

lemma route_acks:
  assumes "route_message (subscriber_deps p) m (s, w) = (ok, s', w')"
  shows "wd_acks w' = wd_acks w \<and> sm_acked (sb_m s') = sm_acked (sb_m s)"
  using assms world_acks(2-4) [of p]
  by (auto simp: route_message_def mark_paused_def clear_pause_def Let_def split: prod.splits option.splits sum.splits if_splits)

lemma publish_acks:
  assumes "sb_unparseable s = Some (side_table p u)"
    and "on_publish (subscriber_deps p) (broker_ack p) tn b (s, w) = (ret, s', w')"
  shows "int (wd_acks w') - int (wd_acks w) = sm_acked (sb_m s') - sm_acked (sb_m s)"
proof -
  let ?s1 = "s\<lparr>sb_m := (sb_m s)\<lparr>sm_received := sm_received (sb_m s) + 1\<rparr>\<rparr>"
  obtain t w1 where now: "read_clock p w = (t, w1)" by (metis surj_pair)
  then have w1: "wd_acks w1 = wd_acks w" by (auto simp: read_clock_def)
  show ?thesis
  proof (cases "parse_topic (sd_uuid_parse (subscriber_deps p)) tn")
    case (Inl e)
    then show ?thesis using assms now w1
      by (auto simp: on_publish_def handle_message_def handle_parse_failure_def call_ack_def broker_ack_def Let_def
          dest!: side_table_acks split: prod.splits option.splits)
  next
    case (Inr pt)
    obtain ok s2 w2 where r: "route_message (subscriber_deps p) (message_of (subscriber_deps p) pt tn b t) (?s1, w1)
      = (ok, s2, w2)" by (metis prod_cases3)
    from route_acks [OF r] assms(2) now Inr r w1 show ?thesis
      by (cases ok) (auto simp: on_publish_def handle_message_def call_ack_def broker_ack_def Let_def)
  qed
qed

text \<open>C4: Ack means held. On the service's own ring and WAL, a publish whose topic parses makes onPublish call
  the client's Ack exactly when its message, with a copy of the payload and the reception time, was put
  at the end of the ring's queue or at the end of the log, once and in one of the two, and then it calls it
  once; otherwise it does not call it and ring and log are as they were. For one whose topic does not
  parse Ack is called once, and it reaches neither. The Acked counter counts these calls, whatever Ack
  returns. (When the packet itself is acknowledged is up to the client: Start leaves manual
  acknowledgement off, and then Ack fails and the client acknowledges after onPublish has returned.)\<close>
theorem publish_acked_held:
  assumes "world_inv p v (Suc k) w" "sb_unparseable s = Some (side_table p u)" "go_len b < 2 ^ 61"
    and "on_publish (subscriber_deps p) (broker_ack p) tn b (s, w) = (ret, s', w')"
  shows "sm_acked (sb_m s') - sm_acked (sb_m s) = int (wd_acks w') - int (wd_acks w)
    \<and> (case parse_topic (pf_uuid_parse p) tn of
      Inl e \<Rightarrow> wd_acks w' = Suc (wd_acks w)
        \<and> world_queue w' = world_queue w \<and> world_log p v w' = world_log p v w
    | Inr pt \<Rightarrow>
        let m = message_of (subscriber_deps p) pt tn b (pf_clock p (wd_tick w))
        in wd_acks w' = Suc (wd_acks w)
             \<and> (world_queue w' = world_queue w @ [m] \<and> world_log p v w' = world_log p v w
                \<or> world_queue w' = world_queue w \<and> world_log p v w' = world_log p v w @ [m])
           \<or> wd_acks w' = wd_acks w
             \<and> world_queue w' = world_queue w \<and> world_log p v w' = world_log p v w)"
proof -
  have ok: "platform_ok p v" using assms(1) by (simp add: world_inv_def)
  then have uu: "uuid_law p" by (simp add: platform_ok_def)
  have m: "parse_topic (sd_uuid_parse (subscriber_deps p)) tn = Inr pt \<Longrightarrow>
      message_ok (message_of (subscriber_deps p) pt tn b t)" for pt t
    using publish_message_ok [OF uu _ assms(3)] by simp
  have now: "fst (read_clock p w) = pf_clock p (wd_tick w)" by (simp add: read_clock_def)
  note acks = publish_acks [OF assms(2,4)]
  from sv.publish_held [OF assms(1) side_table_ok [OF ok assms(2)] assms(4) m] acks
  show ?thesis by (auto simp: sv.same_def sv.took_def now Let_def split: sum.split)
qed


lemma demo_parsed: "parse_topic (pf_uuid_parse demo_platform) demo_topic = Inr demo_parsed"
  by (simp add: demo_platform_def demo_topic_parses)

lemma demo_run:
  "sm_acked (sb_m (fst (snd (on_publish (subscriber_deps demo_platform) (broker_ack demo_platform) demo_topic (Some [7])
      (service_subscriber, demo_world))))) = 1"
  by code_simp

lemma publish_acked_held_witness:
  "case on_publish (subscriber_deps demo_platform) (broker_ack demo_platform) demo_topic (Some [7])
      (service_subscriber, demo_world) of
     (ret, s', w') \<Rightarrow> wd_acks w' = 1 \<and> length (world_queue w') + length (world_log demo_platform demo_view w') = 1"
proof -
  obtain ret s' w' where run: "on_publish (subscriber_deps demo_platform) (broker_ack demo_platform) demo_topic (Some [7])
      (service_subscriber, demo_world) = (ret, s', w')" by (metis prod_cases3)
  have inv: "world_inv demo_platform demo_view (Suc 0) demo_world" by (rule demo_world_inv) simp
  have "sb_unparseable service_subscriber = Some (side_table demo_platform demo_writer)"
    by (simp add: service_subscriber_def set_unparseable_inserter_def)
  moreover have "go_len (Some [7]) < 2 ^ 61" by (simp add: go_len_def bytes_of_def)
  moreover have "sm_acked (sb_m service_subscriber) = 0"
    by (simp add: service_subscriber_def set_unparseable_inserter_def demo_subscriber_def zero_subscriber_metrics_def)
  moreover have "wd_acks demo_world = 0" by (simp add: demo_world_def)
  moreover have "sm_acked (sb_m s') = 1" using demo_run run by simp
  ultimately show ?thesis
    using publish_acked_held [OF inv _ _ run, of demo_writer] run by (auto simp: demo_parsed demo_world_empty Let_def)
qed

subsection \<open>Conservation\<close>

text \<open>C1: nothing is lost. Over any sequence of publishes and worker rounds of the service, as long as no round
  is cut off by the cancellation of the context and the sink takes the letters it is given, every message
  that was in ring or WAL at the start and every message acknowledged since is, at the end, in the ring,
  in the WAL, in a dead letter, or its dedup key is in the table. Ring and WAL hold nothing else, the
  table has gained no row but theirs, and no key twice.\<close>
theorem service_conserves:
  assumes "world_inv p v (appends (fl_cfg f) evs) w" "sb_unparseable s = Some (side_table p u)"
    and "\<forall>m \<in> set (world_queue w) \<union> set (world_log p v w). message_ok m"
    and "distinct (map row_key (world_rows v w))"
    and "0 \<le> batch_size (fl_cfg f)" "0 \<le> elevated_batch_size (fl_cfg f)"
    and "\<forall>tn b. Publish tn b \<in> set evs \<longrightarrow> go_len b < 2 ^ 61"
    and "run_service (subscriber_deps p) (broker_ack p) (flusher_deps p) evs (s, f, w) = (ms, ts, s', f', w')"
  shows "(Ran Cancelled \<notin> set ts \<and> Ran Panicked \<notin> set ts \<and> (\<forall>m e w. fst (service_write p m e w) = None) \<longrightarrow>
      (\<forall>m \<in> set (world_queue w) \<union> set (world_log p v w) \<union> set ms.
         m \<in> set (world_queue w') \<or> m \<in> set (world_log p v w') \<or> in_table m (world_rows v w')
         \<or> (\<exists>x \<in> set (world_letters v w').
              letter_holds (pf_uuid_string p) (pf_err_text p) (pf_marshal p) x m)))
    \<and> set (world_queue w') \<union> set (world_log p v w')
        \<subseteq> set (world_queue w) \<union> set (world_log p v w) \<union> set ms
    \<and> set (world_rows v w') \<subseteq> set (world_rows v w)
        \<union> copy_row ` (set (world_queue w) \<union> set (world_log p v w) \<union> set ms)
    \<and> distinct (map row_key (world_rows v w'))"
proof -
  have ok: "platform_ok p v" using assms(1) by (simp add: world_inv_def)
  then have uu: "uuid_law p" by (simp add: platform_ok_def)
  have m: "Publish tn b \<in> set evs \<Longrightarrow> parse_topic (sd_uuid_parse (subscriber_deps p)) tn = Inr pt \<Longrightarrow>
      message_ok (message_of (subscriber_deps p) pt tn b t)" for tn b pt t
    using publish_message_ok [OF uu] assms(7) by simp
  have sound: "pipeline.sound world_queue (world_log p v) message_ok w" using assms(3) by (simp add: svc.sound_def)
  have quiet: "pipeline.quiet (flusher_deps p) out" if "Ran Cancelled \<notin> set ts" "Ran Panicked \<notin> set ts"
      "\<forall>m e w. fst (service_write p m e w) = None" "Ran out \<in> set ts" for out
    using that by (auto simp: svc.quiet_def)
  from svc.run_conserves [OF assms(1) sound side_table_ok [OF ok assms(2)] assms(4-6) m assms(8)]
  show ?thesis using quiet by blast
qed


definition small_flusher :: flusher where
  "small_flusher = demo_flusher\<lparr>fl_cfg := (fl_cfg demo_flusher)\<lparr>batch_size := 2, elevated_batch_size := 3, max_retries := 0\<rparr>\<rparr>"


lemma demo_write: "fst (service_write demo_platform m e w) = None"
  by (simp add: service_write_def read_clock_def sink_write_def demo_platform_def mem_s3_def dead_key_def
      Let_def split: prod.split)

lemma service_conserves_witness:
  "case run_service (subscriber_deps demo_platform) (broker_ack demo_platform) (flusher_deps demo_platform)
      [Publish demo_topic (Some [7])] (service_subscriber, small_flusher, demo_world) of
     (ms, ts, s', f', w') \<Rightarrow> length ms = 1
       \<and> (\<forall>m \<in> set ms. m \<in> set (world_queue w') \<or> m \<in> set (world_log demo_platform demo_view w')
            \<or> in_table m (world_rows demo_view w') \<or> world_letters demo_view w' \<noteq> [])"
proof -
  let ?evs = "[Publish demo_topic (Some [7])]"
  obtain ms ts s' f' w' where run: "run_service (subscriber_deps demo_platform) (broker_ack demo_platform)
      (flusher_deps demo_platform) ?evs (service_subscriber, small_flusher, demo_world) = (ms, ts, s', f', w')"
    by (metis prod_cases5)
  have acked: "sm_acked (sb_m service_subscriber) = 0"
    by (simp add: service_subscriber_def set_unparseable_inserter_def demo_subscriber_def zero_subscriber_metrics_def)
  have one: "length ms = 1" "ts = []"
    using run demo_run acked by (auto simp: Let_def accepted_of_def demo_parsed split: prod.splits)
  have inv: "world_inv demo_platform demo_view (appends (fl_cfg small_flusher) ?evs) demo_world"
    by (rule demo_world_inv) (simp add: appends_def)
  have sb: "sb_unparseable service_subscriber = Some (side_table demo_platform demo_writer)"
    by (simp add: service_subscriber_def set_unparseable_inserter_def)
  have "0 \<le> batch_size (fl_cfg small_flusher)" "0 \<le> elevated_batch_size (fl_cfg small_flusher)"
    by (simp_all add: small_flusher_def)
  moreover have "\<forall>tn b. Publish tn b \<in> set ?evs \<longrightarrow> go_len b < 2 ^ 61" by (simp add: go_len_def bytes_of_def)
  ultimately show ?thesis
    using service_conserves [OF inv sb _ _ _ _ _ run] one run by (fastforce simp: demo_world_empty demo_write)
qed

subsection \<open>The outcomes of a flush\<close>

text \<open>C6: where a batch goes. After flushWithRetry on the service's own stores the ring is as it was and the
  table is as it was or has gained exactly the batch's new rows; a flushed batch is in the table and
  nowhere else, a requeued one is at the end of the log, in order, and in no letter, and of a dead-lettered
  one every message is in a letter when the sink took them all, the log having gained a prefix of the
  batch at most. A batch whose wait was cancelled is left in neither ring, log nor letters.\<close>
theorem flush_destinations:
  assumes "world_inv p v (length batch) w" "\<forall>m \<in> set batch. message_ok m"
    and "flush_with_retry (flusher_deps p) batch (f, w) = (out, f', w')"
  shows "world_queue w' = world_queue w
    \<and> (world_rows v w' = world_rows v w \<or> world_rows v w' = world_rows v w @ new_rows (world_rows v w) (map copy_row batch))
    \<and> (out = Flushed \<longrightarrow> world_log p v w' = world_log p v w \<and> world_letters v w' = world_letters v w
         \<and> world_rows v w' = world_rows v w @ new_rows (world_rows v w) (map copy_row batch))
    \<and> (out = Requeued \<longrightarrow> world_log p v w' = world_log p v w @ batch \<and> world_letters v w' = world_letters v w)
    \<and> (out = Cancelled \<longrightarrow> world_log p v w' = world_log p v w \<and> world_letters v w' = world_letters v w)
    \<and> (out = DeadLettered \<longrightarrow> (\<exists>pre post. batch = pre @ post \<and> world_log p v w' = world_log p v w @ pre)
         \<and> ((\<forall>m e w. fst (service_write p m e w) = None) \<longrightarrow>
              (\<forall>m \<in> set batch. \<exists>x \<in> set (world_letters v w').
                 letter_holds (pf_uuid_string p) (pf_err_text p) (pf_marshal p) x m)))"
proof -
  have i: "world_inv p v (length batch + 0) w" using assms(1) by simp
  note fe = svc.flush_effect [OF i assms(2,3)]
  have dead: "(\<exists>pre post. batch = pre @ post \<and> world_log p v w' = world_log p v w @ pre)
      \<and> ((\<forall>m e w. fst (service_write p m e w) = None) \<longrightarrow>
           (\<forall>m \<in> set batch. \<exists>x \<in> set (world_letters v w').
              letter_holds (pf_uuid_string p) (pf_err_text p) (pf_marshal p) x m))" if "out = DeadLettered"
  proof -
    from fe that obtain pre post gone lost where d: "batch = pre @ post" "world_log p v w' = world_log p v w @ pre"
      "mset batch = mset gone + mset lost"
      "\<forall>m \<in> set gone. \<exists>x \<in> set (world_letters v w'). letter_holds (pf_uuid_string p) (pf_err_text p) (pf_marshal p) x m"
      "(\<forall>m e w. fst (service_write p m e w) = None) \<longrightarrow> lost = []" unfolding flusher_deps_simps by blast
    have "lost = [] \<Longrightarrow> set batch = set gone" using d(3) by (metis add.right_neutral mset.simps(1) set_mset_mset)
    with d show ?thesis by blast
  qed
  show ?thesis using fe dead unfolding svc.ins.stored_def svc.kept_def by blast
qed


lemma flush_destinations_witness:
  "case flush_with_retry (flusher_deps demo_platform) [wal_demo_message ''a''] (small_flusher, demo_world) of
     (out, f', w') \<Rightarrow> world_queue w' = [] \<and> length (world_rows demo_view w') \<le> 1"
proof -
  obtain out f' w' where run: "flush_with_retry (flusher_deps demo_platform) [wal_demo_message ''a'']
      (small_flusher, demo_world) = (out, f', w')" by (metis prod_cases3)
  have inv: "world_inv demo_platform demo_view (length [wal_demo_message ''a'']) demo_world"
    by (rule demo_world_inv) simp
  have "message_ok (wal_demo_message ''a'')"
    by (simp add: message_ok_def small_message_def wal_message_def wal_demo_message_def message_size_def
        zero_message_def go_len_def bytes_of_def)
  then have ok: "\<forall>m \<in> set [wal_demo_message ''a'']. message_ok m" by simp
  have "world_queue w' = []" "world_rows demo_view w' = []
      \<or> world_rows demo_view w' = new_rows [] (map copy_row [wal_demo_message ''a''])"
    using flush_destinations [OF inv ok run] unfolding demo_world_empty by simp_all
  moreover have "length (new_rows [] (map copy_row [wal_demo_message ''a''])) \<le> 1" by simp
  ultimately show ?thesis unfolding run by auto
qed

subsection \<open>A nil payload\<close>

text \<open>C32: one message with a nil payload, which is what an empty MQTT payload becomes, keeps its whole batch
  out of the table. On the service's own stores flushWithRetry never flushes such a batch, however often it
  retries, and the table is as it was; with a retry count that is not negative the batch, the good messages
  with it, goes back to the WAL, to the dead letters, or is dropped by a cancelled wait, and never back to
  the WAL when the database reports its errors as not-null violations, SQLSTATE 23502.\<close>
theorem nil_payload_poisons_batch:
  assumes "platform_ok p v" "m \<in> set batch" "payload m = None"
    and "flush_with_retry (flusher_deps p) batch (f, w) = (out, f', w')"
  shows "out \<noteq> Flushed \<and> world_rows v w' = world_rows v w
    \<and> (0 \<le> max_retries (fl_cfg f) \<longrightarrow> out \<in> {Requeued, DeadLettered, Cancelled})
    \<and> ((\<forall>d e d'. copy_messages (pf_copier p) (pf_pool p) batch d = (Inl e, d') \<longrightarrow> as_pg_error e = Some ''23502'')
        \<longrightarrow> out \<noteq> Requeued)"
proof -
  let ?D = "flusher_deps p" and ?P = "\<lambda>u. world_rows v u = world_rows v w"
  have con: "pg_contract (pf_copier p) (pf_pool p) (vw_pg v)" using assms(1) by (simp add: platform_ok_def)
  have copy: "world_rows v u' = world_rows v u \<and> isl r" if "fd_copy ?D batch u = (r, u')" for u r u'
    using nil_payload_fails [OF con assms(2,3), of "wd_pg u"] that
    by (auto simp: flusher_deps_def world_rows_def split: prod.splits)
  have "?P (snd (fd_copy ?D batch u)) \<and> isl (fst (fd_copy ?D batch u))" if "?P u" for u
    using copy [of u] that by (cases "fd_copy ?D batch u") simp
  then have "keeps ?P ?D batch"
    unfolding keeps_def
    by (auto simp: flusher_deps_def read_clock_def service_append_def service_write_def world_rows_def split: prod.splits)
  from flush_keeps [OF this refl assms(4)] have out: "out \<noteq> Flushed" "world_rows v w' = world_rows v w" by simp_all
  have "out \<in> {Requeued, DeadLettered, Cancelled}" if "0 \<le> max_retries (fl_cfg f)"
    using flush_not_panicked [OF assms(4) that] out(1) by (cases out) simp_all
  moreover have "out \<noteq> Requeued"
    if e: "\<forall>d e d'. copy_messages (pf_copier p) (pf_pool p) batch d = (Inl e, d') \<longrightarrow> as_pg_error e = Some ''23502''"
  proof
    assume rq: "out = Requeued"
    have "0 \<le> max_retries (fl_cfg f)"
      using negative_retries_panic [of "(f, w)" ?D batch] assms(4) rq by fastforce
    from assms(4) this show False
    proof (cases rule: flush_cases)
      case (requeued wal e' w1 w2 fw1)
      then have "as_pg_error e' = Some ''23502''"
        using e by (auto simp: flusher_deps_def split: prod.splits)
      with requeued(3) show False by (simp add: is_poison_error_def has_prefix_def)
    qed (use rq in auto)
  qed
  ultimately show ?thesis using out by blast
qed

lemma nil_payload_poisons_batch_witness:
  "case flush_with_retry (flusher_deps demo_platform) [demo_row_message ''a'' (Some [1]), demo_row_message ''b'' None]
      (small_flusher, demo_world) of
     (out, f', w') \<Rightarrow> out \<noteq> Flushed \<and> world_rows demo_view w' = []"
proof -
  let ?ms = "[demo_row_message ''a'' (Some [1]), demo_row_message ''b'' None]"
  obtain out f' w' where run: "flush_with_retry (flusher_deps demo_platform) ?ms (small_flusher, demo_world) = (out, f', w')"
    by (metis prod_cases3)
  have "demo_row_message ''b'' None \<in> set ?ms" "payload (demo_row_message ''b'' None) = None"
    by (simp_all add: demo_row_message_def)
  from nil_payload_poisons_batch [OF demo_platform_ok this run] run show ?thesis by (simp add: demo_world_empty)
qed

subsection \<open>Refinement of the ledger\<close>

definition ledger_of ::
  "('db, 'dtx, 's3, 'pg, 'ptx) platform \<Rightarrow> ('db, 'dtx, 's3, 'pg, 'ptx) platform_view
   \<Rightarrow> ('db, 's3, 'pg) world \<Rightarrow> ledger" where
  "ledger_of p v w = \<lparr>lg_queue = world_queue w, lg_log = world_log p v w, lg_rows = world_rows v w,
     lg_letters = {#}, lg_flight = (\<lambda>i. {#}), lg_lost = {#},
     lg_taken = mset (world_queue w) + mset (world_log p v w)\<rparr>"

text \<open>C5: a round of the worker is a run of the specification. Whatever the outcome, one round of worker
  number i takes the ledger of the world before it, by steps of worker i, to one that agrees with the
  world after it in ring, log and table, has only letters that are in the bucket, leaves nothing in the
  worker's hands, and has lost something only if the wait was cancelled, the loop panicked, or the sink
  refused a letter.\<close>
theorem worker_round_refines:
  assumes "world_inv p v (batch_limit (fl_cfg f)) w"
    and "\<forall>m \<in> set (world_queue w) \<union> set (world_log p v w). message_ok m"
    and "0 \<le> batch_size (fl_cfg f)" "0 \<le> elevated_batch_size (fl_cfg f)"
    and "worker_tick (flusher_deps p) (f, w) = (t, f', w')"
  shows "\<exists>h. ledger_steps i (ledger_of p v w) h
    \<and> lg_queue h = world_queue w' \<and> lg_log h = world_log p v w' \<and> lg_rows h = world_rows v w'
    \<and> (\<forall>m \<in># lg_letters h. \<exists>x \<in> set (world_letters v w').
         letter_holds (pf_uuid_string p) (pf_err_text p) (pf_marshal p) x m)
    \<and> lg_flight h i = {#} \<and> lg_taken h = lg_taken (ledger_of p v w)
    \<and> (lg_lost h \<noteq> {#} \<longrightarrow> t = Ran Cancelled \<or> t = Ran Panicked
         \<or> t = Ran DeadLettered \<and> (\<exists>m e u. fst (service_write p m e u) \<noteq> None))"
proof -
  have i: "world_inv p v (batch_limit (fl_cfg f) + 0) w" using assms(1) by simp
  have "pipeline.sound world_queue (world_log p v) message_ok w" using assms(2) by (simp add: svc.sound_def)
  moreover have "pipeline.sim world_queue (world_log p v) (world_rows v) (world_letters v)
      (letter_holds (pf_uuid_string p) (pf_err_text p) (pf_marshal p)) (ledger_of p v w) w"
    by (simp add: svc.sim_def ledger_of_def)
  moreover have "lg_flight (ledger_of p v w) i = {#}" by (simp add: ledger_of_def)
  ultimately obtain h where h: "ledger_steps i (ledger_of p v w) h"
    "pipeline.sim world_queue (world_log p v) (world_rows v) (world_letters v)
      (letter_holds (pf_uuid_string p) (pf_err_text p) (pf_marshal p)) h w'"
    "lg_flight h i = {#}" "lg_taken h = lg_taken (ledger_of p v w)"
    "(\<forall>out. t = Ran out \<longrightarrow> pipeline.quiet (flusher_deps p) out) \<longrightarrow> lg_lost h = lg_lost (ledger_of p v w)"
    using svc.tick_sim [OF i _ _ _ assms(3-5), where i = i] by blast
  have "lg_lost (ledger_of p v w) = {#}" by (simp add: ledger_of_def)
  then have "lg_lost h \<noteq> {#} \<longrightarrow> (\<exists>out. t = Ran out \<and> \<not> pipeline.quiet (flusher_deps p) out)"
    using h(5) by metis
  then have "lg_lost h \<noteq> {#} \<longrightarrow> t = Ran Cancelled \<or> t = Ran Panicked
      \<or> t = Ran DeadLettered \<and> (\<exists>m e u. fst (service_write p m e u) \<noteq> None)"
    unfolding svc.quiet_def flusher_deps_simps by metis
  then show ?thesis using h(1-4) unfolding svc.sim_def by blast
qed

definition ring_of_one :: "(kv_write list, put_input list, mem_db) world" where
  "ring_of_one = demo_world\<lparr>wd_ring := snd (enqueue (demo_message 1) demo_ring)\<rparr>"

lemma ring_of_one_inv:
  assumes "k < 2 ^ 63"
  shows "world_inv demo_platform demo_view k ring_of_one" "world_queue ring_of_one = [demo_message 1]"
    "world_log demo_platform demo_view ring_of_one = []" "\<not> md_lost_ack (wd_pg ring_of_one)"
proof -
  have "fst (enqueue (demo_message 1) demo_ring) = (StateSpill, None)" by code_simp
  then obtain r where r: "enqueue (demo_message 1) demo_ring = ((StateSpill, None), r)" by (metis prod.collapse)
  have ri: "ring_inv demo_ring" "ring_list demo_ring = []"
    using new_ring_inv [OF demo_ring_new] by (simp_all add: demo_buffer_config_def)
  have "ring_inv r \<and> ring_list r = [demo_message 1]"
    using rq.enq_ok [OF ri(1) demo_messages_small(1) r] ri(2) by simp
  then show "world_inv demo_platform demo_view k ring_of_one" "world_queue ring_of_one = [demo_message 1]"
    "world_log demo_platform demo_view ring_of_one = []"
    using demo_world_inv [OF assms] demo_world_empty(2) r by (simp_all add: ring_of_one_def world_inv_def world_views)
  show "\<not> md_lost_ack (wd_pg ring_of_one)" by (simp add: ring_of_one_def demo_world_def empty_db_def)
qed

lemma worker_round_refines_witness:
  "lg_queue (ledger_of demo_platform demo_view ring_of_one) = [demo_message 1]
    \<and> (\<exists>h. ledger_steps 0 (ledger_of demo_platform demo_view ring_of_one) h \<and> lg_flight h 0 = {#}
      \<and> lg_queue h = world_queue (snd (snd (worker_tick (flusher_deps demo_platform) (small_flusher, ring_of_one)))))"
proof -
  obtain t f' w' where run: "worker_tick (flusher_deps demo_platform) (small_flusher, ring_of_one) = (t, f', w')"
    by (metis prod_cases3)
  have "batch_limit (fl_cfg small_flusher) < 2 ^ 63" by (simp add: batch_limit_def small_flusher_def)
  note r = ring_of_one_inv [OF this]
  have wal: "wal_message (demo_message 1)" by (simp add: demo_message_def wal_message_def)
  have ok: "\<forall>m \<in> set (world_queue ring_of_one) \<union> set (world_log demo_platform demo_view ring_of_one). message_ok m"
    using demo_messages_small(1) wal by (simp add: r(2,3) message_ok_def)
  have "0 \<le> batch_size (fl_cfg small_flusher)" "0 \<le> elevated_batch_size (fl_cfg small_flusher)"
    by (simp_all add: small_flusher_def)
  with worker_round_refines [OF r(1) ok _ _ run, of 0] r(2) show ?thesis using run by (auto simp: ledger_of_def)
qed

subsection \<open>Redelivery\<close>

text \<open>C38: redelivery is not collapsed. A publish that the broker delivers twice, so that it is received at two
  different nanoseconds, is stored as two rows: the dedup key, which the unique index of the table
  compares, is made of device and reception time.\<close>
theorem redelivery_stored_twice:
  assumes "pg_contract (pf_copier p) (pf_pool p) v"
    and "unix_nano t1 \<noteq> unix_nano t2"
    and "m1 = message_of (subscriber_deps p) pt tn b t1" "m2 = message_of (subscriber_deps p) pt tn b t2"
    and "\<not> in_table m1 (pv_rows v d)" "\<not> in_table m2 (pv_rows v d)"
    and "copy_messages (pf_copier p) (pf_pool p) [m1, m2] d = (Inr n, d')"
  shows "pv_rows v d' = pv_rows v d @ [copy_row m1, copy_row m2] \<and> n = 2 \<and> payload m1 = payload m2
    \<and> topic m1 = topic m2"
proof -
  have key: "dedup_key m1 \<noteq> dedup_key m2"
    using assms(2-4) by (simp add: message_of_def make_dedup_key_def show_int_inj)
  have "new_rows (pv_rows v d) (map copy_row [m1, m2]) = [copy_row m1, copy_row m2]"
    using key assms(5,6) by (auto simp: in_table_def)
  with ci.copy_ok [OF assms(1,7)] assms(3,4) show ?thesis by (simp add: message_of_def)
qed

lemma redelivery_stored_twice_witness:
  "case copy_messages demo_copier quiet_pool
      [message_of (subscriber_deps demo_platform) demo_parsed demo_topic (Some [7]) 5,
       message_of (subscriber_deps demo_platform) demo_parsed demo_topic (Some [7]) 6] empty_db of
     (r, d') \<Rightarrow> r = Inr 2 \<and> length (md_rows d') = 2"
proof -
  let ?m = "\<lambda>t. message_of (subscriber_deps demo_platform) demo_parsed demo_topic (Some [7]) t"
  have pf: "pf_copier demo_platform = demo_copier" "pf_pool demo_platform = quiet_pool"
    by (simp_all add: demo_platform_def)
  have con: "pg_contract (pf_copier demo_platform) (pf_pool demo_platform) mem_view"
    using demo_platform_ok by (simp add: platform_ok_def demo_view_def)
  have "payload (?m t) \<noteq> None" for t by (simp add: message_of_def clone_bytes_def bytes_of_def)
  then have nn: "\<not> null_payload (copy_row (?m t))" for t
    by (simp add: null_payload_def copy_row_def)
  obtain n d' where run: "copy_messages (pf_copier demo_platform) (pf_pool demo_platform) [?m 5, ?m 6] empty_db = (Inr n, d')"
    using nn unfolding pf by (simp add: copy_messages_def copy_in_tx_def quiet_pool_def mem_pool_def demo_copier_def
        mem_insert_def mem_commit_def empty_db_def Let_def del: new_rows.simps)
  have "unix_nano 5 \<noteq> unix_nano 6" by (simp add: unix_nano_def i64_def)
  moreover have "\<not> in_table x (pv_rows mem_view empty_db)" for x
    by (simp add: in_table_def mem_view_def empty_db_def)
  ultimately have "pv_rows mem_view d' = pv_rows mem_view empty_db @ [copy_row (?m 5), copy_row (?m 6)] \<and> n = 2"
    using redelivery_stored_twice [OF con _ refl refl _ _ run] by blast
  then show ?thesis using run unfolding pf by (simp add: mem_view_def empty_db_def)
qed


subsection \<open>Draining\<close>

lemma service_stays_up:
  assumes "\<And>ms d r d'. healthy d \<Longrightarrow> \<forall>m \<in> set ms. payload m \<noteq> None \<Longrightarrow>
      copy_messages (pf_copier p) (pf_pool p) ms d = (r, d') \<Longrightarrow> \<not> isl r \<and> healthy d'"
    and "\<And>s n. wal_inv (pf_badger p) (vw_badger v) (pf_gob p) s \<Longrightarrow>
      \<not> isl (fst (wal_drain (pf_badger p) (pf_gob p) n s))"
    and "\<And>n. \<not> pf_cancelled p n"
  shows "pipeline.stays_up (world_inv p v) (flusher_deps p) (\<lambda>w. healthy (wd_pg w)) k"
proof -
  let ?D = "flusher_deps p" and ?up = "\<lambda>w. healthy (wd_pg w)"
  show ?thesis
    unfolding svc.stays_up_def
  proof (intro conjI allI impI)
    fix u ms r u'
    assume "?up u \<and> world_inv p v k u \<and> (\<forall>m \<in> set ms. payload m \<noteq> None) \<and> fd_copy ?D ms u = (r, u')"
    with assms(1) [of "wd_pg u" ms r "wd_pg u'"] show "\<not> isl r" "?up u'"
      by (auto simp: flusher_deps_def split: prod.splits)
  next
    fix u n r u'
    assume h: "?up u \<and> world_inv p v k u"
    then have "\<not> isl (fst (wal_drain (pf_badger p) (pf_gob p) n (wd_wal u)))"
      using assms(2) by (simp add: world_inv_def)
    with h show "case fd_wal ?D of None \<Rightarrow> False | Some s \<Rightarrow> src_drain s n u = (r, u') \<longrightarrow> \<not> isl r \<and> ?up u'"
      by (auto simp: flusher_deps_def split: prod.splits)
  qed (use assms(3) in \<open>auto simp: flusher_deps_def read_clock_def select_done_def split: prod.splits\<close>)
qed

text \<open>C7: the backlog drains. Suppose no message in ring and WAL has a nil payload (one that has fails its batch,
  see above). Once the database is up and stays up, with an open gate, a WAL that can be read
  and a context that is not done, a worker needs at most as many rounds as there are messages in ring
  and WAL: after that many both are empty, every one of the messages is in the table, and no row that
  was there is gone.\<close>
theorem service_drains:
  assumes "world_inv p v k w" "healthy (wd_pg w)"
    and "\<And>ms d r d'. healthy d \<Longrightarrow> \<forall>m \<in> set ms. payload m \<noteq> None \<Longrightarrow>
      copy_messages (pf_copier p) (pf_pool p) ms d = (r, d') \<Longrightarrow> \<not> isl r \<and> healthy d'"
    and "\<And>s n. wal_inv (pf_badger p) (vw_badger v) (pf_gob p) s \<Longrightarrow>
      \<not> isl (fst (wal_drain (pf_badger p) (pf_gob p) n s))"
    and "\<And>n. \<not> pf_cancelled p n" "\<And>n. critical_until f \<le> pf_clock p n"
    and "1 \<le> batch_size (fl_cfg f)" "1 \<le> elevated_batch_size (fl_cfg f)" "0 \<le> max_retries (fl_cfg f)"
    and "\<forall>m \<in> set (world_queue w @ world_log p v w). payload m \<noteq> None"
    and "length (world_queue w @ world_log p v w) \<le> n"
    and "worker_loop n (flusher_deps p) (f, w) = (ticks, stopped, f', w')"
  shows "world_queue w' = [] \<and> world_log p v w' = []
    \<and> (\<forall>m \<in> set (world_queue w @ world_log p v w). in_table m (world_rows v w'))
    \<and> set (world_rows v w) \<subseteq> set (world_rows v w')"
proof -
  let ?D = "flusher_deps p" and ?up = "\<lambda>w. healthy (wd_pg w)"
  note up = service_stays_up [where healthy = healthy and k = k and v = v, OF assms(3-5)]
  have gate: "critical_until f \<le> fst (fd_now ?D u)" for u using assms(6) by (simp add: read_clock_def)
  show ?thesis by (rule svc.drains [OF up gate assms(2,1,7-12)])
qed

lemma drain_loop_fails:
  "drain_loop g n its out ks = Inl e \<Longrightarrow> \<exists>it \<in> set its. has_prefix (it_key it) key_prefix
    \<and> (\<forall>val. it_value it = Inr val \<longrightarrow> isl (decode_message g val))"
proof (induction g n its out ks rule: drain_loop.induct)
  case (2 g n it its out ks)
  show ?case
  proof (cases "(\<exists>val m. it_value it = Inr val \<and> decode_message g val = Inr m) \<or> it_expired it")
    case True
    then have "\<exists>it \<in> set its. has_prefix (it_key it) key_prefix
        \<and> (\<forall>val. it_value it = Inr val \<longrightarrow> isl (decode_message g val))"
      using 2 by (cases "it_expired it") (auto split: if_splits)
    then show ?thesis by auto
  next
    case False
    then have "\<forall>val. it_value it = Inr val \<longrightarrow> isl (decode_message g val)"
      by (metis isl_def sum.exhaust)
    moreover have "has_prefix (it_key it) key_prefix" using 2(3) by (auto split: if_splits)
    ultimately show ?thesis by auto
  qed
qed simp

lemma mem_delete_ok: "\<exists>tx'. delete_loop mem_badger ks tx = (None, tx')"
  by (induction ks arbitrary: tx) (auto simp: mem_badger_def)

lemma mem_drain_ok:
  assumes "wal_inv mem_badger mem_badger_view table_gob s"
  shows "\<not> isl (fst (wal_drain mem_badger table_gob n s))"
proof -
  have no: "drain_loop table_gob (nat n) (seek (bd_items mem_badger (ws_db s))) [] [] \<noteq> Inl e" for e
  proof
    assume "drain_loop table_gob (nat n) (seek (bd_items mem_badger (ws_db s))) [] [] = Inl e"
    from drain_loop_fails [OF this] obtain it where it: "it \<in> set (seek (bd_items mem_badger (ws_db s)))"
      "has_prefix (it_key it) key_prefix"
      "\<forall>val. it_value it = Inr val \<longrightarrow> isl (decode_message table_gob val)" by blast
    from it(1) have "it \<in> set (bd_items mem_badger (ws_db s))"
      unfolding seek_def by (rule set_dropWhileD)
    then obtain x where x: "(it_key it, x) \<in> set (bv_live mem_badger_view (ws_db s))" "it_value it = Inr x"
      by (auto simp: mem_badger_def mem_badger_view_def)
    with it(2) have "(it_key it, x) \<in> set (log_entries mem_badger_view (ws_db s))" by (simp add: log_entries_def)
    then have "\<exists>m. decode_message table_gob x = Inr m" using assms by (auto simp: wal_inv_def)
    then show False using it(3) x(2) by auto
  qed
  obtain out ks where l: "drain_loop table_gob (nat n) (seek (bd_items mem_badger (ws_db s))) [] [] = Inr (out, ks)"
    using no by (cases "drain_loop table_gob (nat n) (seek (bd_items mem_badger (ws_db s))) [] []") auto
  obtain tx' where d: "delete_loop mem_badger ks (bd_txn mem_badger (ws_db s)) = (None, tx')"
    using mem_delete_ok by blast
  have o: "bd_closed mem_badger db = None" "bd_commit mem_badger tx db = (None, db @ tx)" for db tx
    by (simp_all add: mem_badger_def)
  show ?thesis using l d o by (simp add: wal_drain_def bd_view_def bd_update_def)
qed

lemma quiet_pool_copies:
  assumes "\<not> md_lost_ack d" "\<forall>m \<in> set ms. payload m \<noteq> None"
    and "copy_messages demo_copier quiet_pool ms d = (r, d')"
  shows "\<not> isl r \<and> \<not> md_lost_ack d'"
proof -
  have "\<not> list_ex null_payload (map copy_row ms)"
    using assms(2) by (auto simp: list_ex_iff null_payload_def copy_row_def)
  with assms show ?thesis
    by (auto simp: copy_messages_def copy_in_tx_def quiet_pool_def mem_pool_def mem_insert_def mem_commit_def
        Let_def split: if_splits)
qed

lemma demo_healthy:
  "\<not> md_lost_ack d \<Longrightarrow> \<forall>m \<in> set ms. payload m \<noteq> None \<Longrightarrow>
    copy_messages (pf_copier demo_platform) (pf_pool demo_platform) ms d = (r, d') \<Longrightarrow> \<not> isl r \<and> \<not> md_lost_ack d'"
  "wal_inv (pf_badger demo_platform) (vw_badger demo_view) (pf_gob demo_platform) s \<Longrightarrow>
    \<not> isl (fst (wal_drain (pf_badger demo_platform) (pf_gob demo_platform) n s))"
  "\<not> pf_cancelled demo_platform i" "critical_until small_flusher \<le> pf_clock demo_platform i"
  using quiet_pool_copies [of d ms r d'] mem_drain_ok [of s n]
  by (simp_all add: demo_platform_def demo_view_def small_flusher_def demo_flusher_def zero_time_def)

lemma service_drains_witness:
  "case worker_loop 1 (flusher_deps demo_platform) (small_flusher, ring_of_one) of
     (ticks, stopped, f', w') \<Rightarrow> world_queue w' = [] \<and> in_table (demo_message 1) (world_rows demo_view w')"
proof -
  note w = ring_of_one_inv [of 0, simplified]
  obtain ticks stopped f' w' where run: "worker_loop 1 (flusher_deps demo_platform) (small_flusher, ring_of_one)
    = (ticks, stopped, f', w')" by (metis prod_cases4)
  have "world_queue w' = [] \<and> world_log demo_platform demo_view w' = []
    \<and> (\<forall>m \<in> set (world_queue ring_of_one @ world_log demo_platform demo_view ring_of_one).
        in_table m (world_rows demo_view w'))
    \<and> set (world_rows demo_view ring_of_one) \<subseteq> set (world_rows demo_view w')"
    by (rule service_drains [where healthy = "\<lambda>d. \<not> md_lost_ack d", OF w(1,4) demo_healthy _ _ _ _ _ run])
      (use w in \<open>auto simp: small_flusher_def demo_flusher_def demo_message_def\<close>)
  then show ?thesis using w run by simp
qed

end
