(* ===== verification/Interleaved.thy ===== *)
theory Interleaved
  imports Guarantees
begin

text \<open>
  The service under any schedule: the theorems of Schedule on the service's own ring, WAL, database and
  bucket, the granularity of the steps (run without interruption they are the handlers), and what workers
  can still take from ring and WAL once the context is done.
\<close>

subsection \<open>The steps compose to the handlers\<close>

text \<open>The steps of Workers and Schedule cut the handlers of Subscriber and Flusher at their calls and
  nowhere else: a publish whose delivery, enqueue and spill follow each other
  without interruption leaves subscriber and world as onPublish does, and a worker that takes its
  turns without interruption passes from the head of its loop to the head of the next round, or into
  the panic, with the state the round of the worker loop computes.\<close>
lemma steps_compose:
  "snd (sub_step (subscriber_deps p) (broker_ack p)
      (snd (sub_step (subscriber_deps p) (broker_ack p) (deliver (subscriber_deps p) (broker_ack p) tn b (s, w)))))
    = (SIdle, snd (on_publish (subscriber_deps p) (broker_ack p) tn b (s, w)))
  \<and> (case worker_tick (flusher_deps p) (f, w) of (t, f', w') \<Rightarrow>
      reaches (flusher_deps p) (WGate, f, w) (if t = Ran Panicked then WCrashed else WReset, f', w'))"
  using publish_alone [of "subscriber_deps p" "broker_ack p" tn b "(s, w)"] round_alone [of "flusher_deps p" f w]
  by (auto split: prod.split)

subsection \<open>Conservation under interleaving\<close>

lemma schedule_inv:
  assumes "world_inv p v (length mvs + k) w" "sb_unparseable s = Some (side_table p u)"
    and "\<forall>m \<in> set (world_queue w) \<union> set (world_log p v w). message_ok m"
    and "distinct (map row_key (world_rows v w))"
    and "\<forall>tn b. Deliver tn b \<in> set mvs \<longrightarrow> go_len b < 2 ^ 61"
    and "y = run_schedule (subscriber_deps p) (broker_ack p) (flusher_deps p) mvs (start_system n s f w)"
  shows "svc.sched_inv TYPE('dtx) TYPE('ptx) (p :: ('db, 'dtx, 's3, 'pg, 'ptx) platform) v (set (world_rows v w))
    (mset (world_queue w) + mset (world_log p v w)) k y"
proof -
  let ?S = "subscriber_deps p"
  have ok: "platform_ok p v" using assms(1) by (simp add: world_inv_def)
  then have uu: "uuid_law p" by (simp add: platform_ok_def)
  have m: "Deliver tn b \<in> set mvs \<Longrightarrow> parse_topic (sd_uuid_parse ?S) tn = Inr pt \<Longrightarrow>
      message_ok (message_of ?S pt tn b t)" for tn b pt t
    using publish_message_ok [OF uu] assms(5) by simp
  have sound: "pipeline.sound world_queue (world_log p v) message_ok w" using assms(3) by (simp add: svc.sound_def)
  note start = svc.fresh_inv [OF assms(1) sound assms(4) side_table_ok [OF ok assms(2)], of n f]
  show ?thesis unfolding assms(6) by (rule svc.run_schedule_inv) (use start m in simp_all)
qed

text \<open>C2: nothing is lost between the goroutines. Start the service with any number of idle workers and let the
  subscriber and the workers take their steps in any order. At every point every message that was in
  ring or WAL at the start or was acknowledged since is in the ring, in the WAL, in the hands of a
  worker, in a dead letter, has its dedup key in the table, or was dropped; none is dropped
  while the context is not done, the sink takes its letters and retries are not negative. Ring, WAL and
  hands together hold each of these messages at most as often as it was taken over, so no message is
  with two workers at once. The table has gained no row but theirs and no key twice.\<close>
theorem interleaved_conserves:
  assumes "world_inv p v (length mvs) w" "sb_unparseable s = Some (side_table p u)"
    and "\<forall>m \<in> set (world_queue w) \<union> set (world_log p v w). message_ok m"
    and "distinct (map row_key (world_rows v w))"
    and "\<forall>tn b. Deliver tn b \<in> set mvs \<longrightarrow> go_len b < 2 ^ 61"
    and "y = run_schedule (subscriber_deps p) (broker_ack p) (flusher_deps p) mvs (start_system n s f w)"
  shows "(\<forall>m \<in> set (world_queue w) \<union> set (world_log p v w) \<union> set (sy_taken y).
        m \<in> set (world_queue (sy_world y)) \<or> m \<in> set (world_log p v (sy_world y)) \<or> m \<in> set (hands y)
        \<or> in_table m (world_rows v (sy_world y))
        \<or> (\<exists>x \<in> set (world_letters v (sy_world y)). letter_holds (pf_uuid_string p) (pf_err_text p) (pf_marshal p) x m)
        \<or> m \<in> set (sy_lost y))
    \<and> ((\<forall>t. \<not> pf_cancelled p t) \<and> (\<forall>m e w. fst (service_write p m e w) = None) \<and> 0 \<le> max_retries (fl_cfg f)
        \<longrightarrow> sy_lost y = [])
    \<and> mset (world_queue (sy_world y)) + mset (world_log p v (sy_world y)) + mset (hands y)
        \<subseteq># mset (world_queue w) + mset (world_log p v w) + mset (sy_taken y)
    \<and> set (world_rows v (sy_world y)) \<subseteq> set (world_rows v w)
        \<union> copy_row ` (set (world_queue w) \<union> set (world_log p v w) \<union> set (sy_taken y))
    \<and> distinct (map row_key (world_rows v (sy_world y)))"
proof -
  note inv = schedule_inv [where k = 0, unfolded add_0_right, OF assms]
  have lost: "sy_lost y = []" if "\<forall>t. \<not> pf_cancelled p t" "\<forall>m e w. fst (service_write p m e w) = None"
      "0 \<le> max_retries (fl_cfg f)"
    unfolding assms(6)
    by (rule run_schedule_calm) (use that in \<open>auto simp: start_system_def flusher_deps_def select_done_def\<close>)
  have "mset (world_queue (sy_world y)) + mset (world_log p v (sy_world y)) + mset (hands y)
        \<subseteq># mset (world_queue w) + mset (world_log p v w) + mset (sy_taken y)"
    using inv unfolding svc.sched_inv_def by blast
  then show ?thesis using svc.sched_inv_where [OF inv] lost by simp
qed

definition two_workers :: "move list" where
  "two_workers = [Deliver demo_topic (Some [7]), Work 0, Route, Work 1, Work 0, Work 1, Work 0]"

lemma two_workers_take:
  "length (sy_taken (run_schedule (subscriber_deps demo_platform) (broker_ack demo_platform) (flusher_deps demo_platform) two_workers
      (start_system 2 service_subscriber small_flusher demo_world))) = 1"
  by code_simp

lemma interleaved_conserves_witness:
  "case run_schedule (subscriber_deps demo_platform) (broker_ack demo_platform) (flusher_deps demo_platform) two_workers
      (start_system 2 service_subscriber small_flusher demo_world) of y \<Rightarrow>
     length (sy_taken y) = 1 \<and> sy_lost y = []
     \<and> list_all (\<lambda>m. m \<in> set (world_queue (sy_world y)) \<or> m \<in> set (world_log demo_platform demo_view (sy_world y))
          \<or> m \<in> set (hands y) \<or> in_table m (world_rows demo_view (sy_world y))
          \<or> 0 < length (world_letters demo_view (sy_world y))) (sy_taken y)"
proof -
  let ?y = "run_schedule (subscriber_deps demo_platform) (broker_ack demo_platform) (flusher_deps demo_platform) two_workers
      (start_system 2 service_subscriber small_flusher demo_world)"
  have inv: "world_inv demo_platform demo_view (length two_workers) demo_world"
    by (rule demo_world_inv) (simp add: two_workers_def)
  have sb: "sb_unparseable service_subscriber = Some (side_table demo_platform demo_writer)"
    by (simp add: service_subscriber_def set_unparseable_inserter_def)
  have "\<forall>tn b. Deliver tn b \<in> set two_workers \<longrightarrow> go_len b < 2 ^ 61"
    by (simp add: two_workers_def go_len_def bytes_of_def)
  note c = interleaved_conserves [OF inv sb _ _ this refl, of 2 small_flusher]
  have "sy_lost ?y = []"
    using c by (simp add: demo_world_empty demo_write demo_platform_def [THEN arg_cong, of pf_cancelled] small_flusher_def)
  then show ?thesis using c two_workers_take by (fastforce simp: demo_world_empty list_all_iff)
qed

subsection \<open>Draining under interleaving\<close>

text \<open>C8: the backlog drains whoever works. Start any number of workers on what ring and WAL hold, none of it
  with a nil payload, with the database up, an open gate, a readable WAL and a context that is not
  done, and let them take their steps in any order while no publish arrives: as soon as each of them
  has had 15 turns for every message and 8 more, ring and WAL are empty, no worker holds anything, every
  message is in the table and nothing was dropped. No other fairness is asked, and no worker can hold
  up another. (A batch with a nil payload in it never reaches
  the table.)\<close>
theorem interleaved_drains:
  assumes "world_inv p v k w" "healthy (wd_pg w)"
    and "\<And>ms d r d'. healthy d \<Longrightarrow> \<forall>m \<in> set ms. payload m \<noteq> None \<Longrightarrow>
      copy_messages (pf_copier p) (pf_pool p) ms d = (r, d') \<Longrightarrow> \<not> isl r \<and> healthy d'"
    and "\<And>s n. wal_inv (pf_badger p) (vw_badger v) (pf_gob p) s \<Longrightarrow>
      \<not> isl (fst (wal_drain (pf_badger p) (pf_gob p) n s))"
    and "\<And>n. \<not> pf_cancelled p n" "\<And>n. critical_until f \<le> pf_clock p n"
    and "1 \<le> batch_size (fl_cfg f)" "1 \<le> elevated_batch_size (fl_cfg f)" "0 \<le> max_retries (fl_cfg f)"
    and "\<forall>m \<in> set (world_queue w @ world_log p v w). payload m \<noteq> None"
    and "0 < n" "set turns \<subseteq> {..<n}"
    and "\<And>i. i < n \<Longrightarrow> 15 * length (world_queue w @ world_log p v w) + 8 \<le> count_list turns i"
    and "y = run_schedule (subscriber_deps p) (broker_ack p) (flusher_deps p) (map Work turns) (start_system n s f w)"
  shows "world_queue (sy_world y) = [] \<and> world_log p v (sy_world y) = [] \<and> hands y = [] \<and> sy_lost y = []
    \<and> (\<forall>m \<in> set (world_queue w @ world_log p v w). in_table m (world_rows v (sy_world y)))
    \<and> set (world_rows v w) \<subseteq> set (world_rows v (sy_world y))"
proof -
  note up = service_stays_up [where healthy = healthy and k = k and v = v, OF assms(3-5)]
  have gate: "critical_until f \<le> fst (fd_now (flusher_deps p) u)" for u using assms(6) by (simp add: read_clock_def)
  have turns: "15 * svc.backlog TYPE(_) TYPE(_) p v w + 8 \<le> count_list turns i" if "i < n" for i
    using assms(13) [OF that] by (simp add: svc.backlog_def)
  show ?thesis by (rule svc.interleaved_drain [OF up gate assms(2,1,7-12) turns assms(14)])
qed

lemma interleaved_drains_witness:
  "case run_schedule (subscriber_deps demo_platform) (broker_ack demo_platform) (flusher_deps demo_platform)
      (map Work (concat (replicate 23 [0, 1]))) (start_system 2 service_subscriber small_flusher ring_of_one) of y \<Rightarrow>
     world_queue (sy_world y) = [] \<and> hands y = [] \<and> in_table (demo_message 1) (world_rows demo_view (sy_world y))"
proof -
  note w = ring_of_one_inv [of 0, simplified]
  have turns: "15 * length (world_queue ring_of_one @ world_log demo_platform demo_view ring_of_one) + 8
      \<le> count_list (concat (replicate 23 [0, 1])) i" if "i < 2" for i :: nat
    using that w by (auto simp: numeral_eq_Suc less_Suc_eq)
  have only: "set (concat (replicate 23 [0, 1])) \<subseteq> {..<2 :: nat}" by auto
  let ?y = "run_schedule (subscriber_deps demo_platform) (broker_ack demo_platform) (flusher_deps demo_platform)
      (map Work (concat (replicate 23 [0, 1]))) (start_system 2 service_subscriber small_flusher ring_of_one)"
  have "world_queue (sy_world ?y) = [] \<and> world_log demo_platform demo_view (sy_world ?y) = [] \<and> hands ?y = []
    \<and> sy_lost ?y = [] \<and> (\<forall>m \<in> set (world_queue ring_of_one @ world_log demo_platform demo_view ring_of_one).
        in_table m (world_rows demo_view (sy_world ?y)))
    \<and> set (world_rows demo_view ring_of_one) \<subseteq> set (world_rows demo_view (sy_world ?y))"
    by (rule interleaved_drains [where healthy = "\<lambda>d. \<not> md_lost_ack d",
          OF w(1,4) demo_healthy _ _ _ _ _ only turns refl])
      (use w in \<open>auto simp: small_flusher_def demo_flusher_def demo_message_def\<close>)
  then show ?thesis using w by simp
qed

subsection \<open>Shutdown\<close>

text \<open>No move of the service turns back the counter of platform readings.\<close>

lemma side_table_tick: "side_table p u row w = (r, w') \<Longrightarrow> wd_tick w' = wd_tick w"
  by (auto simp: side_table_def split: prod.splits)

lemma clock_tick: "read_clock p w = (t, w') \<Longrightarrow> wd_tick w \<le> wd_tick w'"
  by (auto simp: read_clock_def)

lemma append_tick: "service_append p m w = (y, w') \<Longrightarrow> wd_tick w \<le> wd_tick w'"
  by (auto simp: service_append_def read_clock_def split: prod.splits)

lemma write_tick: "service_write p m e w = (y, w') \<Longrightarrow> wd_tick w \<le> wd_tick w'"
  by (auto simp: service_write_def read_clock_def split: prod.splits)

lemma flusher_tick:
  "fd_now (flusher_deps p) w = (t, w') \<Longrightarrow> wd_tick w \<le> wd_tick w'"
  "fd_wait (flusher_deps p) d w = (c, w') \<Longrightarrow> wd_tick w \<le> wd_tick w'"
  "fd_copy (flusher_deps p) ms w = (r, w') \<Longrightarrow> wd_tick w \<le> wd_tick w'"
  "fd_dequeue (flusher_deps p) n w = (out, w') \<Longrightarrow> wd_tick w \<le> wd_tick w'"
  "fd_write (flusher_deps p) m le w = (rw, w') \<Longrightarrow> wd_tick w \<le> wd_tick w'"
  "fd_wal (flusher_deps p) = Some wal \<Longrightarrow> src_drain wal n w = (rd, w') \<Longrightarrow> wd_tick w \<le> wd_tick w'"
  "fd_wal (flusher_deps p) = Some wal \<Longrightarrow> src_append wal m w = (ra, w') \<Longrightarrow> wd_tick w \<le> wd_tick w'"
  using write_tick [of p m le w rw w'] append_tick [of p m w ra w']
  by (auto simp: flusher_deps_def read_clock_def split: prod.splits)

lemma work_tick: "wstep (flusher_deps p) (pc, f, w) = (pc', f', w') \<Longrightarrow> wd_tick w \<le> wd_tick w'"
  by (cases "(flusher_deps p, pc, f, w)" rule: wstep.cases)
    (auto simp: Let_def record_latency_def enter_critical_def
      split: if_splits prod.splits sum.splits option.splits mode.splits dest: flusher_tick clock_tick write_tick)

lemma deliver_tick:
  assumes "sb_unparseable s = Some (side_table p u)"
    and "deliver (subscriber_deps p) (broker_ack p) tn b (s, w) = (pc, s', w')"
  shows "wd_tick w \<le> wd_tick w' \<and> sb_unparseable s' = Some (side_table p u)"
  using assms by (auto simp: deliver_def handle_parse_failure_def count_ack_def call_ack_def broker_ack_def Let_def
      split: prod.splits sum.splits option.splits if_splits dest!: side_table_tick clock_tick)

lemma count_ack_tick:
  "count_ack (broker_ack p) (s, w) = (s', w') \<Longrightarrow> wd_tick w' = wd_tick w \<and> sb_unparseable s' = sb_unparseable s"
  by (auto simp: count_ack_def broker_ack_def)

lemma route_tick:
  assumes "sb_unparseable s = Some (side_table p u)"
    and st: "sub_step (subscriber_deps p) (broker_ack p) (pc, s, w) = (ms, pc', s', w')"
  shows "wd_tick w \<le> wd_tick w' \<and> sb_unparseable s' = Some (side_table p u)"
proof (cases pc)
  case SIdle
  then show ?thesis using assms by simp
next
  case (SRoute m)
  obtain state err w1 where e: "sd_enqueue (subscriber_deps p) m w = ((state, err), w1)" by (metis surj_pair)
  then have "wd_tick w1 = wd_tick w" by (auto simp: subscriber_deps_def split: prod.splits)
  then show ?thesis using st SRoute e assms(1)
    by (cases err) (auto simp: mark_paused_def clear_pause_def dest!: count_ack_tick split: if_splits)
next
  case (SSpill m)
  obtain x w1 where x: "service_append p m w = (x, w1)" by (metis surj_pair)
  then show ?thesis using append_tick [OF x] st SSpill assms(1)
    by (cases x) (auto simp: subscriber_deps_def mark_paused_def clear_pause_def dest!: count_ack_tick)
qed

lemma move_tick:
  assumes "sb_unparseable (sy_sub y) = Some (side_table p u)"
    and "z = next_state (subscriber_deps p) (broker_ack p) (flusher_deps p) mv y"
  shows "wd_tick (sy_world y) \<le> wd_tick (sy_world z) \<and> sb_unparseable (sy_sub z) = Some (side_table p u)"
proof (cases mv)
  case (Deliver tn b)
  obtain pc s w where d: "deliver (subscriber_deps p) (broker_ack p) tn b (sy_sub y, sy_world y) = (pc, s, w)"
    by (metis prod_cases3)
  show ?thesis unfolding assms(2) Deliver using assms(1) d deliver_tick [OF assms(1) d] by simp
next
  case Route
  obtain ms pc s w where d:
    "sub_step (subscriber_deps p) (broker_ack p) (sy_pc y, sy_sub y, sy_world y) = (ms, pc, s, w)"
    by (metis prod_cases4)
  show ?thesis unfolding assms(2) Route using d route_tick [OF assms(1) d] by simp
next
  case (Work i)
  obtain pc f w where d: "wstep (flusher_deps p) (sy_workers y ! i, sy_flusher y, sy_world y) = (pc, f, w)"
    by (metis prod_cases3)
  show ?thesis unfolding assms(2) Work using assms(1) d work_tick [OF d] by simp
qed

lemma run_side_table:
  assumes "sb_unparseable (sy_sub y) = Some (side_table p u)"
  shows "sb_unparseable (sy_sub (run_schedule (subscriber_deps p) (broker_ack p) (flusher_deps p) mvs y))
    = Some (side_table p u)"
  using assms
proof (induction mvs arbitrary: y)
  case (Cons mv mvs)
  show ?case unfolding run_schedule.simps by (rule Cons.IH) (rule conjunct2 [OF move_tick [OF Cons.prems refl]])
qed simp

lemma all_done:
  assumes "sb_unparseable (sy_sub y) = Some (side_table p u)" "\<And>t. wd_tick (sy_world y) \<le> t \<Longrightarrow> select_done p t"
  shows "timer_wins (subscriber_deps p) (broker_ack p) (flusher_deps p) mvs y = 0"
  using assms
proof (induction mvs arbitrary: y)
  case (Cons mv mvs)
  have "\<not> timer_won (flusher_deps p) pc (sy_world y)" for pc
    by (cases pc) (simp_all add: Cons.prems(2) flusher_deps_def)
  then have "\<not> timer_move (flusher_deps p) mv y" by (cases mv) simp_all
  then show ?case using Cons.IH move_tick [OF Cons.prems(1) refl, of mv] Cons.prems(2) by (simp add: order_trans)
qed simp

text \<open>C10: shutdown does not empty the ring. Let the service run to any point, and from there on under
  any further schedule. The messages that ring and WAL held at that point are still there, behind them what joined
  since, except for a prefix of each: together no more than the workers who were on their way to a
  batch had room for, and a batch for every select that took the timer. From a point on at which the
  context is done no select takes the timer unless the timer has fired too and the runtime picks it;
  so where none does, the workers that were idle take nothing, however long they are scheduled, and
  the ring is memory.\<close>
theorem shutdown_leaves_ring:
  assumes "world_inv p v (length mvs + length late) w" "sb_unparseable s = Some (side_table p u)"
    and "\<forall>m \<in> set (world_queue w) \<union> set (world_log p v w). message_ok m"
    and "distinct (map row_key (world_rows v w))"
    and "\<forall>tn b. Deliver tn b \<in> set (mvs @ late) \<longrightarrow> go_len b < 2 ^ 61"
    and "y = run_schedule (subscriber_deps p) (broker_ack p) (flusher_deps p) mvs (start_system n s f w)"
    and "z = run_schedule (subscriber_deps p) (broker_ack p) (flusher_deps p) late y"
    and "B = batch_limit (fl_cfg f)"
  shows "(\<exists>a b q l. world_queue (sy_world z) = drop a (world_queue (sy_world y)) @ q
      \<and> world_log p v (sy_world z) = drop b (world_log p v (sy_world y)) @ l
      \<and> a + b \<le> rooms B y + B * timer_wins (subscriber_deps p) (broker_ack p) (flusher_deps p) late y)
    \<and> ((\<forall>t \<ge> wd_tick (sy_world y). pf_cancelled p t \<and> (pf_timer p t \<longrightarrow> pf_takes_done p t))
      \<longrightarrow> timer_wins (subscriber_deps p) (broker_ack p) (flusher_deps p) late y = 0)"
proof -
  let ?S = "subscriber_deps p"
  have ok: "platform_ok p v" using assms(1) by (simp add: world_inv_def)
  then have uu: "uuid_law p" by (simp add: platform_ok_def)
  have m: "Deliver tn b \<in> set late \<Longrightarrow> parse_topic (sd_uuid_parse ?S) tn = Inr pt \<Longrightarrow>
      message_ok (message_of ?S pt tn b t)" for tn b pt t
    using publish_message_ok [OF uu] assms(5) by simp
  have inv: "svc.sched_inv TYPE(_) TYPE(_) p v (set (world_rows v w))
      (mset (world_queue w) + mset (world_log p v w)) (length late) y"
    by (rule schedule_inv [OF assms(1-4) _ assms(6)]) (use assms(5) in simp)
  have B: "batch_limit (fl_cfg (sy_flusher y)) \<le> B" unfolding assms(6,8) by (simp add: run_cfg start_system_def)
  have "svc.taken_upto TYPE(_) TYPE(_) p v (rooms B y + B * timer_wins ?S (broker_ack p) (flusher_deps p) late y)
      (sy_world y) (sy_world z)"
    unfolding assms(7) by (rule svc.schedule_taken [where k = 0, unfolded add_0_right, OF inv B]) (rule m)
  moreover have "sb_unparseable (sy_sub y) = Some (side_table p u)"
    unfolding assms(6) by (rule run_side_table) (simp add: start_system_def assms(2))
  ultimately show ?thesis unfolding svc.taken_upto_def using all_done [of y p u late] by (simp add: select_done_def)
qed

definition stopping_platform :: "(kv_write list, kv_write list, put_input list, mem_db, unit) platform" where
  \<comment> \<open>the context ends once the first publish is in; no timer has fired then\<close>
  "stopping_platform = demo_platform\<lparr>pf_cancelled := (\<lambda>n. 1 \<le> n)\<rparr>"

lemma stopping_world:
  assumes "k < 2 ^ 63"
  shows "world_inv stopping_platform demo_view k demo_world"
  using demo_world_inv [OF assms] by (simp add: stopping_platform_def world_inv_def platform_ok_def uuid_law_def)

definition before_stop :: "(kv_write list, put_input list, mem_db) world system" where
  "before_stop = run_schedule (subscriber_deps stopping_platform) (broker_ack stopping_platform)
     (flusher_deps stopping_platform) [Work 0, Deliver demo_topic (Some [7]), Route]
     (start_system 2 service_subscriber small_flusher demo_world)"

lemma before_stop_parts:
  "length (sy_taken before_stop) = 1 \<and> length (world_queue (sy_world before_stop)) = 1
    \<and> rooms 3 before_stop = 0 \<and> wd_tick (sy_world before_stop) = 1"
  by code_simp

lemma shutdown_leaves_ring_witness:
  "world_queue (sy_world (run_schedule (subscriber_deps stopping_platform) (broker_ack stopping_platform)
      (flusher_deps stopping_platform) [Work 0, Work 1, Work 0, Work 1] before_stop)) \<noteq> []"
proof -
  let ?mvs = "[Work 0, Deliver demo_topic (Some [7]), Route]" and ?late = "[Work 0, Work 1, Work 0, Work 1]"
  have inv: "world_inv stopping_platform demo_view (length ?mvs + length ?late) demo_world"
    by (rule stopping_world) simp
  have "side_table stopping_platform demo_writer = side_table demo_platform demo_writer"
    by (simp add: side_table_def fun_eq_iff stopping_platform_def)
  then have sb: "sb_unparseable service_subscriber = Some (side_table stopping_platform demo_writer)"
    by (simp add: service_subscriber_def set_unparseable_inserter_def)
  have "world_log stopping_platform demo_view demo_world = world_log demo_platform demo_view demo_world"
    by (simp add: world_log_def stopping_platform_def)
  then have empty: "world_queue demo_world = []" "world_log stopping_platform demo_view demo_world = []"
    "world_rows demo_view demo_world = []" by (simp_all add: demo_world_empty)
  have B: "3 = batch_limit (fl_cfg small_flusher)" by (simp add: small_flusher_def batch_limit_def)
  have small: "\<forall>tn b. Deliver tn b \<in> set (?mvs @ ?late) \<longrightarrow> go_len b < 2 ^ 61" by (simp add: go_len_def bytes_of_def)
  have ok: "\<forall>m \<in> set (world_queue demo_world) \<union> set (world_log stopping_platform demo_view demo_world). message_ok m"
    "distinct (map row_key (world_rows demo_view demo_world))" by (simp_all add: empty)
  note c = shutdown_leaves_ring [OF inv sb ok small before_stop_def refl B]
  have "timer_wins (subscriber_deps stopping_platform) (broker_ack stopping_platform) (flusher_deps stopping_platform)
      ?late before_stop = 0"
    by (rule mp [OF conjunct2 [OF c]]) (simp only: before_stop_parts; simp add: stopping_platform_def demo_platform_def)
  then have "rooms 3 before_stop + 3 * timer_wins (subscriber_deps stopping_platform) (broker_ack stopping_platform)
      (flusher_deps stopping_platform) ?late before_stop = 0" using before_stop_parts by linarith
  with conjunct1 [OF c] obtain q where "world_queue (sy_world (run_schedule (subscriber_deps stopping_platform)
      (broker_ack stopping_platform) (flusher_deps stopping_platform) ?late before_stop))
      = drop 0 (world_queue (sy_world before_stop)) @ q" by (metis add_is_0 le_zero_eq)
  moreover have "world_queue (sy_world before_stop) \<noteq> []" using before_stop_parts by (metis list.size(3) zero_neq_one)
  ultimately show ?thesis by (metis append_is_Nil_conv drop0)
qed

end
