(* ===== verification/Health.thy ===== *)
theory Health
  imports Prelude "HOL-Library.AList"
begin

text \<open>
  internal/health/health.go: the liveness and readiness endpoints. A probe is an operation on a world
  \<open>'w\<close>; whether its context has passed the deadline is part of that world. The map of probes is an
  association list with distinct keys; Go leaves the order in which a map is ranged over open, so the
  two ranges of the readiness handler take orders of iteration as arguments. The JSON bodies are
  modelled as JSON values with the fields in the order the encoder writes them. The multiplexer's rule
  for conflicting patterns and the listener are arguments. Logging is left out.
\<close>

subsection \<open>JSON values and responses\<close>

datatype json = JString string | JBool bool | JArray "json list" | JObject "(string \<times> json) list"

record http_response =
  hr_content_type :: string
  hr_code :: nat
  hr_body :: json

subsection \<open>The server\<close>

type_synonym 'w probe = "'w \<Rightarrow> go_error option \<times> 'w"
type_synonym 'w probes = "(string \<times> 'w probe) list"

record 'w health_server =
  hs_addr :: string
  hs_liveness_path :: string
  hs_readiness_path :: string
  hs_probes :: "'w probes"

definition new_server :: "string \<Rightarrow> string \<Rightarrow> string \<Rightarrow> 'w health_server" where
  "new_server addr liveness readiness =
     \<lparr>hs_addr = (if addr = '''' then '':8080'' else addr),
      hs_liveness_path = (if liveness = '''' then ''/healthz'' else liveness),
      hs_readiness_path = (if readiness = '''' then ''/readyz'' else readiness),
      hs_probes = []\<rparr>"

definition register_probe :: "string \<Rightarrow> 'w probe \<Rightarrow> 'w health_server \<Rightarrow> 'w health_server" where
  "register_probe name p s = s\<lparr>hs_probes := AList.update name p (hs_probes s)\<rparr>"

definition err_string :: "(go_error \<Rightarrow> string) \<Rightarrow> go_error option \<Rightarrow> string" where
  "err_string err_text err = (case err of None \<Rightarrow> '''' | Some e \<Rightarrow> err_text e)"

record check_result =
  cr_name :: string
  cr_ok :: bool
  cr_err :: string

definition result_json :: "check_result \<Rightarrow> json" where
  \<comment> \<open>the field tags of \<open>result\<close>; an empty \<open>err\<close> is omitted\<close>
  "result_json r = JObject
     ([(''name'', JString (cr_name r)), (''ok'', JBool (cr_ok r))]
      @ (if cr_err r = '''' then [] else [(''err'', JString (cr_err r))]))"

fun probe_loop ::
  "(go_error \<Rightarrow> string) \<Rightarrow> 'w probes \<Rightarrow> check_result list \<Rightarrow> bool \<Rightarrow> 'w \<Rightarrow> (check_result list \<times> bool) \<times> 'w" where
  \<comment> \<open>the loop over the copied probes; \<open>results\<close> and \<open>all_ok\<close> are the accumulators\<close>
  "probe_loop et [] results all_ok w = ((results, all_ok), w)"
| "probe_loop et ((name, p) # ps) results all_ok w =
     (case p w of (err, w1) \<Rightarrow>
        probe_loop et ps
          (results @ [\<lparr>cr_name = name, cr_ok = (err = None), cr_err = err_string et err\<rparr>])
          (if err \<noteq> None then False else all_ok) w1)"

definition handle_live :: "http_response" where
  "handle_live = \<lparr>hr_content_type = ''application/json'', hr_code = 200,
     hr_body = JObject [(''status'', JString ''alive'')]\<rparr>"

definition copy_probes :: "('w probes \<Rightarrow> 'w probes) \<Rightarrow> 'w probes \<Rightarrow> 'w probes" where
  "copy_probes iter ps = fold (\<lambda>(k, v) acc. AList.update k v acc) (iter ps) []"

definition handle_ready ::
  "(go_error \<Rightarrow> string) \<Rightarrow> ('w probes \<Rightarrow> 'w probes) \<Rightarrow> ('w probes \<Rightarrow> 'w probes)
   \<Rightarrow> 'w health_server \<Rightarrow> 'w \<Rightarrow> http_response \<times> 'w" where
  \<comment> \<open>the encoder writes the keys of the outer map in alphabetical order\<close>
  "handle_ready et iter1 iter2 s w =
     (case probe_loop et (iter2 (copy_probes iter1 (hs_probes s))) [] True w of
        ((results, all_ok), w1) \<Rightarrow>
          (\<lparr>hr_content_type = ''application/json'', hr_code = (if \<not> all_ok then 503 else 200),
            hr_body = JObject [(''checks'', JArray (map result_json results)),
              (''status'', JString (if all_ok then ''ready'' else ''unready''))]\<rparr>, w1))"

subsection \<open>Run\<close>

text \<open>
  \<open>conflict\<close> is when \<open>ServeMux\<close> refuses a pattern beside a registered one; HandleFunc then panics, as
  it does on a pattern it cannot parse. \<open>finish\<close> is which case the select takes and what it finds
  there: the listener's error, or, once the context is done, the result of Shutdown.
\<close>

datatype 'e listener_end = ListenerEnded "'e option" | ContextDone "'e option"

definition mux_handle ::
  "(string \<Rightarrow> bool) \<Rightarrow> (string \<Rightarrow> string \<Rightarrow> bool) \<Rightarrow> string \<Rightarrow> string list \<Rightarrow> string list outcome" where
  "mux_handle pattern_ok conflict pat mux =
     (if pat = '''' \<or> \<not> pattern_ok pat \<or> list_ex (conflict pat) mux then Panic
      else Returned (mux @ [pat]))"

definition server_closed :: go_error where "server_closed = ErrText ''http: Server closed''"

primrec is_server_closed :: "go_error \<Rightarrow> bool" where
  "is_server_closed (ErrText s) \<longleftrightarrow> ErrText s = server_closed"
| "is_server_closed (PgError code msg) \<longleftrightarrow> False"
| "is_server_closed ErrFull \<longleftrightarrow> False"
| "is_server_closed (TopicParseError c d) \<longleftrightarrow> False"
| "is_server_closed (Wrapped p e) \<longleftrightarrow> is_server_closed e"

definition health_run ::
  "(string \<Rightarrow> bool) \<Rightarrow> (string \<Rightarrow> string \<Rightarrow> bool) \<Rightarrow> (string \<Rightarrow> go_error listener_end)
   \<Rightarrow> 'w health_server \<Rightarrow> go_error option outcome" where
  "health_run pattern_ok conflict finish s =
     (case mux_handle pattern_ok conflict (hs_liveness_path s) [] of
        Panic \<Rightarrow> Panic
      | Returned mux1 \<Rightarrow>
          (case mux_handle pattern_ok conflict (hs_readiness_path s) mux1 of
             Panic \<Rightarrow> Panic
           | Returned mux2 \<Rightarrow>
               Returned (case finish (hs_addr s) of
                   ListenerEnded (Some err) \<Rightarrow>
                     (if \<not> is_server_closed err then Some (Wrapped ''health server'' err) else None)
                 | ListenerEnded None \<Rightarrow> None
                 | ContextDone (Some err) \<Rightarrow> Some (Wrapped ''health server shutdown'' err)
                 | ContextDone None \<Rightarrow> None)))"

subsection \<open>Copying and probing\<close>

definition probe_order :: "('w probes \<Rightarrow> 'w probes) \<Rightarrow> bool" where
  \<comment> \<open>a range over a map visits each of its entries once\<close>
  "probe_order iter \<longleftrightarrow> (\<forall>ps. mset (iter ps) = mset ps)"

lemma probe_order_rev: "probe_order rev"
  by (simp add: probe_order_def)

lemma probe_order_id: "probe_order (\<lambda>ps. ps)"
  by (simp add: probe_order_def)

lemma probe_order_map:
  assumes "probe_order iter"
  shows "mset (map fst (iter ps)) = mset (map fst ps)" "set (iter ps) = set ps"
  using assms unfolding probe_order_def by (metis mset_map, metis set_mset_mset)

lemma update_new: "k \<notin> fst ` set ps \<Longrightarrow> AList.update k v ps = ps @ [(k, v)]"
  by (induction ps) auto

lemma copy_fold:
  "distinct (map fst (acc @ ps)) \<Longrightarrow> fold (\<lambda>(k, v) acc. AList.update k v acc) ps acc = acc @ ps"
proof (induction ps arbitrary: acc)
  case (Cons p ps)
  obtain k v where p: "p = (k, v)" by fastforce
  have "AList.update k v acc = acc @ [(k, v)]"
    using Cons.prems p by (intro update_new) auto
  with Cons.IH [of "acc @ [p]"] Cons.prems p show ?case by simp
qed simp


lemma copy_probes_order:
  assumes "probe_order iter" "distinct (map fst ps)"
  shows "copy_probes iter ps = iter ps" "distinct (map fst (iter ps))"
proof -
  show d: "distinct (map fst (iter ps))"
    using probe_order_map(1) [OF assms(1), of ps] assms(2) by (metis mset_eq_imp_distinct_iff)
  show "copy_probes iter ps = iter ps"
    unfolding copy_probes_def using copy_fold [of "[]" "iter ps"] d by simp
qed

text \<open>Probing a list is asking each probe once, in its order, in the world the one before it has left.\<close>

definition check_of :: "(go_error \<Rightarrow> string) \<Rightarrow> string \<Rightarrow> go_error option \<Rightarrow> check_result" where
  "check_of et n e = \<lparr>cr_name = n, cr_ok = (e = None), cr_err = err_string et e\<rparr>"

definition asked :: "'w probes \<Rightarrow> go_error option list \<Rightarrow> 'w list \<Rightarrow> bool" where
  \<comment> \<open>the answers of the probes and the worlds before, between and after them\<close>
  "asked ps es ws \<longleftrightarrow> length es = length ps \<and> length ws = Suc (length ps)
     \<and> (\<forall>i < length ps. snd (ps ! i) (ws ! i) = (es ! i, ws ! Suc i))"

lemma asked_Cons: "p w = (e, w1) \<Longrightarrow> asked ps es (w1 # ws) \<Longrightarrow> asked ((n, p) # ps) (e # es) (w # w1 # ws)"
  by (auto simp: asked_def nth_Cons split: nat.splits)

lemma probe_loop_asks:
  "\<exists>es ws. asked ps es (w # ws) \<and> probe_loop et ps results all_ok w
    = ((results @ map2 (check_of et) (map fst ps) es, all_ok \<and> (\<forall>e \<in> set es. e = None)), last (w # ws))"
proof (induction ps arbitrary: results all_ok w)
  case Nil
  show ?case by (intro exI [of _ "[]"]) (simp add: asked_def)
next
  case (Cons np ps)
  obtain n p where np: "np = (n, p)" by fastforce
  obtain err w1 where pw: "p w = (err, w1)" by fastforce
  obtain es ws where "asked ps es (w1 # ws)" and run: "probe_loop et ps (results @ [check_of et n err])
      (if err \<noteq> None then False else all_ok) w1 = (((results @ [check_of et n err]) @ map2 (check_of et) (map fst ps) es,
        (if err \<noteq> None then False else all_ok) \<and> (\<forall>e \<in> set es. e = None)), last (w1 # ws))"
    using Cons.IH [of w1 "results @ [check_of et n err]" "if err \<noteq> None then False else all_ok"] by blast
  then have "asked (np # ps) (err # es) (w # w1 # ws)" unfolding np by (intro asked_Cons pw)
  then show ?case using run np pw by (intro exI [of _ "err # es"] exI [of _ "w1 # ws"]) (simp add: check_of_def)
qed

lemma handle_ready_asks:
  assumes "probe_order iter1" "probe_order iter2" "distinct (map fst (hs_probes s))"
  shows "\<exists>ps es ws. mset ps = mset (hs_probes s) \<and> asked ps es (w # ws)
    \<and> handle_ready et iter1 iter2 s w = (\<lparr>hr_content_type = ''application/json'',
        hr_code = (if \<forall>e \<in> set es. e = None then 200 else 503),
        hr_body = JObject [(''checks'', JArray (map2 (\<lambda>n e. result_json (check_of et n e)) (map fst ps) es)),
          (''status'', JString (if \<forall>e \<in> set es. e = None then ''ready'' else ''unready''))]\<rparr>, last (w # ws))"
proof -
  define ps where "ps = iter2 (copy_probes iter1 (hs_probes s))"
  have perm: "mset ps = mset (hs_probes s)"
    using copy_probes_order(1) [OF assms(1,3)] assms(1,2) by (simp add: ps_def probe_order_def)
  from probe_loop_asks [of ps w et "[]" True] obtain es ws where "asked ps es (w # ws)"
    "probe_loop et ps [] True w = ((map2 (check_of et) (map fst ps) es, \<forall>e \<in> set es. e = None), last (w # ws))" by auto
  with perm show ?thesis
    by (intro exI [of _ ps] exI [of _ es] exI [of _ ws])
      (simp add: handle_ready_def ps_def [symmetric] comp_def case_prod_unfold)
qed

subsection \<open>Registered probes\<close>

fun register_all :: "(string \<times> 'w probe) list \<Rightarrow> 'w health_server \<Rightarrow> 'w health_server" where
  "register_all [] s = s"
| "register_all ((n, p) # rs) s = register_all rs (register_probe n p s)"

lemma register_all_lookup:
  "map_of (hs_probes (register_all rs s)) = map_of (hs_probes s) ++ map_of (rev rs)"
  by (induction rs s rule: register_all.induct)
    (auto simp: register_probe_def update_conv' map_add_def fun_eq_iff split: option.splits)

lemma register_all_distinct:
  "distinct (map fst (hs_probes s)) \<Longrightarrow> distinct (map fst (hs_probes (register_all rs s)))"
  by (induction rs s rule: register_all.induct) (simp_all add: register_probe_def distinct_update)

lemma new_server_probes [simp]: "hs_probes (new_server a l r) = []"
  by (simp add: new_server_def)


lemma register_all_set:
  assumes "(n, p) \<in> set (hs_probes (register_all rs (new_server a l r)))"
  shows "map_of (rev rs) n = Some p"
proof -
  have "distinct (map fst (hs_probes (register_all rs (new_server a l r))))"
    by (rule register_all_distinct) simp
  with assms have "map_of (hs_probes (register_all rs (new_server a l r))) n = Some p"
    by (rule map_of_is_SomeI [rotated])
  then show ?thesis by (simp add: register_all_lookup)
qed

lemma register_all_names:
  "fst ` set (hs_probes (register_all rs (new_server a l r))) = fst ` set rs"
proof -
  have "dom (map_of (hs_probes (register_all rs (new_server a l r)))) = dom (map_of (rev rs))"
    by (simp add: register_all_lookup)
  then show ?thesis by (simp add: dom_map_of_conv_image_fst)
qed

subsection \<open>Property\<close>

definition answer :: "go_error option \<Rightarrow> 'w probe" where
  "answer r w = (r, w)"

text \<open>C35: readiness. However the probes were registered, whatever they do and in whatever order Go ranges over the
  two maps, the handler asks the probe registered last under each name exactly once, one after the other,
  each in the world the one before has left (the deadline they share is part of it). The response has one
  check for each name, with the answer of that one call, and is 200 "ready" exactly when every answer was
  without an error, 503 "unready" otherwise.\<close>
theorem readiness_aggregates:
  assumes "probe_order iter1" "probe_order iter2"
    and "handle_ready et iter1 iter2 (register_all regs (new_server a l r)) w = (resp, w')"
  shows "\<exists>names es ws. distinct names \<and> set names = fst ` set regs
    \<and> length es = length names \<and> length ws = Suc (length names) \<and> hd ws = w \<and> last ws = w'
    \<and> (\<forall>i < length names. \<exists>p. map_of (rev regs) (names ! i) = Some p \<and> p (ws ! i) = (es ! i, ws ! Suc i))
    \<and> resp = \<lparr>hr_content_type = ''application/json'', hr_code = (if \<forall>e \<in> set es. e = None then 200 else 503),
         hr_body = JObject [(''checks'', JArray (map2 (\<lambda>n e. result_json (check_of et n e)) names es)),
          (''status'', JString (if \<forall>e \<in> set es. e = None then ''ready'' else ''unready''))]\<rparr>"
proof -
  let ?s = "register_all regs (new_server a l r)"
  have d: "distinct (map fst (hs_probes ?s))" by (rule register_all_distinct) simp
  from handle_ready_asks [OF assms(1,2) d, of w et] assms(3) obtain ps es ws
    where perm: "mset ps = mset (hs_probes ?s)" and ask: "asked ps es (w # ws)" "last (w # ws) = w'"
      and resp: "resp = \<lparr>hr_content_type = ''application/json'', hr_code = (if \<forall>e \<in> set es. e = None then 200 else 503),
         hr_body = JObject [(''checks'', JArray (map2 (\<lambda>n e. result_json (check_of et n e)) (map fst ps) es)),
          (''status'', JString (if \<forall>e \<in> set es. e = None then ''ready'' else ''unready''))]\<rparr>"
    by auto
  have "set ps = set (hs_probes ?s)" using perm by (metis set_mset_mset)
  then have names: "set (map fst ps) = fst ` set regs"
    and look: "i < length ps \<Longrightarrow> map_of (rev regs) (fst (ps ! i)) = Some (snd (ps ! i))" for i
    using register_all_names [of regs a l r] register_all_set [of "fst (ps ! i)" "snd (ps ! i)" regs a l r] nth_mem
    by (simp, metis prod.collapse)
  have "mset (map fst ps) = mset (map fst (hs_probes ?s))" using perm by (metis mset_map)
  with d have "distinct (map fst ps)" using mset_eq_imp_distinct_iff by blast
  with names look ask resp show ?thesis
    by (intro exI [of _ "map fst ps"] exI [of _ es] exI [of _ "w # ws"]) (simp add: asked_def)
qed

definition counting_probe :: "go_error option \<Rightarrow> nat probe" where
  "counting_probe r calls = (if calls = 0 then None else r, Suc calls)"

lemma readiness_aggregates_witness:
  "case handle_ready (\<lambda>e. ''timeout'') rev (\<lambda>ps. ps)
     (register_all [(''postgres'', counting_probe None), (''bucket'', counting_probe (Some ErrFull)),
        (''postgres'', counting_probe (Some ErrFull))] (new_server '''' '''' '''')) 0 of
     (resp, calls) \<Rightarrow> calls = 2 \<and> hr_code resp = 503"
proof -
  let ?regs = "[(''postgres'', counting_probe None), (''bucket'', counting_probe (Some ErrFull)),
    (''postgres'', counting_probe (Some ErrFull))]"
  obtain resp calls where run: "handle_ready (\<lambda>e. ''timeout'') rev (\<lambda>ps. ps)
      (register_all ?regs (new_server '''' '''' '''')) 0 = (resp, calls)" by fastforce
  from readiness_aggregates [OF probe_order_rev probe_order_id run] obtain names es ws where
    n: "distinct names" "set names = fst ` set ?regs" "length es = length names"
      "length ws = Suc (length names)" "hd ws = 0" "last ws = calls" and
    r: "\<forall>i < length names. \<exists>p. map_of (rev ?regs) (names ! i) = Some p \<and> p (ws ! i) = (es ! i, ws ! Suc i)"
      and resp: "hr_code resp = (if \<forall>e \<in> set es. e = None then 200 else 503)"
    by (elim exE conjE) (rule that, assumption+, simp only: http_response.simps)
  have len: "length names = 2" using distinct_card [OF n(1)] unfolding n(2) by (simp add: insert_commute card_insert_if)
  have step: "counting_probe (Some ErrFull) (ws ! i) = (es ! i, ws ! Suc i)" if i: "i < 2" for i
  proof -
    from r i [folded len] obtain p where "map_of (rev ?regs) (names ! i) = Some p" "p (ws ! i) = (es ! i, ws ! Suc i)" by blast
    then show ?thesis by (simp split: if_splits)
  qed
  have "ws ! 0 = 0" using n(4,5) by (cases ws) auto
  then have "ws ! 1 = 1" "es ! 1 = Some ErrFull" "ws ! 2 = 2"
    using step [of 0] step [of 1] by (simp_all add: counting_probe_def numeral_2_eq_2)
  moreover have "last ws = ws ! 2" using n(4) len last_conv_nth [of ws] by (cases ws) auto
  moreover have "es ! 1 \<in> set es" using n(3) len by simp
  ultimately show ?thesis using run n(6) resp by auto
qed

end
