(* ===== verification/Flags.thy ===== *)
theory Flags
  imports Prelude
begin

text \<open>
  Go's flag package as far as the two commands use it: string and boolean flags on the default set,
  which exits with status 0 on a request for help and with status 2 on an error. At the end
  internal/version, whose variables the linker may set, and the line both commands print of them.
\<close>

datatype flag_kind = StringFlag | BoolFlag

type_synonym flag_set = "(string \<times> flag_kind) list"

datatype flag_error = BadSyntax string | NotDefined string | InvalidBool string string | NeedsArgument string

datatype flags_result =
    FlagsParsed "(string \<times> string) list" "string list" \<comment> \<open>the values set, in order, and the operands\<close>
  | FlagsHelp
  | FlagsFailed flag_error

definition parse_bool :: "string \<Rightarrow> bool option" where
  "parse_bool s =
     (if s \<in> set [''1'', ''t'', ''T'', ''TRUE'', ''true'', ''True''] then Some True
      else if s \<in> set [''0'', ''f'', ''F'', ''FALSE'', ''false'', ''False''] then Some False
      else None)"

fun split_flag :: "string \<Rightarrow> string \<times> string option" where
  \<comment> \<open>at the first \<open>=\<close> that is not the first character\<close>
  "split_flag [] = ([], None)"
| "split_flag (c # cs) =
     (c # takeWhile (\<lambda>x. x \<noteq> CHR ''='') cs,
      case dropWhile (\<lambda>x. x \<noteq> CHR ''='') cs of [] \<Rightarrow> None | e # v \<Rightarrow> Some v)"

fun parse_flags :: "flag_set \<Rightarrow> string list \<Rightarrow> (string \<times> string) list \<Rightarrow> flags_result" where
  "parse_flags formal [] actual = FlagsParsed actual []"
| "parse_flags formal (s # rest) actual =
     (if length s < 2 \<or> s ! 0 \<noteq> CHR ''-'' then FlagsParsed actual (s # rest)
      else if s = ''--'' then FlagsParsed actual rest
      else
        let name = (if s ! 1 = CHR ''-'' then drop 2 s else drop 1 s)
        in if name = [] \<or> name ! 0 = CHR ''-'' \<or> name ! 0 = CHR ''='' then FlagsFailed (BadSyntax s)
           else (case split_flag name of (n, v) \<Rightarrow>
             (case map_of formal n of
                None \<Rightarrow> (if n = ''help'' \<or> n = ''h'' then FlagsHelp else FlagsFailed (NotDefined n))
              | Some BoolFlag \<Rightarrow>
                  (case v of
                     None \<Rightarrow> parse_flags formal rest (actual @ [(n, ''true'')])
                   | Some b \<Rightarrow>
                       (if parse_bool b = None then FlagsFailed (InvalidBool b n)
                        else parse_flags formal rest (actual @ [(n, b)])))
              | Some StringFlag \<Rightarrow>
                  (case v of
                     Some x \<Rightarrow> parse_flags formal rest (actual @ [(n, x)])
                   | None \<Rightarrow>
                       (case rest of
                          [] \<Rightarrow> FlagsFailed (NeedsArgument n)
                        | x # rest1 \<Rightarrow> parse_flags formal rest1 (actual @ [(n, x)]))))))"

definition string_flag :: "(string \<times> string) list \<Rightarrow> string \<Rightarrow> string \<Rightarrow> string" where
  "string_flag actual n dflt = (case map_of (rev actual) n of None \<Rightarrow> dflt | Some v \<Rightarrow> v)"

definition bool_flag :: "(string \<times> string) list \<Rightarrow> string \<Rightarrow> bool" where
  \<comment> \<open>the default is false\<close>
  "bool_flag actual n = (case map_of (rev actual) n of None \<Rightarrow> False | Some v \<Rightarrow> parse_bool v = Some True)"

subsection \<open>The form --name=value sets a string flag to any value\<close>

definition flag_arg :: "string \<times> string \<Rightarrow> string" where
  "flag_arg nv = ''--'' @ fst nv @ ''='' @ snd nv"

definition plain_name :: "string \<Rightarrow> bool" where
  "plain_name n \<longleftrightarrow> n \<noteq> [] \<and> hd n \<noteq> CHR ''-'' \<and> CHR ''='' \<notin> set n"

lemma split_flag_arg: "plain_name n \<Longrightarrow> split_flag (n @ CHR ''='' # v) = (n, Some v)"
proof (cases n)
  case (Cons c cs)
  moreover assume "plain_name n"
  ultimately have "\<forall>x \<in> set cs. x \<noteq> CHR ''=''" by (auto simp: plain_name_def)
  then show ?thesis using Cons by (simp add: takeWhile_append2 dropWhile_append2)
qed (simp add: plain_name_def)

lemma parse_string_flag:
  assumes "plain_name n" "map_of formal n = Some StringFlag"
  shows "parse_flags formal (flag_arg (n, v) # rest) actual = parse_flags formal rest (actual @ [(n, v)])"
proof -
  have "n @ CHR ''='' # v \<noteq> []" by simp
  moreover have "(n @ CHR ''='' # v) ! 0 = hd n" "hd n \<noteq> CHR ''-''" "hd n \<noteq> CHR ''=''"
    using assms(1) by (cases n; auto simp: plain_name_def)+
  ultimately show ?thesis
    using assms split_flag_arg [OF assms(1), of v]
    by (simp add: flag_arg_def Let_def del: split_flag.simps)
qed

lemma parse_string_flags:
  assumes "\<forall>(n, v) \<in> set nvs. plain_name n \<and> map_of formal n = Some StringFlag"
  shows "parse_flags formal (map flag_arg nvs @ rest) actual = parse_flags formal rest (actual @ nvs)"
  using assms
proof (induction nvs arbitrary: actual)
  case (Cons nv nvs)
  then show ?case using parse_string_flag [of "fst nv" formal "snd nv" "map flag_arg nvs @ rest" actual]
    by (cases nv) simp
qed simp

subsection \<open>The version line\<close>

record build_info =
  bi_version :: string
  bi_commit :: string
  bi_build_date :: string

definition default_build :: build_info where
  "default_build = \<lparr>bi_version = ''dev'', bi_commit = ''unknown'', bi_build_date = ''unknown''\<rparr>"

definition version_line :: "string \<Rightarrow> build_info \<Rightarrow> string" where
  "version_line command b = command @ '' '' @ bi_version b @ '' (commit '' @ bi_commit b
     @ '', built '' @ bi_build_date b @ '')'' @ [CHR 0x0A]"

end
