(* ===== verification/Boot.thy ===== *)
theory Boot
  imports Guarantees Health Flags
begin

text \<open>
  cmd/mqtt2db-go/main.go: what run does between reading its flags and returning. The calls out of the
  repository that open the outside world are the record \<open>boot_env\<close>; the base platform carries the
  operations of Badger, gob, S3 and the clock. Deferred calls are a stack, on top the one deferred last.
  What the service does once its subsystems run is the subject of Delivery and Guarantees.
\<close>

subsection \<open>The environment of the process\<close>

record ('db, 's3, 'pg, 'ptx) boot_env =
  be_read_file :: "string \<Rightarrow> go_error + string"
  be_decode_yaml :: "string \<Rightarrow> config \<Rightarrow> go_error + config"
  be_parse_env :: "config \<Rightarrow> go_error + config"
  be_url_ok :: "string \<Rightarrow> bool"
  be_iter :: dur_iter
  be_parse_dsn :: "string \<Rightarrow> go_error + pool_settings"
  be_connect :: "pool_settings \<Rightarrow> string \<Rightarrow> go_error + ('pg, 'ptx) pg_pool"
  be_ping :: "'pg \<Rightarrow> go_error option \<times> 'pg"
  be_badger_open :: "string \<Rightarrow> bool \<Rightarrow> int option \<Rightarrow> go_error + 'db"
  be_load_default :: "string \<Rightarrow> (string \<times> string) option \<Rightarrow> go_error option"
  be_hostname_var :: string
  be_os_hostname :: "go_error + string"
  be_nan :: int \<comment> \<open>what a NaN threshold becomes as an integer\<close>
  be_make_ok :: "int \<Rightarrow> bool" \<comment> \<open>the lengths of which make can make a slice of messages\<close>
  be_pattern_ok :: "string \<Rightarrow> bool" \<comment> \<open>the patterns ServeMux can parse\<close>
  be_conflict :: "string \<Rightarrow> string \<Rightarrow> bool" \<comment> \<open>the pairs of patterns it refuses together\<close>
  be_pg :: 'pg
  be_s3 :: 's3

datatype deferred = StopSignals | ClosePool | CloseWal

record ('db, 'dtx, 's3, 'pg, 'ptx) booted =
  bt_config :: config
  bt_logger :: log_handler
  bt_platform :: "('db, 'dtx, 's3, 'pg, 'ptx) platform"
  bt_world :: "('db, 's3, 'pg) world"
  bt_s3_options :: s3_options
  bt_flusher :: flusher
  bt_subscriber :: "('db, 's3, 'pg) world subscriber"
  bt_health :: "('db, 's3, 'pg) world health_server"
  bt_metrics_mux :: "string list" \<comment> \<open>the patterns of the metrics server\<close>

subsection \<open>The metric sets\<close>

record metric_sets =
  ms_buffer :: buffer_metrics
  ms_wal :: wal_metrics
  ms_subscriber :: subscriber_metrics
  ms_flusher :: flusher_metrics
  ms_deadletter :: deadletter_metrics

definition service_metrics :: "'g registry \<Rightarrow> (metric_sets \<times> 'g) outcome" where
  "service_metrics rg =
     (case new_buffer_metrics rg (new_registry rg) of Panic \<Rightarrow> Panic | Returned (bm, g1) \<Rightarrow>
     (case new_wal_metrics rg g1 of Panic \<Rightarrow> Panic | Returned (wm, g2) \<Rightarrow>
     (case new_subscriber_metrics rg g2 of Panic \<Rightarrow> Panic | Returned (sm, g3) \<Rightarrow>
     (case new_flusher_metrics rg g3 of Panic \<Rightarrow> Panic | Returned (fm, g4) \<Rightarrow>
     (case new_deadletter_metrics rg g4 of Panic \<Rightarrow> Panic | Returned (dm, g5) \<Rightarrow>
        Returned (\<lparr>ms_buffer = bm, ms_wal = wm, ms_subscriber = sm, ms_flusher = fm, ms_deadletter = dm\<rparr>, g5))))))"

subsection \<open>The probes\<close>

definition postgres_probe ::
  "('db, 's3, 'pg, 'ptx) boot_env \<Rightarrow> ('db, 's3, 'pg) world probe" where
  "postgres_probe env w = (case be_ping env (wd_pg w) of (r, d) \<Rightarrow> (r, w\<lparr>wd_pg := d\<rparr>))"

definition bucket_probe :: "'s3 s3_api \<Rightarrow> ('db, 's3, 'pg) world probe" where
  "bucket_probe api w =
     (case wd_sink w of (s, b) \<Rightarrow>
        (case sink_health_check api s b of (r, b') \<Rightarrow> (r, w\<lparr>wd_sink := (s, b')\<rparr>)))"

definition mqtt_probe :: "'w probe" where
  "mqtt_probe w = (None, w)"

subsection \<open>run\<close>

definition checked ::
  "string \<Rightarrow> go_error + 'a \<Rightarrow> deferred list \<Rightarrow> ('a \<Rightarrow> (go_error + 'b) outcome \<times> deferred list)
   \<Rightarrow> (go_error + 'b) outcome \<times> deferred list" where
  \<comment> \<open>\<open>if err != nil { return fmt.Errorf("prefix: %w", err) }\<close>, with the calls deferred so far\<close>
  "checked prefix r ds k = (case r of Inl e \<Rightarrow> (Returned (Inl (Wrapped prefix e)), ds) | Inr x \<Rightarrow> k x)"

definition running ::
  "'a outcome \<Rightarrow> deferred list \<Rightarrow> ('a \<Rightarrow> (go_error + 'b) outcome \<times> deferred list)
   \<Rightarrow> (go_error + 'b) outcome \<times> deferred list" where
  \<comment> \<open>a call that can panic, with the calls deferred so far\<close>
  "running r ds k = (case r of Panic \<Rightarrow> (Panic, ds) | Returned x \<Rightarrow> k x)"

definition load_config :: "('db, 's3, 'pg, 'ptx) boot_env \<Rightarrow> string \<Rightarrow> go_error + config" where
  "load_config env path =
     load (be_read_file env) (be_decode_yaml env) (be_parse_env env) (be_url_ok env) (be_iter env) path"

definition wire ::
  "('db, 's3, 'pg, 'ptx) boot_env \<Rightarrow> ('db, 'dtx, 's3, 'pg, 'ptx) platform \<Rightarrow> config \<Rightarrow> log_handler \<Rightarrow> metric_sets
   \<Rightarrow> (go_error + ('db, 'dtx, 's3, 'pg, 'ptx) booted) outcome \<times> deferred list" where
  \<comment> \<open>from the pool to the metrics server\<close>
  "wire env base cfg logger ms =
    checked ''postgres pool'' (new_pool (be_parse_dsn env) (be_connect env) (c_postgres cfg))
      [StopSignals] (\<lambda>pool.
    checked ''postgres copier'' (new_copier (Some pool) (c_postgres cfg)) [ClosePool, StopSignals] (\<lambda>copier.
    checked ''postgres unparseable writer'' (new_unparseable_writer (Some pool) (c_postgres cfg))
      [ClosePool, StopSignals] (\<lambda>writer.
    checked ''open wal'' (wal_open (be_badger_open env)
        \<lparr>wc_path = badger_path (c_badger cfg), wc_ttl = badger_ttl (c_badger cfg),
         wc_sync_writes = sync_writes (c_badger cfg),
         wc_value_log_file_size = value_log_file_size (c_badger cfg)\<rparr> (Some (ms_wal ms)))
      [ClosePool, StopSignals] (\<lambda>wal.
    running (new_ring (be_make_ok env) (be_nan env) (c_buffer cfg) (Some (ms_buffer ms)))
      [CloseWal, ClosePool, StopSignals] (\<lambda>made.
    checked ''ring buffer'' made [CloseWal, ClosePool, StopSignals] (\<lambda>ring.
    checked ''dead-letter sink'' (new_sink (be_load_default env) (c_dead_letter cfg)
        (Some (ms_deadletter ms))) [CloseWal, ClosePool, StopSignals] (\<lambda>sink.
    checked ''flusher'' (new_flusher (c_flusher cfg) True True True (Some (ms_flusher ms)))
      [CloseWal, ClosePool, StopSignals] (\<lambda>flush.
    checked ''subscriber'' (new_subscriber (be_hostname_var env) (be_os_hostname env) (c_mqtt cfg) True
        (Some (ms_subscriber ms))) [CloseWal, ClosePool, StopSignals] (\<lambda>sub.
      let p = base\<lparr>pf_pool := pool, pf_copier := copier\<rparr>;
          h = new_server (health_listen (c_health cfg)) (liveness_path (c_health cfg))
                (readiness_path (c_health cfg));
          h1 = register_probe ''postgres'' (postgres_probe env) h;
          h2 = register_probe ''dead_letter_bucket'' (bucket_probe (pf_s3 p)) h1;
          h3 = register_probe ''mqtt'' mqtt_probe h2
      in (case mux_handle (be_pattern_ok env) (be_conflict env) (metrics_path (c_metrics cfg)) [] of
            Panic \<Rightarrow> (Panic, [CloseWal, ClosePool, StopSignals])
          | Returned mux \<Rightarrow>
              (Returned (Inr \<lparr>bt_config = cfg, bt_logger = logger, bt_platform = p,
                 bt_world = \<lparr>wd_ring = ring, wd_wal = wal, wd_sink = (fst sink, be_s3 env), wd_pg = be_pg env,
                   wd_tick = 0, wd_acks = 0\<rparr>,
                 bt_s3_options = snd sink, bt_flusher = flush,
                 bt_subscriber = set_unparseable_inserter (Some (side_table p writer)) sub,
                 bt_health = h3, bt_metrics_mux = mux\<rparr>),
               [CloseWal, ClosePool, StopSignals])))))))))))"

definition boot ::
  "'g registry \<Rightarrow> ('db, 's3, 'pg, 'ptx) boot_env \<Rightarrow> ('db, 'dtx, 's3, 'pg, 'ptx) platform \<Rightarrow> string
   \<Rightarrow> (go_error + ('db, 'dtx, 's3, 'pg, 'ptx) booted) outcome \<times> deferred list" where
  "boot rg env base path =
    checked ''load config'' (load_config env path) [] (\<lambda>cfg.
    checked ''init logger'' (new_with_writer (c_logging cfg)) [] (\<lambda>logger.
    (case service_metrics rg of Panic \<Rightarrow> (Panic, [StopSignals]) | Returned (ms, g) \<Rightarrow>
      wire env base cfg logger ms)))"

datatype main_log = VersionPrinted string | SubsystemFailed string go_error | ShutdownTimedOut

definition start_background :: "string \<Rightarrow> go_error option \<Rightarrow> main_log list \<Rightarrow> main_log list" where
  \<comment> \<open>what a subsystem's return adds to the error log\<close>
  "start_background name result log =
     (case result of Some err \<Rightarrow> log @ [SubsystemFailed name err] | None \<Rightarrow> log)"

definition metrics_serve :: "go_error \<Rightarrow> go_error option" where
  \<comment> \<open>the metrics subsystem's function, on what ListenAndServe returned\<close>
  "metrics_serve err = (if is_server_closed err then None else Some err)"

datatype ticker_event = RootDone | Ticked time

fun wal_metrics_loop ::
  "('db, 'dtx) badger \<Rightarrow> ticker_event list \<Rightarrow> 'db wal_store \<Rightarrow> go_error list \<Rightarrow> go_error list \<times> 'db wal_store" where
  \<comment> \<open>the events are what the select takes, one after the other; the errors are the warnings logged\<close>
  "wal_metrics_loop b [] s warned = (warned, s)"
| "wal_metrics_loop b (RootDone # es) s warned = (warned, s)"
| "wal_metrics_loop b (Ticked now # es) s warned =
     (case refresh_metrics b now s of
        (Some err, s1) \<Rightarrow> wal_metrics_loop b es s1 (warned @ [err])
      | (None, s1) \<Rightarrow> wal_metrics_loop b es s1 warned)"

definition service_flags :: flag_set where
  "service_flags = [(''config'', StringFlag), (''version'', BoolFlag)]"

definition default_config_path :: string where
  "default_config_path = ''/etc/mqtt2db-go/config.yaml''"

datatype run_end = RunReturned "go_error option" | RunPanicked | FlagExit nat

definition shutdown_wait :: "bool \<Rightarrow> main_log list" where
  \<comment> \<open>after the signal: whether every subsystem returned within 30 seconds\<close>
  "shutdown_wait drained = (if drained then [] else [ShutdownTimedOut])"

definition run_main ::
  "build_info \<Rightarrow> 'g registry \<Rightarrow> ('db, 's3, 'pg, 'ptx) boot_env \<Rightarrow> ('db, 'dtx, 's3, 'pg, 'ptx) platform \<Rightarrow> string list
   \<Rightarrow> (('db, 'dtx, 's3, 'pg, 'ptx) booted \<Rightarrow> (string \<times> go_error option) list) \<Rightarrow> bool
   \<Rightarrow> run_end \<times> main_log list \<times> deferred list" where
  \<comment> \<open>how run ends on the command line \<open>args\<close>, what it printed and the warnings it logged, and the deferred calls, in the order they
    run; \<open>subsystems\<close> is how the subsystems return, in the order in which they do, \<open>drained\<close> whether all
    did within 30 seconds\<close>
  "run_main bi rg env base args subsystems drained =
     (case parse_flags service_flags args [] of
        FlagsHelp \<Rightarrow> (FlagExit 0, [], [])
      | FlagsFailed e \<Rightarrow> (FlagExit 2, [], [])
      | FlagsParsed actual operands \<Rightarrow>
          (if bool_flag actual ''version'' then (RunReturned None, [VersionPrinted (version_line ''mqtt2db-go'' bi)], [])
           else (case boot rg env base (string_flag actual ''config'' default_config_path) of
               (Panic, ds) \<Rightarrow> (RunPanicked, [], ds)
             | (Returned (Inl err), ds) \<Rightarrow> (RunReturned (Some err), [], ds)
             | (Returned (Inr b), ds) \<Rightarrow>
                 (RunReturned None, fold (\<lambda>(n, r) log. start_background n r log) (subsystems b) []
                    @ shutdown_wait drained, ds))))"

fun exit_code :: "run_end \<Rightarrow> nat" where
  "exit_code (RunReturned None) = 0"
| "exit_code (RunReturned (Some e)) = 1"
| "exit_code RunPanicked = 2"
| "exit_code (FlagExit n) = n"

lemma main_config_line:
  "run_main bi rg env base [flag_arg (''config'', path)] subsystems drained =
     (case boot rg env base path of
        (Panic, ds) \<Rightarrow> (RunPanicked, [], ds)
      | (Returned (Inl err), ds) \<Rightarrow> (RunReturned (Some err), [], ds)
      | (Returned (Inr b), ds) \<Rightarrow> (RunReturned None, fold (\<lambda>(n, r) log. start_background n r log) (subsystems b) []
           @ shutdown_wait drained, ds))"
  using parse_string_flags [of "[(''config'', path)]" service_flags "[]" "[]"]
  by (simp add: run_main_def service_flags_def plain_name_def bool_flag_def string_flag_def)

lemma main_version_line:
  "run_main bi rg env base [''--version''] subsystems drained
     = (RunReturned None, [VersionPrinted (version_line ''mqtt2db-go'' bi)], [])"
  by (simp add: run_main_def service_flags_def bool_flag_def parse_bool_def)


subsection \<open>Steps that cannot fail\<close>

lemma checked_Inl:
  assumes "checked prefix r ds k = (Returned (Inl e), ds')"
  obtains (here) e0 where "r = Inl e0" "e = Wrapped prefix e0" "ds' = ds"
    | (later) x where "r = Inr x" "k x = (Returned (Inl e), ds')"
  using assms by (cases r) (auto simp: checked_def)

lemma checked_Inr:
  assumes "checked prefix r ds k = (Returned (Inr y), ds')"
  obtains x where "r = Inr x" "k x = (Returned (Inr y), ds')"
  using assms by (cases r) (auto simp: checked_def)

lemma checked_Panic:
  assumes "checked prefix r ds k = (Panic, ds')"
  obtains x where "r = Inr x" "k x = (Panic, ds')"
  using assms by (cases r) (auto simp: checked_def)

lemma running_Returned:
  assumes "running r ds k = (Returned y, ds')"
  obtains x where "r = Returned x" "k x = (Returned y, ds')"
  using assms by (cases r) (auto simp: running_def)

lemma running_Panic:
  assumes "running r ds k = (Panic, ds')"
  obtains (here) "r = Panic" "ds' = ds" | (later) x where "r = Returned x" "k x = (Panic, ds')"
  using assms by (cases r) (auto simp: running_def)

lemma registered_set: "registered rg m ds g = Returned (m1, g1) \<Longrightarrow> m1 = m"
  by (simp add: registered_def split: outcome.splits)

lemma service_metrics_sets:
  assumes "service_metrics rg = Returned (ms, g)"
  shows "ms_buffer ms = zero_buffer_metrics" "ms_wal ms = zero_wal_metrics"
    "ms_subscriber ms = zero_subscriber_metrics" "ms_flusher ms = zero_flusher_metrics"
    "ms_deadletter ms = zero_deadletter_metrics"
  using assms unfolding service_metrics_def new_buffer_metrics_def new_wal_metrics_def
    new_subscriber_metrics_def new_flusher_metrics_def new_deadletter_metrics_def
  by (auto split: outcome.splits prod.splits dest!: registered_set)

lemma boot_wired:
  assumes "load_config env path = Inr c" "new_with_writer (c_logging c) = Inr l"
    and "service_metrics rg = Returned (ms, g)"
  shows "boot rg env base path = wire env base c l ms"
  using assms by (simp add: boot_def checked_def)

lemma validated_steps:
  assumes "load_config env path = Inr c"
  shows "new_with_writer (c_logging c) \<noteq> Inl e"
    and "new_unparseable_writer (Some pool) (c_postgres c) \<noteq> Inl e"
    and "new_ring mk u (c_buffer c) (Some bm) \<noteq> Returned (Inl e)"
    and "(new_ring mk u (c_buffer c) (Some bm) = Panic) = (\<not> mk (max_messages (c_buffer c)))"
    and "new_flusher (c_flusher c) True True True (Some fm) \<noteq> Inl e"
    and "new_copier (Some pool) (c_postgres c) = Inl e \<Longrightarrow> pg_columns (c_postgres c) \<noteq> canonical_columns"
    and "badger_path (c_badger c) \<noteq> ''''" "s3_bucket (c_dead_letter c) \<noteq> ''''"
    and "client_id_prefix (c_mqtt c) \<noteq> ''''" "brokers (c_mqtt c) \<noteq> []"
proof -
  have v: "validate (be_url_ok env) (be_iter env) c = []"
    using assms unfolding load_config_def by (rule load_cases)
  have parts: "validate_mqtt (be_url_ok env) (be_iter env) (c_mqtt c) = []" "validate_buffer (c_buffer c) = []"
    "validate_badger (c_badger c) = []" "validate_postgres (c_postgres c) = []"
    "validate_dead_letter (be_url_ok env) (c_dead_letter c) = []" "validate_logging (c_logging c) = []"
    using v by (simp_all add: validate_Nil)
  show "new_with_writer (c_logging c) \<noteq> Inl e" using validate_logging_handler [OF parts(6)] by auto
  show "new_ring mk u (c_buffer c) (Some bm) \<noteq> Returned (Inl e)"
    "(new_ring mk u (c_buffer c) (Some bm) = Panic) = (\<not> mk (max_messages (c_buffer c)))"
    using new_ring_total [OF parts(2), of mk u bm] by (auto split: if_splits)
  show "new_flusher (c_flusher c) True True True (Some fm) \<noteq> Inl e" by (simp add: new_flusher_def)
  show "new_unparseable_writer (Some pool) (c_postgres c) \<noteq> Inl e"
    using parts(4) by (simp add: new_unparseable_writer_def validate_postgres_def)
  show "pg_columns (c_postgres c) \<noteq> canonical_columns" if "new_copier (Some pool) (c_postgres c) = Inl e"
    using that parts(4) by (auto simp: new_copier_def validate_postgres_def columns_match_message_iff split: if_splits)
  show "badger_path (c_badger c) \<noteq> ''''" using parts(3) by (simp add: validate_badger_def)
  show "s3_bucket (c_dead_letter c) \<noteq> ''''" using parts(5) by (simp add: validate_dead_letter_def)
  show "client_id_prefix (c_mqtt c) \<noteq> ''''" "brokers (c_mqtt c) \<noteq> []"
    using parts(1) by (simp_all add: validate_mqtt_def)
qed

lemma boot_parts:
  assumes "boot rg env base path = (r, ds)"
  obtains (load) e where "load_config env path = Inl e" "r = Returned (Inl (Wrapped ''load config'' e))" "ds = []"
    | (panic) c where "load_config env path = Inr c" "service_metrics rg = Panic" "r = Panic"
    | (wired) c l ms g where "load_config env path = Inr c" "service_metrics rg = Returned (ms, g)"
        "wire env base c l ms = (r, ds)"
proof (cases "load_config env path")
  case (Inl e)
  then show ?thesis using assms load by (simp add: boot_def checked_def)
next
  case (Inr c)
  show ?thesis
  proof (cases "new_with_writer (c_logging c)")
    case (Inr l)
    show ?thesis
    proof (cases "service_metrics rg")
      case (Returned mg)
      then show ?thesis
        using assms wired [of c "fst mg" "snd mg" l] boot_wired [OF \<open>load_config env path = Inr c\<close> Inr, of rg "fst mg" "snd mg" base]
          \<open>load_config env path = Inr c\<close> by simp
    next
      case Panic
      then show ?thesis using assms panic Inr \<open>load_config env path = Inr c\<close> by (simp add: boot_def checked_def)
    qed
  next
    case (Inl e)
    then show ?thesis using validated_steps(1) [OF \<open>load_config env path = Inr c\<close>] by blast
  qed
qed

lemma wal_open_fails:
  assumes "wal_open op cfg (Some m) = Inl e" "wc_path cfg \<noteq> ''''"
  shows "\<exists>e0 n. op (wc_path cfg) (wc_sync_writes cfg) n = Inl e0 \<and> e = Wrapped ''open badger %q'' e0"
  using assms by (auto simp: wal_open_def split: sum.splits)

lemma new_sink_fails:
  assumes "new_sink ld cfg (Some m) = Inl e" "s3_bucket cfg \<noteq> ''''"
  shows "\<exists>reg creds e0. ld reg creds = Some e0 \<and> e = Wrapped ''aws config'' e0"
  using assms by (auto simp: new_sink_def Let_def split: option.splits if_splits)

lemma new_subscriber_fails:
  assumes "new_subscriber var host cfg True (Some m) = Inl e" "brokers cfg \<noteq> []" "client_id_prefix cfg \<noteq> ''''"
  shows "var = '''' \<and> (isl host \<or> host = Inr '''')"
  using assms by (auto simp: new_subscriber_def compute_client_id_def split: sum.splits if_splits)

subsection \<open>Registration\<close>

definition service_descs :: "metric_desc list" where
  "service_descs = buffer_descs @ wal_descs @ subscriber_descs @ flusher_descs @ deadletter_descs"

lemma service_names: "distinct (map fq_name service_descs) \<and> list_all (\<lambda>d. valid_metric_name (fq_name d)) service_descs"
  by code_simp

lemma registered_returns:
  assumes "registry_law rg taken" "taken g = before"
    and "distinct (map fq_name (before @ ds @ after))" "list_all (\<lambda>d. valid_metric_name (fq_name d)) (before @ ds @ after)"
  shows "\<exists>g1. registered rg m ds g = Returned (m, g1) \<and> taken g1 = before @ ds"
proof -
  have "distinct (map fq_name (taken g @ ds))" "list_all (\<lambda>d. valid_metric_name (fq_name d)) ds"
    using assms(2-4) by auto
  then obtain g1 where "reg_must rg ds g = Returned g1 \<and> taken g1 = taken g @ ds"
    using assms(1) unfolding registry_law_def by blast
  then show ?thesis using assms(2) by (auto simp: registered_def)
qed

lemma service_metrics_returns:
  assumes "registry_law rg taken"
  shows "\<exists>ms g. service_metrics rg = Returned (ms, g) \<and> taken g = service_descs"
proof -
  note names = service_names [unfolded service_descs_def]
  have 0: "taken (reg_new rg) = []" using assms by (simp add: registry_law_def)
  obtain g1 where 1: "registered rg zero_buffer_metrics buffer_descs (reg_new rg) = Returned (zero_buffer_metrics, g1)"
    "taken g1 = buffer_descs"
    using registered_returns [OF assms 0, of buffer_descs "wal_descs @ subscriber_descs @ flusher_descs @ deadletter_descs"
      zero_buffer_metrics] names by (metis append_Nil)
  obtain g2 where 2: "registered rg zero_wal_metrics wal_descs g1 = Returned (zero_wal_metrics, g2)"
    "taken g2 = buffer_descs @ wal_descs"
    using registered_returns [OF assms 1(2), of wal_descs "subscriber_descs @ flusher_descs @ deadletter_descs"
      zero_wal_metrics] names by metis
  obtain g3 where 3: "registered rg zero_subscriber_metrics subscriber_descs g2 = Returned (zero_subscriber_metrics, g3)"
    "taken g3 = (buffer_descs @ wal_descs) @ subscriber_descs"
    using registered_returns [OF assms 2(2), of subscriber_descs "flusher_descs @ deadletter_descs"
      zero_subscriber_metrics] names by (metis append.assoc)
  obtain g4 where 4: "registered rg zero_flusher_metrics flusher_descs g3 = Returned (zero_flusher_metrics, g4)"
    "taken g4 = ((buffer_descs @ wal_descs) @ subscriber_descs) @ flusher_descs"
    using registered_returns [OF assms 3(2), of flusher_descs deadletter_descs zero_flusher_metrics] names
    by (metis append.assoc)
  obtain g5 where 5: "registered rg zero_deadletter_metrics deadletter_descs g4 = Returned (zero_deadletter_metrics, g5)"
    "taken g5 = (((buffer_descs @ wal_descs) @ subscriber_descs) @ flusher_descs) @ deadletter_descs"
    using registered_returns [OF assms 4(2), of deadletter_descs "[]" zero_deadletter_metrics] names
    by (metis append.assoc append_Nil2)
  show ?thesis
    unfolding service_metrics_def new_buffer_metrics_def new_wal_metrics_def new_subscriber_metrics_def
      new_flusher_metrics_def new_deadletter_metrics_def new_registry_def
    by (simp add: 1(1) 2(1) 3(1) 4(1) 5 service_descs_def)
qed

subsection \<open>Properties\<close>

text \<open>C29: how starting the service can fail. When run's start-up returns an error, either Load failed, and its
  error is the cause, or the configuration was loaded and the failure is one of five: the pool could not
  be built, the configured columns are not the canonical ones (which Validate does not check), Badger did
  not open, the AWS configuration did not load, or no host name was to be had for the client id. The
  logger, the unparseable writer, the ring and the flusher never refuse a loaded configuration. The
  deferred calls are those of what had been opened, the latest first.\<close>
theorem boot_failures:
  assumes "boot rg env base path = (Returned (Inl err), ds)"
  shows "(\<exists>e. load_config env path = Inl e \<and> err = Wrapped ''load config'' e \<and> ds = [])
    \<or> (\<exists>c e. load_config env path = Inr c
      \<and> (new_pool (be_parse_dsn env) (be_connect env) (c_postgres c) = Inl e
            \<and> err = Wrapped ''postgres pool'' e \<and> ds = [StopSignals]
         \<or> pg_columns (c_postgres c) \<noteq> canonical_columns
            \<and> err = Wrapped ''postgres copier'' e \<and> ds = [ClosePool, StopSignals]
         \<or> (\<exists>n. be_badger_open env (badger_path (c_badger c)) (sync_writes (c_badger c)) n = Inl e)
            \<and> err = Wrapped ''open wal'' (Wrapped ''open badger %q'' e) \<and> ds = [ClosePool, StopSignals]
         \<or> (\<exists>r cr. be_load_default env r cr = Some e)
            \<and> err = Wrapped ''dead-letter sink'' (Wrapped ''aws config'' e)
            \<and> ds = [CloseWal, ClosePool, StopSignals]
         \<or> be_hostname_var env = '''' \<and> (isl (be_os_hostname env) \<or> be_os_hostname env = Inr '''')
            \<and> err = Wrapped ''subscriber'' e \<and> ds = [CloseWal, ClosePool, StopSignals]))"
proof (cases "load_config env path")
  case (Inl e)
  then show ?thesis using assms by (auto simp: boot_def checked_def)
next
  case (Inr c)
  note ok = validated_steps [OF Inr]
  from assms obtain l ms where wired: "wire env base c l ms = (Returned (Inl err), ds)"
    by (cases rule: boot_parts) (use Inr in auto)
  have wal: "\<exists>e n. be_badger_open env (badger_path (c_badger c)) (sync_writes (c_badger c)) n = Inl e
        \<and> e0 = Wrapped ''open badger %q'' e"
    if "wal_open (be_badger_open env) \<lparr>wc_path = badger_path (c_badger c), wc_ttl = badger_ttl (c_badger c),
      wc_sync_writes = sync_writes (c_badger c), wc_value_log_file_size = n\<rparr> (Some m) = Inl e0" for n m e0
    using wal_open_fails [OF that] ok(7) by auto
  have sink: "\<exists>e r cr. be_load_default env r cr = Some e \<and> e0 = Wrapped ''aws config'' e"
    if "new_sink (be_load_default env) (c_dead_letter c) (Some m) = Inl e0" for m e0
    using new_sink_fails [OF that] ok(8) by auto
  note sub = new_subscriber_fails [OF _ ok(10,9)]
  from wired Inr show ?thesis
    unfolding wire_def
    by (elim checked_Inl running_Returned) (auto simp: ok(1-3,5) Let_def dest: ok(6) dest!: wal sink sub split: outcome.splits)
qed

definition mem_registry :: "metric_desc list registry" where
  "mem_registry = \<lparr>reg_new = [], reg_must = (\<lambda>ds g.
     if distinct (map fq_name (g @ ds)) \<and> list_all (\<lambda>d. valid_metric_name (fq_name d)) ds then Returned (g @ ds) else Panic)\<rparr>"

lemma mem_registry_law: "registry_law mem_registry (\<lambda>g. g)"
  by (auto simp: registry_law_def mem_registry_def)

lemma mem_metrics: "\<exists>ms g. service_metrics mem_registry = Returned (ms, g)"
  using service_metrics_returns [OF mem_registry_law] by blast

definition demo_env :: "(kv_write list, put_input list, mem_db, unit) boot_env" where
  "demo_env = \<lparr>be_read_file = demo_read_file, be_decode_yaml = demo_decode, be_parse_env = Inr,
     be_url_ok = (\<lambda>u. True), be_iter = rev,
     be_parse_dsn = (\<lambda>d. Inr \<lparr>ps_max_conns = 4, ps_min_conns = 0, ps_max_lifetime = 3600 * second\<rparr>),
     be_connect = (\<lambda>ps ddl. Inr quiet_pool), be_ping = (\<lambda>d. (None, d)),
     be_badger_open = (\<lambda>path sync n. Inr []), be_load_default = (\<lambda>r cr. None),
     be_hostname_var = ''pod0'', be_os_hostname = Inr '''', be_nan = 0, be_make_ok = demo_make,
     be_pattern_ok = (\<lambda>p. True),
     be_conflict = (=), be_pg = empty_db, be_s3 = []\<rparr>"

definition narrow_columns :: "config \<Rightarrow> go_error + config" where
  "narrow_columns c = Inr (c\<lparr>c_postgres := (c_postgres c)\<lparr>pg_columns := [''topic'', ''payload'']\<rparr>\<rparr>)"

definition narrow_config :: config where
  "narrow_config = demo_config\<lparr>c_postgres := (c_postgres demo_config)\<lparr>pg_columns := [''topic'', ''payload'']\<rparr>\<rparr>"

definition narrow_env :: "(kv_write list, put_input list, mem_db, unit) boot_env" where
  "narrow_env = demo_env\<lparr>be_parse_env := narrow_columns\<rparr>"

lemma narrow_load: "load_config narrow_env ''/etc/c.yaml'' = Inr narrow_config"
proof -
  have "validate (\<lambda>u. True) rev narrow_config = []" by code_simp
  then show ?thesis
    by (simp add: load_config_def narrow_env_def demo_env_def load_def demo_read_file_def demo_decode_def
        narrow_columns_def narrow_config_def [symmetric])
qed

lemma demo_env_fields:
  "dsn pc \<noteq> '''' \<Longrightarrow> new_pool (be_parse_dsn demo_env) (be_connect demo_env) pc = Inr quiet_pool"
  "be_badger_open demo_env path sync n = Inr []" "be_load_default demo_env r cr = None"
  "be_hostname_var demo_env = ''pod0''" "be_iter demo_env = rev" "be_nan demo_env = 0" "be_make_ok demo_env = demo_make"
  by (simp_all add: demo_env_def new_pool_def Let_def)

lemma narrow_env_fields [simp]:
  "be_parse_dsn narrow_env = be_parse_dsn demo_env" "be_connect narrow_env = be_connect demo_env"
  "be_badger_open narrow_env = be_badger_open demo_env" "be_load_default narrow_env = be_load_default demo_env"
  "be_hostname_var narrow_env = be_hostname_var demo_env"
  by (simp_all add: narrow_env_def)

lemma boot_failures_witness:
  "\<exists>e. boot mem_registry narrow_env demo_platform ''/etc/c.yaml''
     = (Returned (Inl (Wrapped ''postgres copier'' e)), [ClosePool, StopSignals])"
proof -
  have c: "pg_columns (c_postgres narrow_config) = [''topic'', ''payload'']" "dsn (c_postgres narrow_config) \<noteq> ''''"
    by (simp_all add: narrow_config_def demo_config_def)
  obtain l where l: "new_with_writer (c_logging narrow_config) = Inr l"
    using validated_steps(1) [OF narrow_load] by (metis sum.exhaust)
  have "\<exists>err. new_copier (Some quiet_pool) (c_postgres narrow_config) = Inl err"
    by (simp add: new_copier_def c columns_match_message_iff canonical_columns_def)
  moreover obtain ms g where ms: "service_metrics mem_registry = Returned (ms, g)" using mem_metrics by blast
  ultimately have "\<exists>err ds. boot mem_registry narrow_env demo_platform ''/etc/c.yaml'' = (Returned (Inl err), ds)"
    unfolding boot_wired [OF narrow_load l ms]
    by (auto simp: wire_def narrow_load checked_def l demo_env_fields(1) [OF c(2)])
  then obtain err ds where b: "boot mem_registry narrow_env demo_platform ''/etc/c.yaml'' = (Returned (Inl err), ds)" by blast
  from boot_failures [OF b] b show ?thesis
    by (auto simp: narrow_load demo_env_fields c(2))
qed


subsection \<open>A started service\<close>

lemma boot_cases:
  assumes "boot rg env base path = (Returned (Inr b), ds)"
  obtains c pool copier writer db ring flush sub where
    "load_config env path = Inr c" "new_pool (be_parse_dsn env) (be_connect env) (c_postgres c) = Inr pool"
    "new_copier (Some pool) (c_postgres c) = Inr copier"
    "new_ring (be_make_ok env) (be_nan env) (c_buffer c) (Some zero_buffer_metrics) = Returned (Inr ring)"
    "new_flusher (c_flusher c) True True True (Some zero_flusher_metrics) = Inr flush"
    "new_subscriber (be_hostname_var env) (be_os_hostname env) (c_mqtt c) True (Some zero_subscriber_metrics) = Inr sub"
    "be_badger_open env (badger_path (c_badger c)) (sync_writes (c_badger c)) (Some (value_log_file_size (c_badger c))) = Inr db"
    "bt_config b = c" "bt_platform b = base\<lparr>pf_pool := pool, pf_copier := copier\<rparr>" "bt_flusher b = flush"
    "bt_subscriber b = set_unparseable_inserter (Some (side_table (bt_platform b) writer)) sub"
    "wd_ring (bt_world b) = ring" "ws_db (wd_wal (bt_world b)) = db" "ws_seq (wd_wal (bt_world b)) = 0"
    "wd_tick (bt_world b) = 0" "map fst (hs_probes (bt_health b)) = [''postgres'', ''dead_letter_bucket'', ''mqtt'']"
    "ds = [CloseWal, ClosePool, StopSignals]"
proof -
  from assms obtain c l ms g where c: "load_config env path = Inr c" and ms: "service_metrics rg = Returned (ms, g)"
    and wired: "wire env base c l ms = (Returned (Inr b), ds)"
    by (cases rule: boot_parts) auto
  have "validate_badger (c_badger c) = []"
    using c load_cases unfolding load_config_def by (metis validate_Nil)
  then have n: "0 < value_log_file_size (c_badger c)" by (simp add: validate_badger_def not_le)
  from wired c show ?thesis
    unfolding wire_def service_metrics_sets [OF ms]
    by (elim checked_Inr running_Returned)
      (rule that; auto simp: Let_def register_probe_def new_server_def wal_open_def n
          split: sum.splits if_splits outcome.splits)
qed

lemma boot_flusher:
  assumes "boot rg env base path = (Returned (Inr b), ds)" "iter_ok (be_iter env)"
  shows "1 \<le> batch_size (fl_cfg (bt_flusher b))" "1 \<le> elevated_batch_size (fl_cfg (bt_flusher b))"
    "0 \<le> max_retries (fl_cfg (bt_flusher b))" "fl_mode (bt_flusher b) = ModeNormal" "critical_until (bt_flusher b) = zero_time"
proof -
  obtain c flush where c: "load_config env path = Inr c" "bt_flusher b = flush"
    "new_flusher (c_flusher c) True True True (Some zero_flusher_metrics) = Inr flush"
    by (rule boot_cases [OF assms(1)])
  from c(3) have fl: "fl_cfg flush = c_flusher c" "fl_mode flush = ModeNormal" "critical_until flush = zero_time"
    by (auto simp: new_flusher_def)
  have "validate (be_url_ok env) (be_iter env) c = []"
    using c(1) unfolding load_config_def by (rule load_cases)
  then have "validate_flusher (be_iter env) (c_flusher c) = []" by (simp add: validate_Nil)
  then show "1 \<le> batch_size (fl_cfg (bt_flusher b))" "1 \<le> elevated_batch_size (fl_cfg (bt_flusher b))"
    "0 \<le> max_retries (fl_cfg (bt_flusher b))" "fl_mode (bt_flusher b) = ModeNormal" "critical_until (bt_flusher b) = zero_time"
    using assms(2) fl c(2) by (simp_all add: validate_flusher_Nil)
qed

text \<open>C18: a started service is one the guarantees speak about. When run's start-up succeeds, on a platform
  that keeps its promises and on a WAL left well formed and in the past, the world it builds satisfies the
  invariant for as many appends as the sequence number has room for, the ring is empty, what the WAL held
  is the log, the side table is wired to the subscriber, the flusher starts in normal mode with an open
  gate and sound batch sizes and retry count, the columns are the canonical ones, the client id is the
  prefix with a host name, and readiness asks database, bucket and MQTT.\<close>
theorem boot_establishes:
  assumes "boot rg env base path = (Returned (Inr b), ds)" "iter_ok (be_iter env)" "platform_ok (bt_platform b) v"
    and "max_bytes (c_buffer (bt_config b)) < 2 ^ 62" "k < 2 ^ 64"
    and "wal_inv (pf_badger base) (vw_badger v) (pf_gob base) (wd_wal (bt_world b))"
    and "wal_before (vw_badger v) (pf_clock base 0) (wd_wal (bt_world b))"
  shows "world_inv (bt_platform b) v k (bt_world b) \<and> world_queue (bt_world b) = []
    \<and> (\<exists>u. sb_unparseable (bt_subscriber b) = Some (side_table (bt_platform b) u))
    \<and> 1 \<le> batch_size (fl_cfg (bt_flusher b)) \<and> 1 \<le> elevated_batch_size (fl_cfg (bt_flusher b))
    \<and> 0 \<le> max_retries (fl_cfg (bt_flusher b))
    \<and> fl_mode (bt_flusher b) = ModeNormal \<and> critical_until (bt_flusher b) \<le> pf_clock base n
    \<and> cp_columns (pf_copier (bt_platform b)) = canonical_columns
    \<and> (\<exists>host. sb_client_id (bt_subscriber b) = client_id_prefix (c_mqtt (bt_config b)) @ ''-'' @ host \<and> host \<noteq> '''')
    \<and> map fst (hs_probes (bt_health b)) = [''postgres'', ''dead_letter_bucket'', ''mqtt'']
    \<and> ds = [CloseWal, ClosePool, StopSignals]"
proof -
  obtain c pool copier writer db ring flush sub where b:
    "load_config env path = Inr c" "new_pool (be_parse_dsn env) (be_connect env) (c_postgres c) = Inr pool"
    "new_copier (Some pool) (c_postgres c) = Inr copier"
    "new_ring (be_make_ok env) (be_nan env) (c_buffer c) (Some zero_buffer_metrics) = Returned (Inr ring)"
    "new_flusher (c_flusher c) True True True (Some zero_flusher_metrics) = Inr flush"
    "new_subscriber (be_hostname_var env) (be_os_hostname env) (c_mqtt c) True (Some zero_subscriber_metrics) = Inr sub"
    "be_badger_open env (badger_path (c_badger c)) (sync_writes (c_badger c)) (Some (value_log_file_size (c_badger c))) = Inr db"
    "bt_config b = c" "bt_platform b = base\<lparr>pf_pool := pool, pf_copier := copier\<rparr>" "bt_flusher b = flush"
    "bt_subscriber b = set_unparseable_inserter (Some (side_table (bt_platform b) writer)) sub"
    "wd_ring (bt_world b) = ring" "ws_db (wd_wal (bt_world b)) = db" "ws_seq (wd_wal (bt_world b)) = 0"
    "wd_tick (bt_world b) = 0" "map fst (hs_probes (bt_health b)) = [''postgres'', ''dead_letter_bucket'', ''mqtt'']"
    "ds = [CloseWal, ClosePool, StopSignals]"
    by (rule boot_cases [OF assms(1)])
  note fl = boot_flusher [OF assms(1,2)]
  have r: "ring_inv ring" "ring_list ring = []"
    using new_ring_inv [OF b(4)] assms(4) b(8) new_ring_cases [OF b(4)] by (metis, metis)
  have "0 \<le> pf_clock base n"
    using assms(3) b(9) by (simp add: platform_ok_def clock_law_def)
  then have gate: "critical_until (bt_flusher b) \<le> pf_clock base n" by (simp add: fl zero_time_def)
  have cid: "\<exists>host. sb_client_id sub = client_id_prefix (c_mqtt c) @ ''-'' @ host \<and> host \<noteq> ''''"
    using b(6) by (auto simp: new_subscriber_def compute_client_id_def split: sum.splits if_splits)
  have cols: "cp_columns copier = canonical_columns"
    using b(3) by (auto simp: new_copier_def columns_match_message_iff split: if_splits)
  have "world_inv (bt_platform b) v k (bt_world b)"
    using assms(3,5-7) r b(9,12-15) by (simp add: world_inv_def)
  then show ?thesis
    using b(8,9,11-13,15-17) r fl gate cid cols by (simp add: world_queue_def set_unparseable_inserter_def) blast
qed


text \<open>The demonstration process on any WAL and any clock.\<close>

definition env_on :: "kv_write list \<Rightarrow> (kv_write list, put_input list, mem_db, unit) boot_env" where
  "env_on db = demo_env\<lparr>be_badger_open := (\<lambda>path sync n. Inr db)\<rparr>"

lemma env_on_fields:
  "dsn pc \<noteq> '''' \<Longrightarrow> new_pool (be_parse_dsn (env_on db)) (be_connect (env_on db)) pc = Inr quiet_pool"
  "be_badger_open (env_on db) path sync n = Inr db" "be_load_default (env_on db) r cr = None"
  "be_hostname_var (env_on db) = ''pod0''" "be_iter (env_on db) = rev" "be_nan (env_on db) = 0" "be_make_ok (env_on db) = demo_make"
  "be_pattern_ok (env_on db) path" "be_pg (env_on db) = empty_db" "be_s3 (env_on db) = []"
  "load_config (env_on db) path = load_config demo_env path"
  using demo_env_fields by (simp_all add: env_on_def load_config_def) (simp_all add: demo_env_def)

lemma env_on_nothing: "env_on [] = demo_env" "demo_platform\<lparr>pf_clock := pf_clock demo_platform\<rparr> = demo_platform"
  by (simp_all add: env_on_def demo_env_def demo_platform_def)

lemma demo_wire_on:
  assumes "service_metrics mem_registry = Returned (ms, g)"
  shows "if metrics_path mm = '''' then
      wire (env_on db) (demo_platform\<lparr>pf_clock := ck\<rparr>) (demo_config\<lparr>c_metrics := mm\<rparr>) l ms
        = (Panic, [CloseWal, ClosePool, StopSignals])
    else \<exists>b. wire (env_on db) (demo_platform\<lparr>pf_clock := ck\<rparr>) (demo_config\<lparr>c_metrics := mm\<rparr>) l ms
        = (Returned (Inr b), [CloseWal, ClosePool, StopSignals])
      \<and> bt_config b = demo_config\<lparr>c_metrics := mm\<rparr> \<and> bt_platform b = demo_platform\<lparr>pf_clock := ck\<rparr>
      \<and> ws_db (wd_wal (bt_world b)) = db"
proof -
  have load: "load_config demo_env ''/etc/c.yaml'' = Inr demo_config"
    using demo_load by (simp add: load_config_def demo_env_def)
  have c: "pg_columns (c_postgres demo_config) = canonical_columns" "dsn (c_postgres demo_config) \<noteq> ''''"
    by (simp_all add: demo_config_def new_default_def canonical_columns_def)
  have "demo_make (max_messages (c_buffer demo_config))" by (simp add: demo_make_def demo_config_def new_default_def)
  then obtain r where r: "new_ring demo_make 0 (c_buffer demo_config) (Some zero_buffer_metrics) = Returned (Inr r)"
    using validated_steps(3,4) [OF load] by (metis outcome.exhaust sum.exhaust)
  obtain u where u: "new_unparseable_writer (Some quiet_pool) (c_postgres demo_config) = Inr u"
    using validated_steps(2) [OF load] by (metis sum.exhaust)
  obtain w where w: "wal_open (be_badger_open (env_on db)) \<lparr>wc_path = badger_path (c_badger demo_config),
      wc_ttl = badger_ttl (c_badger demo_config), wc_sync_writes = sync_writes (c_badger demo_config),
      wc_value_log_file_size = value_log_file_size (c_badger demo_config)\<rparr> (Some zero_wal_metrics) = Inr w"
    "ws_db w = db"
    using validated_steps(7) [OF load] by (simp add: wal_open_def env_on_fields)
  obtain k where k: "new_sink (be_load_default (env_on db)) (c_dead_letter demo_config) (Some zero_deadletter_metrics) = Inr k"
    using validated_steps(8) [OF load] by (simp add: new_sink_def env_on_fields Let_def)
  obtain f where f: "new_flusher (c_flusher demo_config) True True True (Some zero_flusher_metrics) = Inr f"
    by (simp add: new_flusher_def)
  obtain s :: "(kv_write list, put_input list, mem_db) world subscriber"
    where s: "new_subscriber ''pod0'' (be_os_hostname (env_on db)) (c_mqtt demo_config) True
      (Some zero_subscriber_metrics) = Inr s"
    using validated_steps(9,10) [OF load] by (simp add: new_subscriber_def compute_client_id_def)
  have cp: "new_copier (Some quiet_pool) (c_postgres demo_config) = Inr demo_copier"
    using c by (simp add: new_copier_def columns_match_message_iff demo_copier_def)
      (simp add: demo_config_def new_default_def)
  have "demo_platform\<lparr>pf_clock := ck, pf_pool := quiet_pool, pf_copier := demo_copier\<rparr> = demo_platform\<lparr>pf_clock := ck\<rparr>"
    by (simp add: demo_platform_def)
  then show ?thesis
    unfolding wire_def
    by (simp add: checked_def running_def env_on_fields c r u w k f s cp Let_def service_metrics_sets [OF assms] mux_handle_def)
qed

lemma demo_wire:
  assumes "service_metrics mem_registry = Returned (ms, g)"
  shows "if metrics_path mm = '''' then
      wire demo_env demo_platform (demo_config\<lparr>c_metrics := mm\<rparr>) l ms = (Panic, [CloseWal, ClosePool, StopSignals])
    else \<exists>b. wire demo_env demo_platform (demo_config\<lparr>c_metrics := mm\<rparr>) l ms
        = (Returned (Inr b), [CloseWal, ClosePool, StopSignals])
      \<and> bt_config b = demo_config\<lparr>c_metrics := mm\<rparr> \<and> bt_platform b = demo_platform \<and> ws_db (wd_wal (bt_world b)) = []"
  using demo_wire_on [OF assms, of mm "[]" "pf_clock demo_platform" l] unfolding env_on_nothing .

lemma demo_boot_on:
  "\<exists>b ds. boot mem_registry (env_on db) (demo_platform\<lparr>pf_clock := ck\<rparr>) ''/etc/c.yaml'' = (Returned (Inr b), ds)
    \<and> bt_config b = demo_config \<and> bt_platform b = demo_platform\<lparr>pf_clock := ck\<rparr> \<and> ws_db (wd_wal (bt_world b)) = db"
proof -
  have load: "load_config demo_env ''/etc/c.yaml'' = Inr demo_config"
    using demo_load by (simp add: load_config_def demo_env_def)
  obtain l where l: "new_with_writer (c_logging demo_config) = Inr l"
    using validated_steps(1) [OF load] by (metis sum.exhaust)
  obtain ms g where ms: "service_metrics mem_registry = Returned (ms, g)" using mem_metrics by blast
  have m: "demo_config\<lparr>c_metrics := c_metrics demo_config\<rparr> = demo_config"
    "metrics_path (c_metrics demo_config) \<noteq> ''''" by (simp_all add: demo_config_def new_default_def)
  have "load_config (env_on db) ''/etc/c.yaml'' = Inr demo_config" using load by (simp add: env_on_fields)
  note b = boot_wired [OF this l ms]
  show ?thesis unfolding b using demo_wire_on [OF ms, of "c_metrics demo_config" db ck l] m by auto
qed

lemma demo_boot:
  "\<exists>b ds. boot mem_registry demo_env demo_platform ''/etc/c.yaml'' = (Returned (Inr b), ds) \<and> bt_config b = demo_config
    \<and> bt_platform b = demo_platform \<and> ws_db (wd_wal (bt_world b)) = []"
  using demo_boot_on [of "[]" "pf_clock demo_platform"] unfolding env_on_nothing .

lemma boot_establishes_witness:
  "\<exists>b. fst (boot mem_registry demo_env demo_platform ''/etc/c.yaml'') = Returned (Inr b)
     \<and> world_inv (bt_platform b) demo_view 7 (bt_world b) \<and> world_queue (bt_world b) = []"
proof -
  obtain b ds where b: "boot mem_registry demo_env demo_platform ''/etc/c.yaml'' = (Returned (Inr b), ds)" "bt_config b = demo_config"
    "bt_platform b = demo_platform" "ws_db (wd_wal (bt_world b)) = []"
    using demo_boot by blast
  have iter: "iter_ok (be_iter demo_env)" by (simp add: demo_env_fields iter_ok_rev)
  have ok: "platform_ok (bt_platform b) demo_view" using demo_platform_ok b(3) by simp
  have mb: "max_bytes (c_buffer (bt_config b)) < 2 ^ 62" by (simp add: b(2) demo_config_def new_default_def)
  have "log_entries mem_badger_view [] = []" by (simp add: log_entries_def mem_badger_view_def)
  then have wal: "wal_inv (pf_badger demo_platform) (vw_badger demo_view) (pf_gob demo_platform) (wd_wal (bt_world b))"
    "wal_before (vw_badger demo_view) (pf_clock demo_platform 0) (wd_wal (bt_world b))"
    using mem_badger_contract table_gob_contract b(4)
    by (simp_all add: wal_inv_def wal_before_def demo_platform_def demo_view_def)
  have "(7::nat) < 2 ^ 64" by simp
  from boot_establishes [OF b(1) iter ok mb this wal] b(1) show ?thesis by auto
qed


subsection \<open>What the configuration does not rule out\<close>

lemma validate_ignores_health: "validate url_ok iter (c\<lparr>c_health := h\<rparr>) = validate url_ok iter c"
  by (simp add: validate_def)

text \<open>The names are taken afterwards: building any of the sets again on the same registry panics.\<close>

lemma registered_again:
  assumes "registry_law rg taken" "taken g = service_descs" "ds \<noteq> []" "set ds \<subseteq> set service_descs"
  shows "registered rg m ds g = Panic"
proof -
  have "hd ds \<in> set (taken g)" using assms(2-4) by auto
  then have "\<exists>d \<in> set ds. fq_name d \<in> fq_name ` set (taken g)" using assms(3) by (intro bexI [of _ "hd ds"]) auto
  then have "reg_must rg ds g = Panic" using assms(1) unfolding registry_law_def by blast
  then show ?thesis by (simp add: registered_def)
qed

lemma service_sets:
  "buffer_descs \<noteq> []" "wal_descs \<noteq> []" "subscriber_descs \<noteq> []" "flusher_descs \<noteq> []" "deadletter_descs \<noteq> []"
  "set buffer_descs \<subseteq> set service_descs" "set wal_descs \<subseteq> set service_descs"
  "set subscriber_descs \<subseteq> set service_descs" "set flusher_descs \<subseteq> set service_descs"
  "set deadletter_descs \<subseteq> set service_descs"
proof -
  show "buffer_descs \<noteq> []" "wal_descs \<noteq> []" "subscriber_descs \<noteq> []" "flusher_descs \<noteq> []" "deadletter_descs \<noteq> []"
    by (simp_all add: buffer_descs_def wal_descs_def subscriber_descs_def flusher_descs_def deadletter_descs_def)
qed (auto simp: service_descs_def)

lemma metrics_register_once:
  assumes "registry_law rg taken"
  shows "\<exists>ms g. service_metrics rg = Returned (ms, g) \<and> taken g = service_descs
    \<and> new_buffer_metrics rg g = Panic \<and> new_wal_metrics rg g = Panic \<and> new_subscriber_metrics rg g = Panic
    \<and> new_flusher_metrics rg g = Panic \<and> new_deadletter_metrics rg g = Panic"
proof -
  obtain ms g where g: "service_metrics rg = Returned (ms, g)" "taken g = service_descs"
    using service_metrics_returns [OF assms] by blast
  show ?thesis using g
    unfolding new_buffer_metrics_def new_wal_metrics_def new_subscriber_metrics_def new_flusher_metrics_def
      new_deadletter_metrics_def
    by (intro exI [of _ ms] exI [of _ g]) (simp add: registered_again [OF assms g(2)] service_sets)
qed

text \<open>C30: when starting the service can panic. With a registry that keeps its promises run's start-up panics only
  on a configuration that loaded, and for one of two reasons Validate does not look at: make cannot make a
  slice of as many messages as the ring is to hold, for which Validate sets no upper bound, or the metrics
  path is empty or no pattern for ServeMux. By then pool and WAL are open, and their deferred calls
  run. The metric sets register without a panic on the new registry, and a start-up that succeeds had
  a length make accepts and serves exactly the metrics path.\<close>
theorem boot_panics:
  assumes "registry_law rg taken" "boot rg env base path = (r, ds)"
  shows "case r of
      Panic \<Rightarrow> ds = [CloseWal, ClosePool, StopSignals]
        \<and> (\<exists>c. load_config env path = Inr c
             \<and> (\<not> be_make_ok env (max_messages (c_buffer c))
                \<or> metrics_path (c_metrics c) = '''' \<or> \<not> be_pattern_ok env (metrics_path (c_metrics c))))
    | Returned (Inl e) \<Rightarrow> True
    | Returned (Inr b) \<Rightarrow> load_config env path = Inr (bt_config b) \<and> metrics_path (c_metrics (bt_config b)) \<noteq> ''''
        \<and> be_pattern_ok env (metrics_path (c_metrics (bt_config b)))
        \<and> be_make_ok env (max_messages (c_buffer (bt_config b)))
        \<and> bt_metrics_mux b = [metrics_path (c_metrics (bt_config b))]"
proof -
  obtain ms g where ms: "service_metrics rg = Returned (ms, g)" using service_metrics_returns [OF assms(1)] by blast
  show ?thesis
    using assms(2)
  proof (cases rule: boot_parts)
    case (wired c l ms g)
    have made: "be_make_ok env (max_messages (c_buffer c))"
      if "new_ring (be_make_ok env) (be_nan env) (c_buffer c) (Some (ms_buffer ms)) = Returned x" for x
      using validated_steps(4) [OF wired(1), of "be_make_ok env" "be_nan env" "ms_buffer ms"] that by simp
    show ?thesis
    proof (cases r)
      case Panic
      have "wire env base c l ms = (Panic, ds)" using wired Panic by simp
      then show ?thesis using wired(1) validated_steps(4) [OF wired(1)] unfolding wire_def Panic
        by (elim checked_Panic running_Panic) (auto simp: Let_def mux_handle_def split: if_splits)
    next
      case (Returned x)
      show ?thesis
      proof (cases x)
        case (Inr b)
        have "wire env base c l ms = (Returned (Inr b), ds)" using wired Returned Inr by simp
        then show ?thesis using wired(1) unfolding wire_def Returned Inr
          by (elim checked_Inr running_Returned)
            (auto simp: Let_def mux_handle_def dest: made split: if_splits outcome.splits)
      qed (simp add: Returned)
    qed
  qed (use ms in auto)
qed

definition clear_metrics_path :: "config \<Rightarrow> go_error + config" where
  "clear_metrics_path c = Inr (c\<lparr>c_metrics := \<lparr>metrics_listen = '':9090'', metrics_path = ''''\<rparr>\<rparr>)"

definition pathless_env :: "(kv_write list, put_input list, mem_db, unit) boot_env" where
  "pathless_env = demo_env\<lparr>be_parse_env := clear_metrics_path\<rparr>"

lemma pathless_env_fields:
  "be_parse_dsn pathless_env = be_parse_dsn demo_env" "be_connect pathless_env = be_connect demo_env"
  "be_badger_open pathless_env = be_badger_open demo_env" "be_load_default pathless_env = be_load_default demo_env"
  "be_hostname_var pathless_env = be_hostname_var demo_env" "be_os_hostname pathless_env = be_os_hostname demo_env"
  "be_nan pathless_env = be_nan demo_env" "be_make_ok pathless_env = be_make_ok demo_env"
  "be_pattern_ok pathless_env = be_pattern_ok demo_env"
  "be_conflict pathless_env = be_conflict demo_env" "be_pg pathless_env = be_pg demo_env" "be_s3 pathless_env = be_s3 demo_env"
  by (simp_all add: pathless_env_def)

lemma pathless_load:
  "load_config pathless_env ''/etc/c.yaml'' = Inr (demo_config\<lparr>c_metrics := \<lparr>metrics_listen = '':9090'', metrics_path = ''''\<rparr>\<rparr>)"
proof -
  let ?c = "demo_config\<lparr>c_metrics := \<lparr>metrics_listen = '':9090'', metrics_path = ''''\<rparr>\<rparr>"
  have "validate (\<lambda>u. True) rev ?c = []" by code_simp
  then show ?thesis
    by (simp add: load_config_def pathless_env_def demo_env_def load_def demo_read_file_def demo_decode_def
        clear_metrics_path_def)
qed

lemma boot_panics_witness:
  "boot mem_registry pathless_env demo_platform ''/etc/c.yaml'' = (Panic, [CloseWal, ClosePool, StopSignals])"
proof -
  let ?c = "demo_config\<lparr>c_metrics := \<lparr>metrics_listen = '':9090'', metrics_path = ''''\<rparr>\<rparr>"
  obtain ms g where ms: "service_metrics mem_registry = Returned (ms, g)" using mem_metrics by blast
  obtain l where l: "new_with_writer (c_logging ?c) = Inr l"
    using validated_steps(1) [OF pathless_load] by (metis sum.exhaust)
  have probe: "postgres_probe pathless_env = postgres_probe demo_env"
    by (simp add: postgres_probe_def fun_eq_iff pathless_env_def)
  have same: "wire pathless_env = wire demo_env"
    by (intro ext) (unfold wire_def probe pathless_env_fields, rule refl)
  have b: "boot mem_registry pathless_env demo_platform ''/etc/c.yaml'' = wire demo_env demo_platform ?c l ms"
    unfolding boot_wired [OF pathless_load l ms] same ..
  have p: "fst (boot mem_registry pathless_env demo_platform ''/etc/c.yaml'') = Panic"
    unfolding b using demo_wire [OF ms, of "\<lparr>metrics_listen = '':9090'', metrics_path = ''''\<rparr>" l] by auto
  from boot_panics [OF mem_registry_law] p show ?thesis
    by (cases "boot mem_registry pathless_env demo_platform ''/etc/c.yaml''") force
qed

text \<open>A ring of a thousand million million messages passes Validate.\<close>

definition huge_config :: config where
  "huge_config = demo_config\<lparr>c_buffer := (c_buffer demo_config)\<lparr>max_messages := 10 ^ 15\<rparr>\<rparr>"

definition huge_env :: "(kv_write list, put_input list, mem_db, unit) boot_env" where
  "huge_env = demo_env\<lparr>be_parse_env := (\<lambda>c. Inr (c\<lparr>c_buffer := (c_buffer c)\<lparr>max_messages := 10 ^ 15\<rparr>\<rparr>))\<rparr>"

lemma huge_ring_panics:
  "load_config huge_env ''/etc/c.yaml'' = Inr huge_config
    \<and> new_ring (be_make_ok huge_env) (be_nan huge_env) (c_buffer huge_config) (Some zero_buffer_metrics) = Panic"
proof -
  have "validate (\<lambda>u. True) rev huge_config = []" by code_simp
  then have "load_config huge_env ''/etc/c.yaml'' = Inr huge_config"
    by (simp add: load_config_def huge_env_def demo_env_def load_def demo_read_file_def demo_decode_def
        huge_config_def)
  with validated_steps(4) [OF this] show ?thesis
    by (simp add: huge_config_def huge_env_def demo_env_def demo_make_def)
qed

text \<open>Equal liveness and readiness paths pass Validate, and the health server's goroutine panics on them.\<close>

lemma equal_paths_panic:
  assumes "validate url_ok iter c = []" "conflict path path" "path \<noteq> ''''"
  shows "validate url_ok iter (c\<lparr>c_health := \<lparr>health_listen = l, liveness_path = path, readiness_path = path\<rparr>\<rparr>) = []
    \<and> health_run ok conflict finish (new_server l path path) = Panic"
  using assms by (simp add: validate_ignores_health health_run_def new_server_def mux_handle_def)

end
