(* ===== verification/Restart.thy ===== *)
theory Restart
  imports Boot Interleaved
begin

text \<open>
  A crash and the start after it. The first process runs its subscriber and workers under any schedule
  and ends anywhere, in the middle of any call sequence; what is outside its memory (the database, the bucket, the
  files of Badger) is what the second process is started on. The ring, the hands of the workers and
  the sequence number of the WAL are gone.
\<close>

subsection \<open>What outlives a process\<close>

definition carries_over ::
  "('db, 'dtx, 's3, 'pg, 'ptx) platform_view \<Rightarrow> ('db, 's3, 'pg, 'ptx) boot_env
   \<Rightarrow> ('db, 'dtx, 's3, 'pg, 'ptx) platform \<Rightarrow> ('db, 'dtx, 's3, 'pg, 'ptx) platform \<Rightarrow> ('db, 's3, 'pg) world \<Rightarrow> bool" where
  \<comment> \<open>the second start, on \<open>env\<close> and \<open>base\<close>, follows the world \<open>w\<close> of the first: database and bucket are
     as they were, the clock went on, the build is the same, and Badger, opened on the same directory, has what it
     committed if it was told to sync its writes (and no entry expired in between)\<close>
  "carries_over v env base p w \<longleftrightarrow>
     be_pg env = wd_pg w \<and> be_s3 env = snd (wd_sink w)
     \<and> pf_badger base = pf_badger p \<and> pf_gob base = pf_gob p \<and> pf_clock p (wd_tick w) < pf_clock base 0
     \<and> (wc_sync_writes (ws_cfg (wd_wal w)) \<longrightarrow>
          (\<forall>sync n db. be_badger_open env (wc_path (ws_cfg (wd_wal w))) sync n = Inr db
             \<longrightarrow> bv_live (vw_badger v) db = bv_live (vw_badger v) (ws_db (wd_wal w))))"

lemma boot_stores:
  assumes "boot rg env base path = (Returned (Inr b), ds)"
  shows "wd_pg (bt_world b) = be_pg env" "snd (wd_sink (bt_world b)) = be_s3 env"
proof -
  from assms obtain c l ms g where ms: "service_metrics rg = Returned (ms, g)"
    and wired: "wire env base c l ms = (Returned (Inr b), ds)"
    by (cases rule: boot_parts) auto
  from wired have "wd_pg (bt_world b) = be_pg env \<and> snd (wd_sink (bt_world b)) = be_s3 env"
    unfolding wire_def by (elim checked_Inr running_Returned, simp only: Let_def mux_handle_def split: if_splits outcome.splits)
      (clarsimp simp: checked_def)+
  then show "wd_pg (bt_world b) = be_pg env" "snd (wd_sink (bt_world b)) = be_s3 env" by simp_all
qed

lemma wal_before_restart:
  \<comment> \<open>a store of an earlier process is one whose keys are all in the past, whatever the new sequence number\<close>
  assumes "wal_before v t s" "t < u" "u < 2 ^ 63" "bv_live v (ws_db s') = bv_live v (ws_db s)"
  shows "wal_before v u s'"
proof -
  have t: "0 \<le> t" using assms(1) by (simp add: wal_before_def)
  have "nanos_word t < nanos_word u"
    using assms(2,3) t by (simp add: nanos_word_def unix_nano_def i64_id in_i64_def word_less_def uint_word_of_int)
  then have below: "n < nanos_word u" if "n < nanos_word t \<or> n = nanos_word t \<and> q \<le> q'" for n and q q' :: "64 word"
    using that by auto
  have same: "log_entries v (ws_db s') = log_entries v (ws_db s)" using assms(4) by (simp add: log_entries_def)
  show ?thesis
    unfolding wal_before_def same
  proof (intro conjI ballI)
    show "0 \<le> u" using t assms(2) by simp
    fix k assume "k \<in> fst ` set (log_entries v (ws_db s))"
    then obtain n q where "k = key_text n q" "n < nanos_word t \<or> n = nanos_word t \<and> q \<le> ws_seq s"
      using assms(1) by (auto simp: wal_before_def)
    then show "\<exists>n q. k = key_text n q \<and> (n < nanos_word u \<or> n = nanos_word u \<and> q \<le> ws_seq s')"
      using below by blast
  qed
qed

lemma restart_world:
  \<comment> \<open>the invariant and the stores of the second process, from those of the first\<close>
  assumes "world_inv p v j w" "carries_over v env base p w" "wc_sync_writes (ws_cfg (wd_wal w))"
    and "boot rg env base path = (Returned (Inr b), ds)"
    and "badger_path (c_badger (bt_config b)) = wc_path (ws_cfg (wd_wal w))"
    and "platform_ok (bt_platform b) v" "max_bytes (c_buffer (bt_config b)) < 2 ^ 62" "k < 2 ^ 64"
  shows "world_inv (bt_platform b) v k (bt_world b)" "world_queue (bt_world b) = []"
    "world_log (bt_platform b) v (bt_world b) = world_log p v w"
    "world_rows v (bt_world b) = world_rows v w" "world_letters v (bt_world b) = world_letters v w"
proof -
  obtain c pool copier writer db ring flush sub where b:
    "load_config env path = Inr c" "new_pool (be_parse_dsn env) (be_connect env) (c_postgres c) = Inr pool"
    "new_copier (Some pool) (c_postgres c) = Inr copier"
    "new_ring (be_make_ok env) (be_nan env) (c_buffer c) (Some zero_buffer_metrics) = Returned (Inr ring)"
    "new_flusher (c_flusher c) True True True (Some zero_flusher_metrics) = Inr flush"
    "new_subscriber (be_hostname_var env) (be_os_hostname env) (c_mqtt c) True (Some zero_subscriber_metrics) = Inr sub"
    "be_badger_open env (badger_path (c_badger c)) (sync_writes (c_badger c)) (Some (value_log_file_size (c_badger c))) = Inr db"
    "bt_config b = c" "bt_platform b = base\<lparr>pf_pool := pool, pf_copier := copier\<rparr>" "bt_flusher b = flush"
    "bt_subscriber b = set_unparseable_inserter (Some (side_table (bt_platform b) writer)) sub"
    "wd_ring (bt_world b) = ring" "ws_db (wd_wal (bt_world b)) = db" "ws_seq (wd_wal (bt_world b)) = 0"
    "wd_tick (bt_world b) = 0" "map fst (hs_probes (bt_health b)) = [''postgres'', ''dead_letter_bucket'', ''mqtt'']"
    "ds = [CloseWal, ClosePool, StopSignals]"
    by (rule boot_cases [OF assms(4)])
  note st = boot_stores [OF assms(4)]
  have r: "ring_inv ring" "ring_list ring = []"
    using new_ring_inv [OF b(4)] assms(7) b(8) new_ring_cases [OF b(4)] by (metis, metis)
  have live: "bv_live (vw_badger v) (ws_db (wd_wal (bt_world b))) = bv_live (vw_badger v) (ws_db (wd_wal w))"
    using assms(2,3,5) b(7,8,13) unfolding carries_over_def by metis
  have same: "pf_badger (bt_platform b) = pf_badger p" "pf_gob (bt_platform b) = pf_gob p"
    "pf_clock (bt_platform b) = pf_clock base" "pf_clock p (wd_tick w) < pf_clock base 0"
    using assms(2) b(9) by (simp_all add: carries_over_def)
  have wal: "wal_inv (pf_badger p) (vw_badger v) (pf_gob p) (wd_wal (bt_world b))"
    using assms(1) live by (simp add: world_inv_def wal_inv_def log_entries_def)
  have "pf_clock base 0 < 2 ^ 63" using assms(6) same(3) by (simp add: platform_ok_def clock_law_def)
  then have "wal_before (vw_badger v) (pf_clock base 0) (wd_wal (bt_world b))"
    using wal_before_restart [OF _ same(4) _ live] assms(1) by (simp add: world_inv_def)
  then show "world_inv (bt_platform b) v k (bt_world b)"
    using assms(6,8) b(12,14,15) r same wal by (simp add: world_inv_def)
  show "world_log (bt_platform b) v (bt_world b) = world_log p v w"
    using live same(2) by (simp add: world_log_def wal_log_def log_entries_def)
  show "world_queue (bt_world b) = []" using r(2) b(12) by (simp add: world_queue_def)
  show "world_rows v (bt_world b) = world_rows v w" "world_letters v (bt_world b) = world_letters v w"
    using st assms(2) by (simp_all add: world_rows_def world_letters_def carries_over_def)
qed

subsection \<open>Property\<close>

text \<open>C3: a crash loses what is in memory and nothing else. Let the subscriber and any number of workers run under any
  schedule, let the process end after any step, and let a second start on the same database, bucket
  and WAL directory succeed, with synced writes and at a later instant. The new world satisfies the
  invariant, its ring is empty, its log, table and letters are those of the crash; and every message
  that was held at the start or acknowledged since is in that log, that table or those letters, unless it
  was in the ring or in the hands of a worker when the process ended, or had been dropped before.\<close>
theorem crash_loses_memory:
  assumes "world_inv p v (length mvs) w" "sb_unparseable s = Some (side_table p u)"
    and "\<forall>m \<in> set (world_queue w) \<union> set (world_log p v w). message_ok m"
    and "distinct (map row_key (world_rows v w))"
    and "\<forall>tn c. Deliver tn c \<in> set mvs \<longrightarrow> go_len c < 2 ^ 61"
    and "y = run_schedule (subscriber_deps p) (broker_ack p) (flusher_deps p) mvs (start_system n s f w)"
    and "carries_over v env base p (sy_world y)" "wc_sync_writes (ws_cfg (wd_wal (sy_world y)))"
    and "boot rg env base path = (Returned (Inr b), ds)"
    and "badger_path (c_badger (bt_config b)) = wc_path (ws_cfg (wd_wal (sy_world y)))"
    and "platform_ok (bt_platform b) v" "max_bytes (c_buffer (bt_config b)) < 2 ^ 62" "k < 2 ^ 64"
  shows "world_inv (bt_platform b) v k (bt_world b) \<and> world_queue (bt_world b) = []
    \<and> world_log (bt_platform b) v (bt_world b) = world_log p v (sy_world y)
    \<and> world_rows v (bt_world b) = world_rows v (sy_world y)
    \<and> world_letters v (bt_world b) = world_letters v (sy_world y)
    \<and> (\<forall>m \<in> set (world_queue w) \<union> set (world_log p v w) \<union> set (sy_taken y).
        m \<in> set (world_log (bt_platform b) v (bt_world b)) \<or> in_table m (world_rows v (bt_world b))
        \<or> (\<exists>x \<in> set (world_letters v (bt_world b)).
             letter_holds (pf_uuid_string p) (pf_err_text p) (pf_marshal p) x m)
        \<or> m \<in> set (world_queue (sy_world y)) \<or> m \<in> set (hands y) \<or> m \<in> set (sy_lost y))"
proof -
  note inv = schedule_inv [where k = 0, unfolded add_0_right, OF assms(1-6)]
  then have "world_inv p v 0 (sy_world y)" unfolding svc.sched_inv_def by blast
  note r = restart_world [OF this assms(7-13)]
  show ?thesis using r svc.sched_inv_where [OF inv] by auto
qed

text \<open>C9: what the WAL held is recovered. Let a second start follow a crash as above, with a healthy database, a
  readable WAL that holds no message with a nil payload and a context that is not done, and let any
  number of its workers take their turns in any order while no publish arrives, 15 each for every
  message of the log and 8 more: then every message the WAL held at the crash is in the table, the WAL is empty,
  nothing was dropped and no row of the first process is gone. (A batch with a nil payload in it never reaches
  the table.)\<close>
theorem restart_recovers:
  assumes "world_inv p v j w" "carries_over v env base p w" "wc_sync_writes (ws_cfg (wd_wal w))"
    and "boot rg env base path = (Returned (Inr b), ds)" "iter_ok (be_iter env)"
    and "badger_path (c_badger (bt_config b)) = wc_path (ws_cfg (wd_wal w))"
    and "platform_ok (bt_platform b) v" "max_bytes (c_buffer (bt_config b)) < 2 ^ 62" "healthy (wd_pg w)"
    and "\<And>ms d r d'. healthy d \<Longrightarrow> \<forall>m \<in> set ms. payload m \<noteq> None \<Longrightarrow>
      copy_messages (pf_copier (bt_platform b)) (pf_pool (bt_platform b)) ms d = (r, d') \<Longrightarrow> \<not> isl r \<and> healthy d'"
    and "\<And>s n. wal_inv (pf_badger base) (vw_badger v) (pf_gob base) s \<Longrightarrow>
      \<not> isl (fst (wal_drain (pf_badger base) (pf_gob base) n s))"
    and "\<And>n. \<not> pf_cancelled base n" "\<forall>m \<in> set (world_log p v w). payload m \<noteq> None"
    and "0 < n" "set turns \<subseteq> {..<n}" "\<And>i. i < n \<Longrightarrow> 15 * length (world_log p v w) + 8 \<le> count_list turns i"
    and "y = run_schedule (subscriber_deps (bt_platform b)) (broker_ack (bt_platform b)) (flusher_deps (bt_platform b)) (map Work turns)
      (start_system n (bt_subscriber b) (bt_flusher b) (bt_world b))"
  shows "(\<forall>m \<in> set (world_log p v w). in_table m (world_rows v (sy_world y)))
    \<and> world_log (bt_platform b) v (sy_world y) = [] \<and> world_queue (sy_world y) = [] \<and> hands y = [] \<and> sy_lost y = []
    \<and> set (world_rows v w) \<subseteq> set (world_rows v (sy_world y))"
proof -
  let ?p = "bt_platform b"
  have "(1 :: nat) < 2 ^ 64" by simp
  note r = restart_world [OF assms(1-4,6-8) this]
  have same: "pf_badger ?p = pf_badger base" "pf_gob ?p = pf_gob base" "pf_clock ?p = pf_clock base"
    "pf_cancelled ?p = pf_cancelled base"
    by (rule boot_cases [OF assms(4)]; simp)+
  have pg: "healthy (wd_pg (bt_world b))" using assms(2,9) boot_stores [OF assms(4)] by (simp add: carries_over_def)
  note f = boot_flusher [OF assms(4,5)]
  have gate: "critical_until (bt_flusher b) \<le> fst (fd_now (flusher_deps ?p) u)" for u
  proof -
    have "0 \<le> pf_clock ?p (wd_tick u)" using assms(7) by (simp add: platform_ok_def clock_law_def)
    then show ?thesis using f(5) by (simp add: read_clock_def zero_time_def)
  qed
  note up = service_stays_up [where healthy = healthy and k = 1 and v = v and p = ?p, OF assms(10)
      assms(11) [folded same] assms(12) [folded same]]
  have log: "\<forall>m \<in> set (world_queue (bt_world b) @ world_log ?p v (bt_world b)). payload m \<noteq> None"
    using assms(13) r by simp
  have turns: "15 * svc.backlog TYPE(_) TYPE(_) ?p v (bt_world b) + 8 \<le> count_list turns i" if "i < n" for i
    using assms(16) [OF that] r by (simp add: svc.backlog_def)
  have "world_queue (sy_world y) = [] \<and> world_log ?p v (sy_world y) = [] \<and> hands y = [] \<and> sy_lost y = []
    \<and> (\<forall>m \<in> set (world_queue (bt_world b) @ world_log ?p v (bt_world b)). in_table m (world_rows v (sy_world y)))
    \<and> set (world_rows v (bt_world b)) \<subseteq> set (world_rows v (sy_world y))"
    by (rule svc.interleaved_drain [OF up gate pg r(1) f(1-3) log assms(14,15) turns assms(17)])
  then show ?thesis using r by simp
qed

text \<open>A process with a message in the ring and one in the log; a worker has pulled the first when it ends. The
  second process starts on its Badger files, by a clock that reads 5000 at first.\<close>

definition crash_store :: "kv_write list wal_store" where
  "crash_store = empty_store\<lparr>ws_cfg := demo_wal_config\<lparr>wc_path := ''/var/lib/mqtt2db-go/wal''\<rparr>\<rparr>"

definition before_crash :: "(kv_write list, put_input list, mem_db) world" where
  "before_crash = snd (service_append demo_platform (wal_demo_message ''a'') (ring_of_one\<lparr>wd_wal := crash_store\<rparr>))"

definition at_crash :: "(kv_write list, put_input list, mem_db) world system" where
  "at_crash = run_schedule (subscriber_deps demo_platform) (broker_ack demo_platform) (flusher_deps demo_platform)
     [Work 0, Work 0, Work 0, Work 0, Work 0] (start_system 2 service_subscriber small_flusher before_crash)"

definition later_clock :: "nat \<Rightarrow> time" where
  "later_clock n = 5000 + int (min n 1000)"

lemma before_crash_world:
  "world_inv demo_platform demo_view 9 before_crash" "world_queue before_crash = [demo_message 1]"
  "world_log demo_platform demo_view before_crash = [wal_demo_message ''a'']" "world_rows demo_view before_crash = []"
  "wd_pg before_crash = empty_db" "snd (wd_sink before_crash) = []"
  "wc_sync_writes (ws_cfg (wd_wal before_crash))" "wc_path (ws_cfg (wd_wal before_crash)) = ''/var/lib/mqtt2db-go/wal''"
proof -
  let ?w = "ring_of_one\<lparr>wd_wal := crash_store\<rparr>"
  note one = ring_of_one_inv [of 10, simplified]
  have store: "log_entries mem_badger_view (ws_db crash_store) = []" "ws_seq crash_store = 0"
    by (simp_all add: crash_store_def empty_store_def log_entries_def mem_badger_view_def)
  have inv: "world_inv demo_platform demo_view (Suc 9) ?w"
    using one(1) store by (simp add: world_inv_def wal_inv_def wal_before_def demo_view_def)
  have held: "world_queue ?w = [demo_message 1]" "world_log demo_platform demo_view ?w = []" "world_rows demo_view ?w = []"
    using one(2) store by (simp_all add: world_views wal_log_def demo_view_def ring_of_one_def demo_world_def empty_db_def
      mem_view_def)
  have a: "wal_message (wal_demo_message ''a'')" "small_message (wal_demo_message ''a'')"
    by (simp_all add: wal_message_def small_message_def wal_demo_message_def zero_message_def message_size_def
        go_len_def bytes_of_def)
  obtain r w' where ap: "service_append demo_platform (wal_demo_message ''a'') ?w = (r, w')" by fastforce
  have app: "wal_append mem_badger table_gob 0 (wal_demo_message ''a'') crash_store = (r, wd_wal w')"
    and w': "w' = ?w\<lparr>wd_tick := Suc (wd_tick ?w), wd_wal := wd_wal w'\<rparr>" "before_crash = w'"
    using ap by (auto simp: service_append_def read_clock_def before_crash_def ring_of_one_def demo_world_def
        demo_platform_def split: prod.splits)
  have "\<not> isl (fst (wal_append mem_badger table_gob 0 (wal_demo_message ''a'') crash_store))" by code_simp
  then have r: "\<not> isl r" by (simp add: app)
  note sp = service_append_spec [OF inv _ ap]
  show "world_inv demo_platform demo_view 9 before_crash" "world_queue before_crash = [demo_message 1]"
    "world_log demo_platform demo_view before_crash = [wal_demo_message ''a'']" "world_rows demo_view before_crash = []"
    using sp a r w'(2) by (simp_all add: message_ok_def held)
  have "ws_cfg (snd (wal_append mem_badger table_gob 0 (wal_demo_message ''a'') crash_store)) = ws_cfg crash_store"
    by code_simp
  then have "ws_cfg (wd_wal w') = ws_cfg crash_store" by (simp add: app)
  moreover have "wd_pg w' = empty_db" "snd (wd_sink w') = []"
    using arg_cong [OF w'(1), of wd_pg] arg_cong [OF w'(1), of "snd \<circ> wd_sink"]
    by (simp_all add: ring_of_one_def demo_world_def)
  ultimately show "wd_pg before_crash = empty_db" "snd (wd_sink before_crash) = []"
    "wc_sync_writes (ws_cfg (wd_wal before_crash))" "wc_path (ws_cfg (wd_wal before_crash)) = ''/var/lib/mqtt2db-go/wal''"
    by (simp_all add: w'(2) crash_store_def demo_wal_config_def)
qed

lemma at_crash_world:
  "hands at_crash = [demo_message 1]" "world_queue (sy_world at_crash) = []"
  "wd_wal (sy_world at_crash) = wd_wal before_crash" "wd_pg (sy_world at_crash) = empty_db"
  "snd (wd_sink (sy_world at_crash)) = []"
proof -
  obtain ms q where q: "dequeue 2 (wd_ring before_crash) = (ms, q)" by fastforce
  have ri: "ring_inv (wd_ring before_crash)" using before_crash_world(1) by (simp add: world_inv_def)
  have ms: "ms = [demo_message 1]" "ring_list q = []"
    using rq.deq [OF ri q] before_crash_world(2) by (simp_all add: world_queue_def)
  have F: "fl_mode small_flusher = ModeNormal" "batch_size_for_mode small_flusher = 2"
    by (simp_all add: mode_is_def batch_size_for_mode_def small_flusher_def demo_flusher_def)
  have D: "fd_wait (flusher_deps demo_platform) d w = (False, w\<lparr>wd_tick := Suc (wd_tick w)\<rparr>)"
    "fd_dequeue (flusher_deps demo_platform) 2 (before_crash\<lparr>wd_tick := t\<rparr>)
      = ([demo_message 1], before_crash\<lparr>wd_tick := t, wd_ring := q\<rparr>)"
    "\<exists>s. fd_wal (flusher_deps demo_platform) = Some s" for d w t
    using q ms(1) by (simp_all add: flusher_deps_def) (simp add: select_done_def demo_platform_def)
  have y: "at_crash = (start_system 2 service_subscriber small_flusher before_crash)\<lparr>
      sy_workers := [WTop 2 ms, WReset], sy_world := before_crash\<lparr>wd_ring := q, wd_tick := Suc (wd_tick before_crash)\<rparr>\<rparr>"
    by (simp add: at_crash_def start_system_def numeral_2_eq_2 D F ms(1))
  show "hands at_crash = [demo_message 1]" "world_queue (sy_world at_crash) = []"
    "wd_wal (sy_world at_crash) = wd_wal before_crash" "wd_pg (sy_world at_crash) = empty_db"
    "snd (wd_sink (sy_world at_crash)) = []"
    using ms before_crash_world(5,6) by (simp_all add: y hands_def start_system_def world_queue_def)
qed

definition later_platform :: "(kv_write list, kv_write list, put_input list, mem_db, unit) platform" where
  "later_platform = demo_platform\<lparr>pf_clock := later_clock\<rparr>"

definition later_env :: "(kv_write list, put_input list, mem_db, unit) boot_env" where
  "later_env = env_on (ws_db (wd_wal before_crash))"

lemma before_crash_start:
  "world_inv demo_platform demo_view (length [Work 0, Work 0, Work 0, Work 0, Work 0]) before_crash"
  "sb_unparseable service_subscriber = Some (side_table demo_platform demo_writer)"
  "\<forall>m \<in> set (world_queue before_crash) \<union> set (world_log demo_platform demo_view before_crash). message_ok m"
  "distinct (map row_key (world_rows demo_view before_crash))"
  "\<forall>tn c. Deliver tn c \<in> set [Work 0, Work 0, Work 0, Work 0, Work 0] \<longrightarrow> go_len c < 2 ^ 61"
  using before_crash_world demo_messages_small(1)
  by (simp_all add: world_inv_def service_subscriber_def set_unparseable_inserter_def message_ok_def wal_message_def
      wal_demo_message_def demo_message_def zero_message_def)
    (simp add: small_message_def message_size_def go_len_def bytes_of_def)

lemma demo_restart:
  obtains b ds where "boot mem_registry later_env later_platform ''/etc/c.yaml'' = (Returned (Inr b), ds)"
    "bt_platform b = later_platform" "platform_ok (bt_platform b) demo_view"
    "max_bytes (c_buffer (bt_config b)) < 2 ^ 62"
    "badger_path (c_badger (bt_config b)) = wc_path (ws_cfg (wd_wal (sy_world at_crash)))"
    "carries_over demo_view later_env later_platform demo_platform (sy_world at_crash)"
    "wc_sync_writes (ws_cfg (wd_wal (sy_world at_crash)))"
proof -
  obtain b ds where b: "boot mem_registry later_env later_platform ''/etc/c.yaml'' = (Returned (Inr b), ds)"
    "bt_config b = demo_config" "bt_platform b = later_platform"
    using demo_boot_on [of "ws_db (wd_wal before_crash)" later_clock] unfolding later_env_def later_platform_def by blast
  note w = before_crash_world and y = at_crash_world
  have "clock_law later_clock" by (auto simp: clock_law_def later_clock_def min_def)
  then have plat: "platform_ok (bt_platform b) demo_view"
    using demo_platform_ok by (simp add: b(3) later_platform_def platform_ok_def uuid_law_def)
  have "pf_clock demo_platform n < 5000" for n by (simp add: demo_platform_def min_def)
  then have over: "carries_over demo_view later_env later_platform demo_platform (sy_world at_crash)"
    using w y by (simp add: carries_over_def later_env_def later_platform_def env_on_fields later_clock_def)
  have "max_bytes (c_buffer (bt_config b)) < 2 ^ 62"
    "badger_path (c_badger (bt_config b)) = wc_path (ws_cfg (wd_wal (sy_world at_crash)))"
    using w y by (simp_all add: b(2) demo_config_def new_default_def)
  with that b(1,3) plat over w y show thesis by simp
qed

lemma at_crash_log: "world_log demo_platform demo_view (sy_world at_crash) = [wal_demo_message ''a'']"
  using before_crash_world(3) at_crash_world(3) by (simp add: world_log_def)

lemma crash_loses_memory_witness:
  "\<exists>b. fst (boot mem_registry later_env later_platform ''/etc/c.yaml'') = Returned (Inr b)
     \<and> world_log (bt_platform b) demo_view (bt_world b) = [wal_demo_message ''a''] \<and> world_queue (bt_world b) = []
     \<and> world_inv (bt_platform b) demo_view 7 (bt_world b) \<and> hands at_crash = [demo_message 1]"
proof -
  obtain b ds where b: "boot mem_registry later_env later_platform ''/etc/c.yaml'' = (Returned (Inr b), ds)"
    "platform_ok (bt_platform b) demo_view" "max_bytes (c_buffer (bt_config b)) < 2 ^ 62"
    "badger_path (c_badger (bt_config b)) = wc_path (ws_cfg (wd_wal (sy_world at_crash)))"
    "carries_over demo_view later_env later_platform demo_platform (sy_world at_crash)"
    "wc_sync_writes (ws_cfg (wd_wal (sy_world at_crash)))"
    by (rule demo_restart)
  have "(7 :: nat) < 2 ^ 64" by simp
  from crash_loses_memory [OF before_crash_start at_crash_def b(5,6,1,4,2,3) this] b(1) at_crash_log at_crash_world(1)
  show ?thesis by auto
qed

lemma restart_recovers_witness:
  "\<exists>b. fst (boot mem_registry later_env later_platform ''/etc/c.yaml'') = Returned (Inr b)
     \<and> in_table (wal_demo_message ''a'') (world_rows demo_view (sy_world (run_schedule (subscriber_deps (bt_platform b))
          (broker_ack (bt_platform b)) (flusher_deps (bt_platform b)) (map Work (replicate 23 0))
          (start_system 1 (bt_subscriber b) (bt_flusher b) (bt_world b)))))"
proof -
  obtain b ds where b: "boot mem_registry later_env later_platform ''/etc/c.yaml'' = (Returned (Inr b), ds)"
    "platform_ok (bt_platform b) demo_view" "max_bytes (c_buffer (bt_config b)) < 2 ^ 62"
    "badger_path (c_badger (bt_config b)) = wc_path (ws_cfg (wd_wal (sy_world at_crash)))"
    "carries_over demo_view later_env later_platform demo_platform (sy_world at_crash)"
    "wc_sync_writes (ws_cfg (wd_wal (sy_world at_crash)))" "bt_platform b = later_platform"
    by (rule demo_restart)
  note inv = schedule_inv [where k = 0, unfolded add_0_right, OF before_crash_start at_crash_def]
  then have w: "world_inv demo_platform demo_view 0 (sy_world at_crash)" unfolding svc.sched_inv_def by blast
  have same: "pf_copier later_platform = pf_copier demo_platform" "pf_pool later_platform = pf_pool demo_platform"
    "pf_badger later_platform = pf_badger demo_platform" "pf_gob later_platform = pf_gob demo_platform"
    "pf_cancelled later_platform = pf_cancelled demo_platform"
    by (simp_all add: later_platform_def)
  have laws: "\<not> md_lost_ack d \<Longrightarrow> \<forall>m \<in> set ms. payload m \<noteq> None \<Longrightarrow>
      copy_messages (pf_copier (bt_platform b)) (pf_pool (bt_platform b)) ms d = (r, d') \<Longrightarrow> \<not> isl r \<and> \<not> md_lost_ack d'"
    "wal_inv (pf_badger later_platform) (vw_badger demo_view) (pf_gob later_platform) s \<Longrightarrow>
      \<not> isl (fst (wal_drain (pf_badger later_platform) (pf_gob later_platform) n s))"
    "\<not> pf_cancelled later_platform i" for d ms r d' s n i
    unfolding b(7) same by (erule demo_healthy, assumption+, erule demo_healthy, rule demo_healthy)
  have up: "\<not> md_lost_ack (wd_pg (sy_world at_crash))" by (simp add: at_crash_world empty_db_def)
  have iter: "iter_ok (be_iter later_env)" by (simp add: later_env_def env_on_fields iter_ok_rev)
  have turns: "15 * length (world_log demo_platform demo_view (sy_world at_crash)) + 8 \<le> count_list (replicate 23 0) i"
    if "i < 1" for i :: nat
    using that by (simp add: at_crash_log numeral_eq_Suc)
  have "\<forall>m \<in> set (world_log demo_platform demo_view (sy_world at_crash)). in_table m (world_rows demo_view (sy_world
      (run_schedule (subscriber_deps (bt_platform b)) (broker_ack (bt_platform b)) (flusher_deps (bt_platform b)) (map Work (replicate 23 0))
          (start_system 1 (bt_subscriber b) (bt_flusher b) (bt_world b)))))"
    by (rule restart_recovers [where healthy = "\<lambda>d. \<not> md_lost_ack d", OF w b(5,6,1) iter b(4,2,3) up
        laws _ _ _ turns refl, THEN conjunct1])
      (auto simp: at_crash_log wal_demo_message_def)
  then show ?thesis using b(1) at_crash_log by auto
qed

end
