(* ===== verification/MigrateCmd.thy ===== *)
theory MigrateCmd
  imports Postgres Flags
begin

text \<open>
  cmd/migrate/main.go: the operator's command. The parsed flags are a record; \<open>dsn\<close> is None when the
  flag was not given, and then the environment variable counts. \<open>migrate_main\<close> parses the command line. What is printed is the list
  of outputs, \<open>stdout_text\<close> their text. The migrations themselves are in Postgres.
\<close>

subsection \<open>strconv.Atoi\<close>

definition atoi :: "string \<Rightarrow> int option" where
  \<comment> \<open>an optional sign and at least one decimal digit, in the range of a 64-bit int\<close>
  "atoi s =
     (let (neg, ds) = (case s of
           [] \<Rightarrow> (False, [])
         | c # cs \<Rightarrow> if c = CHR ''-'' then (True, cs) else if c = CHR ''+'' then (False, cs) else (False, s))
      in if ds = [] \<or> \<not> list_all is_digit ds then None
         else let v = (if neg then - int (read_nat ds) else int (read_nat ds))
              in if in_i64 v then Some v else None)"

lemma atoi_show_int: "atoi (show_int n) = (if in_i64 n then Some n else None)"
proof -
  have d: "list_all is_digit (show_nat k)" for k
    by (auto simp: list_all_iff dest: show_nat_digits)
  show ?thesis
  proof (cases "n < 0")
    case True
    then show ?thesis using d by (simp add: atoi_def show_int_def)
  next
    case False
    obtain c cs where cs: "show_nat (nat n) = c # cs" by (cases "show_nat (nat n)") auto
    have "is_digit c" using show_nat_digits [of c "nat n"] cs by simp
    then have "c \<noteq> CHR ''-''" "c \<noteq> CHR ''+''" by (auto simp: is_digit_def)
    then show ?thesis
      using False d [of "nat n"] read_show_nat [of "nat n"] cs by (simp add: atoi_def show_int_def)
  qed
qed

subsection \<open>run\<close>

record migrate_flags =
  mf_dsn :: "string option"
  mf_source :: "string option"
  mf_version :: bool
  mf_args :: "string list"

datatype migrate_output = UsageText | VersionText | UpOk | DownOk int | SchemaVersion nat bool

fun stdout_text :: "build_info \<Rightarrow> migrate_output \<Rightarrow> string" where
  \<comment> \<open>the line on standard output; the usage text goes to standard error\<close>
  "stdout_text b UsageText = []"
| "stdout_text b VersionText = version_line ''migrate'' b"
| "stdout_text b UpOk = ''up: ok'' @ [CHR 0x0A]"
| "stdout_text b (DownOk steps) = ''down: ok (steps='' @ show_int steps @ '')'' @ [CHR 0x0A]"
| "stdout_text b (SchemaVersion v dirty) =
     ''version='' @ show_nat v @ '' dirty='' @ (if dirty then ''true'' else ''false'') @ [CHR 0x0A]"

definition default_source :: string where "default_source = ''file://./migrations''"

definition migrate_cmd ::
  "('w, 'm) migrator \<Rightarrow> string \<Rightarrow> migrate_flags \<Rightarrow> 'w \<Rightarrow> (go_error option \<times> migrate_output list) \<times> 'w" where
  "migrate_cmd g env_dsn fl w =
     (let url = (case mf_dsn fl of None \<Rightarrow> env_dsn | Some d \<Rightarrow> d);
          source = (case mf_source fl of None \<Rightarrow> default_source | Some s \<Rightarrow> s)
      in if mf_version fl then ((None, [VersionText]), w)
         else (case mf_args fl of
             [] \<Rightarrow> ((Some (ErrText ''missing subcommand''), [UsageText]), w)
           | cmd # args \<Rightarrow>
               if url = '''' then
                 ((Some (ErrText ''dsn required (use --dsn or MQTT2DB_POSTGRES_DSN)''), []), w)
               else if cmd = ''up'' then
                 (case migrate_up g source url w of
                    (Some err, w1) \<Rightarrow> ((Some err, []), w1)
                  | (None, w1) \<Rightarrow> ((None, [UpOk]), w1))
               else if cmd = ''down'' then
                 (case (case args of [] \<Rightarrow> Some 1
                     | a # _ \<Rightarrow> (case atoi a of None \<Rightarrow> None | Some n \<Rightarrow> if n < 0 then None else Some n)) of
                    None \<Rightarrow>
                      ((Some (ErrText ''down: steps must be a non-negative integer (0 = all), got %q''), []), w)
                  | Some steps \<Rightarrow>
                      (case migrate_down g source url steps w of
                         (Some err, w1) \<Rightarrow> ((Some err, []), w1)
                       | (None, w1) \<Rightarrow> ((None, [DownOk steps]), w1)))
               else if cmd = ''version'' then
                 (case schema_version g source url w of
                    (Inl err, w1) \<Rightarrow> ((Some err, []), w1)
                  | (Inr (v, dirty), w1) \<Rightarrow> ((None, [SchemaVersion v dirty]), w1))
               else ((Some (ErrText ''unknown subcommand %q''), [UsageText]), w)))"

subsection \<open>The command line\<close>

definition migrate_flag_set :: flag_set where
  "migrate_flag_set = [(''dsn'', StringFlag), (''source'', StringFlag), (''version'', BoolFlag)]"

definition flags_of :: "(string \<times> string) list \<Rightarrow> string list \<Rightarrow> migrate_flags" where
  "flags_of actual operands = \<lparr>mf_dsn = map_of (rev actual) ''dsn'', mf_source = map_of (rev actual) ''source'',
     mf_version = bool_flag actual ''version'', mf_args = operands\<rparr>"

datatype migrate_end = MigrateReturned "go_error option" "migrate_output list" | MigrateFlagExit nat

definition migrate_main :: "('w, 'm) migrator \<Rightarrow> string \<Rightarrow> string list \<Rightarrow> 'w \<Rightarrow> migrate_end \<times> 'w" where
  "migrate_main g env_dsn args w =
     (case parse_flags migrate_flag_set args [] of
        FlagsHelp \<Rightarrow> (MigrateFlagExit 0, w)
      | FlagsFailed e \<Rightarrow> (MigrateFlagExit 2, w)
      | FlagsParsed actual operands \<Rightarrow>
          (case migrate_cmd g env_dsn (flags_of actual operands) w of
             ((err, out), w1) \<Rightarrow> (MigrateReturned err out, w1)))"

lemma migrate_line:
  "migrate_main g env (map flag_arg [(''dsn'', url), (''source'', src)] @ [''down'', n] @ rest) w
    = (case migrate_cmd g env \<lparr>mf_dsn = Some url, mf_source = Some src, mf_version = False,
         mf_args = [''down'', n] @ rest\<rparr> w of ((err, out), w1) \<Rightarrow> (MigrateReturned err out, w1))"
proof -
  have "parse_flags migrate_flag_set (map flag_arg [(''dsn'', url), (''source'', src)] @ ([''down'', n] @ rest)) []
      = parse_flags migrate_flag_set ([''down'', n] @ rest) ([] @ [(''dsn'', url), (''source'', src)])"
    by (rule parse_string_flags) (simp add: plain_name_def migrate_flag_set_def)
  also have "\<dots> = FlagsParsed [(''dsn'', url), (''source'', src)] ([''down'', n] @ rest)" by simp
  finally show ?thesis by (simp add: migrate_main_def flags_of_def bool_flag_def del: parse_flags.simps)
qed

subsection \<open>Property\<close>

text \<open>C37: rolling back. On the command line --dsn=URL --source=SRC down N, for any source, any URL but the empty one
  and the decimal text of any integer N, the command does what the usage says: 0 rolls every migration back, a positive N that
  fits in 64 bits rolls back N steps, each on a migrator that is opened once on the source and closed at
  the end, with "no change" reported as success; a negative N, and one that does not fit, is refused
  before the database is touched. Further arguments are ignored.\<close>
theorem down_steps:
  assumes "url \<noteq> ''''" "mig_new g src url w = (Inr m, w1)"
    and "args = map flag_arg [(''dsn'', url), (''source'', src)] @ [''down'', show_int n] @ rest"
  shows "if n < 0 \<or> 2 ^ 63 \<le> n
      then \<exists>e. migrate_main g env args w = (MigrateReturned (Some e) [], w)
      else case (if n = 0 then mig_down g m w1 else mig_steps g m (- n) w1) of
          (None, w2) \<Rightarrow> migrate_main g env args w = (MigrateReturned None [DownOk n], mig_close g m w2)
        | (Some e, w2) \<Rightarrow>
            migrate_main g env args w = (if is_no_change g e then (MigrateReturned None [DownOk n], mig_close g m w2)
              else (MigrateReturned (Some (Wrapped (if n = 0 then ''migrate down'' else ''migrate steps -%d'') e)) [],
                    mig_close g m w2))"
proof (cases "n < 0 \<or> 2 ^ 63 \<le> n")
  case True
  then show ?thesis using assms(1) unfolding assms(3) migrate_line
    by (auto simp: migrate_cmd_def atoi_show_int in_i64_def)
next
  case False
  then have "atoi (show_int n) = Some n" by (simp add: atoi_show_int in_i64_def)
  then show ?thesis
    using False assms(1,2) unfolding assms(3) migrate_line
    by (auto simp: migrate_cmd_def migrate_down_def fenced_def split: prod.split option.split)
qed

lemma down_steps_witness:
  "migrate_main demo_migrator ''''
     (map flag_arg [(''dsn'', ''postgres://db''), (''source'', ''file://m'')] @ [''down'', ''2''] @ []) 3
     = (MigrateReturned None [DownOk 2], 1)"
proof -
  obtain m w1 where o: "mig_new demo_migrator ''file://m'' ''postgres://db'' 3 = (Inr m, w1)"
    by (simp add: demo_migrator_def)
  have "show_int 2 = ''2''" by code_simp
  then have "map flag_arg [(''dsn'', ''postgres://db''), (''source'', ''file://m'')] @ [''down'', ''2''] @ []
      = map flag_arg [(''dsn'', ''postgres://db''), (''source'', ''file://m'')] @ [''down'', show_int 2] @ []" by simp
  from down_steps [OF _ o this, of "''''"] o show ?thesis by (simp add: demo_migrator_def)
qed

end
