(* ===== verification/Spec2Isabelle.thy ===== *)
theory Spec2Isabelle
  imports Buffer RingGauges Topic Config Wal WalOverlap WalExpiry DeadLetter Flusher FlusherLaws Workers Ledger
    Subscriber Delivery Schedule Progress Service Guarantees Interleaved Health Flags Boot Restart MigrateCmd
begin

text \<open>
  A verification library for mqtt2db-go, a service that takes MQTT publishes from a shared subscription
  and writes them to PostgreSQL.

  The program. The subscriber (internal/subscriber) parses the topic of a publish, builds a message and
  puts it into the ring buffer (internal/buffer), or, when the ring is full, into the write-ahead log on
  Badger (internal/wal), and acknowledges it. The workers of the flusher (internal/flusher) pull batches
  from the ring and then from the WAL and copy them to PostgreSQL (internal/postgres) with retries; a batch
  that keeps failing goes back to the WAL or, message by message, to the dead-letter bucket
  (internal/deadletter). Topics that do not parse go to a side table. internal/config and internal/logging
  hold the configuration, internal/metrics the counters, internal/health the two HTTP endpoints;
  cmd/mqtt2db-go wires the parts together, cmd/migrate is the operator's schema command.

  Theories, from the bottom up.
    Prelude: Go's basic types (byte slices that may be nil, 64-bit integers, instants, durations), error
      values with the walks of errors.As, the functions of strings and fmt the sources call, list lemmas.
    GoFloat: binary64 as far as the sources use it, with correct rounding: the two threshold products of
      the ring and the 0.95 n of the percentile.
    Metrics: internal/metrics, as records of current values, as lists of descriptors, and the constructors,
      which register the descriptors and panic where Prometheus refuses one (\<open>registry_law\<close>).
    Config: internal/config (defaults, Load, Validate, Duration) and internal/logging.
    Topic: internal/subscriber/topic.go.
    Postgres: internal/postgres. NewPool, NewCopier, CopyMessages, InsertUnparseable, the migrations; the
      contract \<open>pg_contract\<close> of the database and the locale \<open>inserter\<close>.
    Buffer: internal/buffer, its invariant \<open>ring_inv\<close>, and the locale \<open>message_queue\<close>. RingGauges: the same
      calls as a critical section and the metric writes after the Unlock, overlapping in any way.
    Wal: internal/wal on 64-bit words, Badger's contract, the locale of the log, key order and round trip.
      WalOverlap: Append and Drain in their halves, overlapping in any way. WalExpiry: the store over time, with
      a Badger whose entries expire by its own clock (\<open>ttl_law\<close>).
    DeadLetter: internal/deadletter, the S3 contract, the locale \<open>dead_letters\<close>.
    Flusher, FlusherLaws: internal/flusher, and the laws of its adaptive state, retries and gate.
    Workers: workerLoop, pullBatch and flushWithRetry as a machine with a program counter (\<open>worker_pc\<close>), one
      call on the world per step (\<open>wstep\<close>); run alone it is the round of Flusher.
    Ledger: the abstract specification, a ledger of queue, log, rows, letters, the batches in flight of
      each worker and what was lost, with the steps the service may take.
    Subscriber: internal/subscriber/subscriber.go; the locale \<open>intake\<close>.
    Delivery: publishes and worker rounds as events; the locale \<open>pipeline\<close> (an \<open>intake\<close>, with a
      \<open>sublocale\<close> to \<open>inserter\<close>): every flush, round and publish simulates ledger steps, and a run
      conserves messages and drains.
    Schedule: onPublish as a machine (\<open>sub_pc\<close>), and the subscriber with any number of workers under any
      schedule (\<open>run_schedule\<close>): every step simulates at most one ledger step, with one flight per worker.
    Progress: a potential for each worker that its own steps lower and those of the others never raise.
    Service: the ring, WAL, database and sink as one world, wired as main.go does; the interpretations of
      \<open>intake\<close> and \<open>pipeline\<close> on it.
    Guarantees: what the service promises, over that world, and a platform in memory for the witnesses.
    Interleaved: what it promises under any schedule, and what a shutdown can still take and leaves behind.
    Health: internal/health. Flags: Go's flag package as the commands use it, internal/version.
    Boot: cmd/mqtt2db-go, from the command line to the exit code. MigrateCmd: cmd/migrate.
    Restart: a process that ends after any step of any schedule and the start that follows it
      (\<open>carries_over\<close> says what outlives a process).

  How the state corresponds. A component's struct is a record with the fields its methods use (\<open>ring\<close>,
  \<open>wal_store\<close>, \<open>sink\<close>, \<open>flusher\<close>, \<open>subscriber\<close>, \<open>health_server\<close>); its metrics are a field of it.
  A method is a function from that record, and the world \<open>'w\<close> of what it calls, to the result and the new
  ones. Code outside the repository (Badger, gob, pgx, S3, JSON, uuid, url.Parse, YAML, paho, the clock, the
  context) is an argument; its documented behaviour is a named predicate (\<open>pg_contract\<close>,
  \<open>badger_contract\<close>, \<open>gob_contract\<close>, \<open>s3_contract\<close>, \<open>clock_law\<close>, \<open>uuid_law\<close>, \<open>side_law\<close>), and each
  theorem that assumes one has a witness on an implementation in memory. Errors are values; a message with
  formatted values is modelled by its format string.

  Concurrency, at three grains. A round of a worker or a publish as one event (Delivery, Service, Guarantees):
  for how much is done, and the functional statements. A call on a shared component as one step (Workers,
  Schedule, Interleaved): a worker gives way before each Dequeue, Drain, CopyMessages, Append, Write, wait
  and mode update, the subscriber before each Enqueue, Append and acknowledgement. Inside a call (RingGauges, WalOverlap):
  a call on the ring is its critical section and its later metric writes, a call on the WAL its two halves.
  The first grain is the second without interruption, and the calls of the second are those of the third
  without overlap, by equations; a critical section under one mutex is one step throughout. A select on
  the context and a timer takes the context's case when only the context is done, and either case when the
  timer has fired too: which, the platform says for each select (\<open>select_done\<close>, from \<open>pf_cancelled\<close>,
  \<open>pf_timer\<close> and \<open>pf_takes_done\<close>), so the theorems hold for every choice of the runtime.

  Acknowledgement. The callback of onPublish calls the client's Ack and counts it; the world counts the
  calls (\<open>wd_acks\<close>), and what Ack returns is the platform's (\<open>pf_ack\<close>), for the code drops the error.
  Acknowledged means in all theorems that the service called Ack. Whether paho then sends the packet, and
  that it acknowledges every publish by itself because Start does not enable manual acknowledgement, is
  paho's side and not part of the model.

  What is shown. Ring: first-in first-out, both caps kept, admission, pressure, gauges; overlapping calls have
  a serial order, but can leave a gauge stale. WAL: a refinement of a first-in first-out log, keys in time
  order, its metrics, that one undecodable entry blocks it, that overlapping calls lose nothing, and that
  entries expire only at the end of their TTL, uncounted.
  PostgreSQL: the effect of a copy, that repeating one stores a batch once, and quoting. Configuration:
  Validate finds no problem in exactly the configurations that meet the documented constraints.
  Flusher: the percentile, gauges, backoff, outcomes, and when the gate closes. Subscriber:
  the pause metrics, unparseable topics, dedup keys. The whole: Ack is called for what is held, nothing is lost
  except where a wait is cancelled or a letter fails, for whole rounds and for any interleaving of workers
  and subscriber; a worker round refines the ledger; a backlog without nil payloads drains, also under
  any schedule that gives each worker its turns; a batch with a nil payload never reaches the table; after
  a shutdown ring and WAL lose at most what workers had begun to pull and a batch for every select
  that still takes its timer; and a redelivery is stored twice. Boot: how start-up can fail or panic, and that a started
  service satisfies what the other theorems assume. Restart: a crash loses the ring and the hands of the workers and
  nothing else, and the next process brings what the WAL held, nil payloads apart, to the table. Health: the
  readiness response.
  Migrations: closing, no-change, steps.

  Bounds and fuel. A message's payload is below 2^61 bytes and the byte cap below 2^62, so sums of sizes do
  not wrap. The clock does not run backwards and lies between 1970 and 2262. \<open>world_inv p v k\<close> leaves room
  for \<open>k\<close> more appends before the 64-bit sequence number of the WAL wraps; \<open>appends\<close> bounds what a run of
  events uses. A TTL is at least one second, the unit of Badger's expiry, or there is none (WalExpiry only). The
  doubling delay of the retries is exact up to 34 retries. \<open>worker_loop n\<close> is at most \<open>n\<close>
  rounds: the code's loop has no end of its own, and the draining theorems say how many rounds or turns are enough.
  All other loops end with their data.

  Not modelled: logging output, the exposition of the metrics, HTTP and TLS, the goroutines of the HTTP
  servers and the signals (at which reading of the clock the context is done is a function of the platform,
  how the servers end is an argument), memory running out (the length of the ring that make refuses is an argument
  of \<open>new_ring\<close>, where it ends the start-up; the slices Drain makes are taken to be made, so the batch sizes
  are those for which make succeeds), the expiry of WAL entries within the schedules (WalExpiry has it for the store
  alone; the theorems on the whole service hold as long as no entry's TTL passes), a Badger that was not told to
  sync its writes across a crash, the inside of CopyMessages against a concurrent one (it is one transaction),
  timeouts of single calls (they show as errors of the call), the usage texts. test/ (load generator, integration tests), deploy/ and the
  documents hold no logic of the service.
\<close>

end
